(* ===== verification/Prelude.thy ===== *)
theory Prelude
  imports Main "HOL-Library.Word"
begin

text \<open>
  Shared vocabulary of the development: machine types, Go's integer conversions and truncating
  division, time values, errors as values, and the byte reader that every parser uses.

  \<^item> A Go \<open>(value, error)\<close> result is a sum: \<open>Inl\<close> carries the error, \<open>Inr\<close> the value.
    A panic is the error \<open>Panic\<close>, so that every crash of the source is a branch of the model.
    The texts of formatted errors keep their fixed part only.
  \<^item> \<open>protocol.PacketNumber\<close>, \<open>protocol.ByteCount\<close>, \<open>protocol.StreamID\<close> and
    \<open>time.Duration\<close> are 64-bit signed integers of the source. They are \<open>int\<close> here; wherever the
    code relies on, or guards against, wrap-around, the wrap is written out with \<open>wrap64\<close>.
    Unsigned 64-bit values on the wire are \<open>64 word\<close>.
  \<^item> \<open>time.Time\<close> is the number of nanoseconds since the zero time, so the zero value
    \<open>time.Time{}\<close> is 0; \<open>time_Sub\<close> saturates as the library function does.
\<close>

unbundle bit_operations_syntax

subsection \<open>Types\<close>

type_synonym byte = "8 word"
type_synonym u64 = "64 word"
type_synonym PacketNumber = int
type_synonym ByteCount = int
type_synonym StreamID = int
type_synonym StreamNum = int
type_synonym duration = int
type_synonym time = int

text \<open>The transport error codes of \<open>qerr/error_codes.go\<close>.\<close>

datatype TransportErrorCode =
    NoError | InternalError | ConnectionRefused | FlowControlError | StreamLimitError
  | StreamStateError | FinalSizeError | FrameEncodingError | TransportParameterError
  | ConnectionIDLimitError | ProtocolViolation | InvalidToken | ApplicationErrorErrorCode
  | CryptoBufferExceeded | KeyUpdateError | AEADLimitReached | NoViablePathError

datatype error =
    EOF
  | ErrUnexpectedEOF
  | Err string
  | TransportError TransportErrorCode u64
  | Panic string

type_synonym 'a result = "error + 'a"

subsection \<open>Sequencing of fallible computations\<close>

definition bindE :: "'a result \<Rightarrow> ('a \<Rightarrow> 'b result) \<Rightarrow> 'b result" where
  "bindE m f = (case m of Inl e \<Rightarrow> Inl e | Inr a \<Rightarrow> f a)"

subsection \<open>Integer conversions and division\<close>

definition wrap64 :: "int \<Rightarrow> int" where
  "wrap64 x = (x + 2 ^ 63) mod 2 ^ 64 - 2 ^ 63"

definition uwrap64 :: "int \<Rightarrow> int" where
  "uwrap64 x = x mod 2 ^ 64"

definition int64_of :: "u64 \<Rightarrow> int" where
  "int64_of w = sint w"

definition uint64_of :: "int \<Rightarrow> u64" where
  "uint64_of i = word_of_int i"

text \<open>Go's \<open>/\<close> on signed integers truncates towards zero.\<close>

definition tdiv :: "int \<Rightarrow> int \<Rightarrow> int" where
  "tdiv a b = sgn a * sgn b * (\<bar>a\<bar> div \<bar>b\<bar>)"

subsection \<open>Time\<close>

abbreviation MaxInt64 :: int where "MaxInt64 \<equiv> 2 ^ 63 - 1"
abbreviation MinInt64 :: int where "MinInt64 \<equiv> - (2 ^ 63)"
abbreviation Microsecond :: duration where "Microsecond \<equiv> 1000"
abbreviation Millisecond :: duration where "Millisecond \<equiv> 1000000"
abbreviation Second :: duration where "Second \<equiv> 1000000000"

definition InfDuration :: duration where
  "InfDuration = MaxInt64"

definition time_IsZero :: "time \<Rightarrow> bool" where
  "time_IsZero t \<longleftrightarrow> t = 0"

definition time_Add :: "time \<Rightarrow> duration \<Rightarrow> time" where
  "time_Add t d = t + d"

definition time_Sub :: "time \<Rightarrow> time \<Rightarrow> duration" where
  "time_Sub t u = max MinInt64 (min MaxInt64 (t - u))"

definition AbsDuration :: "duration \<Rightarrow> duration" where
  "AbsDuration d = (if d \<ge> 0 then d else - d)"

definition MinNonZeroDuration :: "duration \<Rightarrow> duration \<Rightarrow> duration" where
  "MinNonZeroDuration a b = (if a = 0 then b else if b = 0 then a else min a b)"

definition MinTime :: "time \<Rightarrow> time \<Rightarrow> time" where
  "MinTime a b = (if a > b then b else a)"

definition MinNonZeroTime :: "time \<Rightarrow> time \<Rightarrow> time" where
  "MinNonZeroTime a b =
     (if time_IsZero a then b else if time_IsZero b then a else MinTime a b)"

definition MaxTime :: "time \<Rightarrow> time \<Rightarrow> time" where
  "MaxTime a b = (if a > b then a else b)"

subsection \<open>Reading bytes\<close>

text \<open>
  A \<open>bytes.Reader\<close> is the list of the bytes that are left. \<open>io.ReadFull\<close> reports
  \<open>io.EOF\<close> when nothing could be read and \<open>io.ErrUnexpectedEOF\<close> after a partial read.
\<close>

fun readByte :: "byte list \<Rightarrow> (byte \<times> byte list) result" where
  "readByte [] = Inl EOF"
| "readByte (b # r) = Inr (b, r)"

definition readFull :: "byte list \<Rightarrow> nat \<Rightarrow> (byte list \<times> byte list) result" where
  "readFull r n =
     (if n \<le> length r then Inr (take n r, drop n r)
      else if r = [] then Inl EOF else Inl ErrUnexpectedEOF)"

subsection \<open>Slices and searching\<close>

text \<open>Indexing a slice panics out of range.\<close>

definition slice_get :: "'a list \<Rightarrow> nat \<Rightarrow> 'a result" where
  "slice_get xs i = (if i < length xs then Inr (xs ! i) else Inl (Panic ''index out of range''))"

text \<open>\<open>sort.Search\<close> of the standard library: binary search over \<open>[i, j)\<close>.\<close>

function sort_Search_loop :: "nat \<Rightarrow> nat \<Rightarrow> (nat \<Rightarrow> bool) \<Rightarrow> nat" where
  "sort_Search_loop i j f =
     (if i < j then let h = (i + j) div 2
        in if \<not> f h then sort_Search_loop (h + 1) j f else sort_Search_loop i h f
      else i)"
  by pat_completeness auto
termination
  by (relation "measure (\<lambda>(i, j, f). j - i)") auto

definition sort_Search :: "nat \<Rightarrow> (nat \<Rightarrow> bool) \<Rightarrow> nat" where
  "sort_Search n f = sort_Search_loop 0 n f"

subsection \<open>Lemmas\<close>

named_theorems resultE \<open>elimination of successful results\<close>

lemma bindE_simps [simp]:
  "bindE (Inl e) f = Inl e"
  "bindE (Inr a) f = f a"
  by (simp_all add: bindE_def)

lemma bindE_Inr_iff [resultE]:
  "bindE m f = Inr b \<longleftrightarrow> (\<exists>a. m = Inr a \<and> f a = Inr b)"
  by (cases m) auto

lemma bindE_assoc: "bindE (bindE m f) g = bindE m (\<lambda>x. bindE (f x) g)"
  by (cases m) auto

lemma wrap64_id [simp]: "MinInt64 \<le> x \<Longrightarrow> x \<le> MaxInt64 \<Longrightarrow> wrap64 x = x"
  by (simp add: wrap64_def)

lemma wrap64_range: "MinInt64 \<le> wrap64 x \<and> wrap64 x \<le> MaxInt64"
  using pos_mod_bound [of "2 ^ 64 :: int" "x + 2 ^ 63"]
    pos_mod_sign [of "2 ^ 64 :: int" "x + 2 ^ 63"]
  by (auto simp: wrap64_def)

lemma uwrap64_id [simp]: "0 \<le> x \<Longrightarrow> x < 2 ^ 64 \<Longrightarrow> uwrap64 x = x"
  by (simp add: uwrap64_def)

lemma tdiv_nonneg [simp]: "0 \<le> a \<Longrightarrow> 0 < b \<Longrightarrow> tdiv a b = a div b"
  by (cases "a = 0") (auto simp: tdiv_def)

lemma int64_of_uint:
  assumes "uint w < 2 ^ 63"
  shows "int64_of w = uint w"
proof -
  have "- (2 ^ 63) \<le> (0 :: int)" by simp
  also have "0 \<le> uint w" by simp
  finally have "signed_take_bit 63 (uint w) = uint w"
    using assms by (rule signed_take_bit_int_eq_self)
  then show ?thesis by (simp add: int64_of_def sint_uint)
qed

lemma uint_uint64_of: "0 \<le> i \<Longrightarrow> i < 2 ^ 64 \<Longrightarrow> uint (uint64_of i) = i"
  by (simp add: uint64_of_def take_bit_int_eq_self unsigned_of_int)

lemma int64_of_uint64_of [simp]:
  "0 \<le> i \<Longrightarrow> i < 2 ^ 63 \<Longrightarrow> int64_of (uint64_of i) = i"
  by (simp add: int64_of_uint uint_uint64_of)

lemma readFull_append [simp]: "length xs = n \<Longrightarrow> readFull (xs @ ys) n = Inr (xs, ys)"
  by (simp add: readFull_def)

lemma readFull_Inr [resultE]:
  "readFull r n = Inr (xs, ys) \<longleftrightarrow> n \<le> length r \<and> xs = take n r \<and> ys = drop n r"
  by (auto simp: readFull_def)

lemma readByte_Inr [resultE]: "readByte r = Inr (b, r') \<longleftrightarrow> r = b # r'"
  by (cases r) auto

lemma slice_get_Inr [resultE]: "slice_get xs i = Inr x \<longleftrightarrow> i < length xs \<and> x = xs ! i"
  by (auto simp: slice_get_def)

lemma slice_get_in [simp]: "i < length xs \<Longrightarrow> slice_get xs i = Inr (xs ! i)"
  by (simp add: slice_get_def)

declare sort_Search_loop.simps [simp del]

text \<open>On a monotone predicate the search returns the least index that satisfies it.\<close>

lemma sort_Search_loop_least:
  assumes "\<And>a b. a \<le> b \<Longrightarrow> b < j \<Longrightarrow> f a \<Longrightarrow> f b" "i \<le> j"
  shows "i \<le> sort_Search_loop i j f \<and> sort_Search_loop i j f \<le> j
    \<and> (\<forall>a. i \<le> a \<and> a < sort_Search_loop i j f \<longrightarrow> \<not> f a)
    \<and> (sort_Search_loop i j f < j \<longrightarrow> f (sort_Search_loop i j f))"
  using assms
proof (induction i j f rule: sort_Search_loop.induct)
  case (1 i j f)
  define h where "h = (i + j) div 2"
  consider "\<not> i < j" | "i < j" "f h" | "i < j" "\<not> f h" by blast
  then show ?case
  proof cases
    case 1
    then have "sort_Search_loop i j f = i" by (simp add: sort_Search_loop.simps [of i j f])
    with 1 \<open>i \<le> j\<close> show ?thesis by auto
  next
    case 2
    then have h: "i \<le> h" "h < j" by (auto simp: h_def)
    define s where "s = sort_Search_loop i h f"
    have "i \<le> s \<and> s \<le> h \<and> (\<forall>a. i \<le> a \<and> a < s \<longrightarrow> \<not> f a) \<and> (s < h \<longrightarrow> f s)"
      unfolding s_def using 2 h "1.prems" by (intro "1.IH"(2) [OF _ h_def]) auto
    moreover have "sort_Search_loop i j f = s"
      using 2 by (simp add: sort_Search_loop.simps [of i j f] h_def s_def Let_def)
    ultimately show ?thesis using h 2 by (cases "s = h") auto
  next
    case 3
    then have h: "i \<le> h" "h < j" by (auto simp: h_def)
    define s where "s = sort_Search_loop (h + 1) j f"
    have "h + 1 \<le> s \<and> s \<le> j \<and> (\<forall>a. h + 1 \<le> a \<and> a < s \<longrightarrow> \<not> f a) \<and> (s < j \<longrightarrow> f s)"
      unfolding s_def using 3 h "1.prems" by (intro "1.IH"(1) [OF _ h_def]) auto
    moreover from this have "\<not> f a" if "a < s" for a
      using "1.prems"(1) [of a h] that h 3 by (cases "a \<le> h") auto
    moreover have "sort_Search_loop i j f = s"
      using 3 by (simp add: sort_Search_loop.simps [of i j f] h_def s_def Let_def)
    ultimately show ?thesis using h by auto
  qed
qed

lemma sort_Search_least:
  assumes "\<And>a b. a \<le> b \<Longrightarrow> b < n \<Longrightarrow> f a \<Longrightarrow> f b"
  shows "sort_Search n f \<le> n" "a < sort_Search n f \<Longrightarrow> \<not> f a"
    "sort_Search n f < n \<Longrightarrow> f (sort_Search n f)"
  using sort_Search_loop_least [of n f 0] assms by (auto simp: sort_Search_def)

end
