(* ===== verification/Varint.thy ===== *)
theory Varint
  imports Prelude
begin

text \<open>
  The variable-length integers of QUIC, from \<open>quicvarint/varint.go\<close>: reading, appending
  (with the shortest or a given length) and the length function. Values are 64-bit words and the
  bit operations are those of the source; the panics of the source are errors.
\<close>

subsection \<open>Definitions\<close>

definition maxVarInt1 :: u64 where "maxVarInt1 = 63"
definition maxVarInt2 :: u64 where "maxVarInt2 = 16383"
definition maxVarInt4 :: u64 where "maxVarInt4 = 1073741823"
definition maxVarInt8 :: u64 where "maxVarInt8 = 4611686018427387903"

definition varint_Read :: "byte list \<Rightarrow> (u64 \<times> byte list) result" where
  "varint_Read r =
     bindE (readByte r) (\<lambda>(firstByte, r).
     let len = push_bit (unat (drop_bit 6 (firstByte AND 0xc0))) (1 :: nat);
         b1 = firstByte AND (0xff - 0xc0)
     in if len = 1 then Inr (ucast b1, r) else
     bindE (readByte r) (\<lambda>(b2, r).
     if len = 2 then Inr (ucast b2 + push_bit 8 (ucast b1), r) else
     bindE (readByte r) (\<lambda>(b3, r).
     bindE (readByte r) (\<lambda>(b4, r).
     if len = 4
     then Inr (ucast b4 + push_bit 8 (ucast b3) + push_bit 16 (ucast b2) + push_bit 24 (ucast b1), r)
     else
     bindE (readByte r) (\<lambda>(b5, r).
     bindE (readByte r) (\<lambda>(b6, r).
     bindE (readByte r) (\<lambda>(b7, r).
     bindE (readByte r) (\<lambda>(b8, r).
     Inr (ucast b8 + push_bit 8 (ucast b7) + push_bit 16 (ucast b6) + push_bit 24 (ucast b5)
          + push_bit 32 (ucast b4) + push_bit 40 (ucast b3) + push_bit 48 (ucast b2)
          + push_bit 56 (ucast b1), r)))))))))"

definition uint8_shr :: "u64 \<Rightarrow> nat \<Rightarrow> byte" where
  "uint8_shr i k = ucast (drop_bit k i)"

definition varint_Append :: "byte list \<Rightarrow> u64 \<Rightarrow> byte list result" where
  "varint_Append b i =
     (if i \<le> maxVarInt1 then Inr (b @ [uint8_shr i 0])
      else if i \<le> maxVarInt2 then Inr (b @ [uint8_shr i 8 OR 0x40, uint8_shr i 0])
      else if i \<le> maxVarInt4 then
        Inr (b @ [uint8_shr i 24 OR 0x80, uint8_shr i 16, uint8_shr i 8, uint8_shr i 0])
      else if i \<le> maxVarInt8 then
        Inr (b @ [uint8_shr i 56 OR 0xc0, uint8_shr i 48, uint8_shr i 40, uint8_shr i 32,
                  uint8_shr i 24, uint8_shr i 16, uint8_shr i 8, uint8_shr i 0])
      else Inl (Panic ''doesn't fit into 62 bits''))"

definition varint_Len :: "u64 \<Rightarrow> ByteCount result" where
  "varint_Len i =
     (if i \<le> maxVarInt1 then Inr 1
      else if i \<le> maxVarInt2 then Inr 2
      else if i \<le> maxVarInt4 then Inr 4
      else if i \<le> maxVarInt8 then Inr 8
      else Inl (Panic ''value doesn't fit into 62 bits: ''))"

definition varint_AppendWithLen :: "byte list \<Rightarrow> u64 \<Rightarrow> ByteCount \<Rightarrow> byte list result" where
  "varint_AppendWithLen b i len =
     (if len \<noteq> 1 \<and> len \<noteq> 2 \<and> len \<noteq> 4 \<and> len \<noteq> 8 then Inl (Panic ''invalid varint length'')
      else bindE (varint_Len i) (\<lambda>l.
        if l = len then varint_Append b i
        else if l > len then Inl (Panic ''cannot encode'')
        else
          let b = (if len = 2 then b @ [0b01000000]
                   else if len = 4 then b @ [0b10000000]
                   else if len = 8 then b @ [0b11000000] else b);
              b = b @ map (\<lambda>j. 0) [1..<nat (len - l)];
              b = b @ map (\<lambda>j. uint8_shr i (8 * (nat l - 1 - j))) [0..<nat l]
          in Inr b))"

text \<open>The number of bytes of the encoding as a total function, used in specifications.\<close>

definition vlen :: "u64 \<Rightarrow> int" where
  "vlen i = (if i \<le> maxVarInt1 then 1 else if i \<le> maxVarInt2 then 2
             else if i \<le> maxVarInt4 then 4 else 8)"

text \<open>The bytes that \<open>varint_Append\<close> adds for an encodable value.\<close>

definition vbytes :: "u64 \<Rightarrow> byte list" where
  "vbytes i = (case varint_Append [] i of Inl _ \<Rightarrow> [] | Inr bs \<Rightarrow> bs)"

lemmas maxVarInt_defs = maxVarInt1_def maxVarInt2_def maxVarInt4_def maxVarInt8_def

subsection \<open>Bytes of a word\<close>

lemma take_bit_unat64: "take_bit 64 (unat (i :: u64)) = unat i"
  using unsigned_less [of i] by (intro take_bit_nat_eq_self) simp

lemma unat_uint8_shr: "unat (uint8_shr i k) = (unat i div 2 ^ k) mod 256"
proof -
  have "unat (drop_bit k i) = drop_bit k (take_bit 64 (unat i))"
    by (subst unsigned_drop_bit_eq) simp
  then have "unat (drop_bit k i) = unat i div 2 ^ k"
    by (simp only: take_bit_unat64 drop_bit_eq_div)
  then show ?thesis by (simp add: uint8_shr_def unsigned_ucast_eq take_bit_eq_mod)
qed

lemma unat_byte_less: "unat (b :: byte) < 256"
  using unsigned_less [of b] by simp

lemma unat_ucast_byte: "unat (ucast (b :: byte) :: u64) = unat b"
  using unat_byte_less [of b] by (simp add: unsigned_ucast_eq take_bit_nat_eq_self_iff)

lemma unat_push_ucast:
  assumes "k \<le> 56"
  shows "unat (push_bit k (ucast (b::byte) :: u64)) = unat b * 2 ^ k"
proof -
  have "unat b < 2 ^ 8" using unat_byte_less [of b] by simp
  also have "(2::nat) ^ 8 \<le> 2 ^ (64 - k)" using assms by (intro power_increasing) auto
  finally have "take_bit (64 - k) (unat b) = unat b" by (rule take_bit_nat_eq_self)
  then have "push_bit k (take_bit (64 - k) (unat (ucast b :: u64))) = unat b * 2 ^ k"
    by (simp add: unat_ucast_byte push_bit_eq_mult)
  moreover have "unat (push_bit k (ucast b :: u64)) = push_bit k (take_bit (64 - k) (unat (ucast b :: u64)))"
    using assms by (subst unsigned_push_bit_eq) (simp add: push_bit_take_bit)
  ultimately show ?thesis by simp
qed

lemma byte_eqI:
  fixes x y :: byte
  assumes "bit x 0 = bit y 0" "bit x 1 = bit y 1" "bit x 2 = bit y 2" "bit x 3 = bit y 3"
    "bit x 4 = bit y 4" "bit x 5 = bit y 5" "bit x 6 = bit y 6" "bit x 7 = bit y 7"
  shows "x = y"
proof (rule bit_word_eqI)
  fix n assume "n < LENGTH(8)"
  then have "n = 0 \<or> n = 1 \<or> n = 2 \<or> n = 3 \<or> n = 4 \<or> n = 5 \<or> n = 6 \<or> n = 7"
    by simp arith
  then show "bit x n = bit y n" using assms by auto
qed

lemma high_bits:
  assumes "unat (b :: byte) < 64"
  shows "\<not> bit b 6" and "\<not> bit b 7"
proof -
  have "bit b n = bit (unat b) n" for n by (simp add: bit_unsigned_iff)
  moreover have "\<not> bit (unat b) 6" "\<not> bit (unat b) 7"
    using assms by (auto simp: bit_iff_odd)
  ultimately show "\<not> bit b 6" and "\<not> bit b 7" by auto
qed

lemma byte_tags:
  assumes "unat (b :: byte) < 64"
  shows "(b OR 0x40) AND 0x3f = b" and "(b OR 0x80) AND 0x3f = b" and "(b OR 0xc0) AND 0x3f = b"
    and "(b OR 0x40) AND 0xc0 = 0x40" and "(b OR 0x80) AND 0xc0 = 0x80"
    and "(b OR 0xc0) AND 0xc0 = 0xc0" and "b AND 0xc0 = 0" and "b AND 0x3f = b"
  using high_bits [OF assms]
  by (auto intro!: byte_eqI simp: bit_or_iff bit_and_iff)

subsection \<open>Reading and appending\<close>

lemma varint_Read_tagged:
  assumes "unat (b1 :: byte) < 64"
  shows "varint_Read (b1 # r) = Inr (ucast b1, r)"
    and "varint_Read ((b1 OR 0x40) # b2 # r) = Inr (ucast b2 + push_bit 8 (ucast b1), r)"
    and "varint_Read ((b1 OR 0x80) # b2 # b3 # b4 # r) =
      Inr (ucast b4 + push_bit 8 (ucast b3) + push_bit 16 (ucast b2) + push_bit 24 (ucast b1), r)"
    and "varint_Read ((b1 OR 0xc0) # b2 # b3 # b4 # b5 # b6 # b7 # b8 # r) =
      Inr (ucast b8 + push_bit 8 (ucast b7) + push_bit 16 (ucast b6) + push_bit 24 (ucast b5)
          + push_bit 32 (ucast b4) + push_bit 40 (ucast b3) + push_bit 48 (ucast b2)
          + push_bit 56 (ucast b1), r)"
proof -
  note tags = byte_tags [OF assms]
  have mask: "0xff - 0xc0 = (0x3f :: byte)" by simp
  note unfold = varint_Read_def readByte.simps bindE_simps prod.case Let_def mask tags
  show "varint_Read (b1 # r) = Inr (ucast b1, r)"
    by (simp only: unfold) simp
  show "varint_Read ((b1 OR 0x40) # b2 # r) = Inr (ucast b2 + push_bit 8 (ucast b1), r)"
    by (simp only: unfold) simp
  show "varint_Read ((b1 OR 0x80) # b2 # b3 # b4 # r) =
      Inr (ucast b4 + push_bit 8 (ucast b3) + push_bit 16 (ucast b2) + push_bit 24 (ucast b1), r)"
    by (simp only: unfold) simp
  show "varint_Read ((b1 OR 0xc0) # b2 # b3 # b4 # b5 # b6 # b7 # b8 # r) =
      Inr (ucast b8 + push_bit 8 (ucast b7) + push_bit 16 (ucast b6) + push_bit 24 (ucast b5)
          + push_bit 32 (ucast b4) + push_bit 40 (ucast b3) + push_bit 48 (ucast b2)
          + push_bit 56 (ucast b1), r)"
    by (simp only: unfold) simp
qed

lemma nat_byte_step: "n div 2 ^ k = n div 2 ^ k mod 256 + 256 * (n div 2 ^ (k + 8) :: nat)"
proof -
  have "n div 2 ^ (k + 8) = n div 2 ^ k div 256" by (simp add: power_add div_mult2_eq)
  then show ?thesis by (simp only: mod_mult_div_eq)
qed

lemma nat_bytes2: "n < 65536 \<Longrightarrow> n mod 256 + n div 2 ^ 8 mod 256 * 2 ^ 8 = (n :: nat)"
  using nat_byte_step [of n 0] by simp

lemma horner4:
  fixes m0 :: nat
  assumes "m0 = r0 + 256 * m1" "m1 = r1 + 256 * m2" "m2 = r2 + 256 * m3" "m3 = r3 + 256 * m4"
  shows "r0 + r1 * 2 ^ 8 + r2 * 2 ^ 16 + r3 * 2 ^ 24 + m4 * 2 ^ 32 = m0"
  using assms by simp

lemma nat_bytes4:
  "n mod 256 + n div 2 ^ 8 mod 256 * 2 ^ 8 + n div 2 ^ 16 mod 256 * 2 ^ 16
    + n div 2 ^ 24 mod 256 * 2 ^ 24 + n div 2 ^ 32 * 2 ^ 32 = (n :: nat)"
  using horner4 [OF nat_byte_step [of n 0] nat_byte_step [of n "0 + 8"]
      nat_byte_step [of n "0 + 8 + 8"] nat_byte_step [of n "0 + 8 + 8 + 8"]] by simp

lemma nat_bytes8:
  assumes "n < 2 ^ 64"
  shows "n mod 256 + n div 2 ^ 8 mod 256 * 2 ^ 8 + n div 2 ^ 16 mod 256 * 2 ^ 16
    + n div 2 ^ 24 mod 256 * 2 ^ 24 + n div 2 ^ 32 mod 256 * 2 ^ 32 + n div 2 ^ 40 mod 256 * 2 ^ 40
    + n div 2 ^ 48 mod 256 * 2 ^ 48 + n div 2 ^ 56 mod 256 * 2 ^ 56 = (n :: nat)"
proof -
  have "n div 2 ^ 32 div 2 ^ 32 = 0" using assms by (simp flip: div_mult2_eq)
  then show ?thesis
    using nat_bytes4 [of n] nat_bytes4 [of "n div 2 ^ 32"]
    by (simp add: algebra_simps flip: div_mult2_eq)
qed

lemma bytes_word1: "unat i < 64 \<Longrightarrow> ucast (uint8_shr i 0) = i"
  by (rule word_unat_eq_iff [THEN iffD2]) (simp add: unat_ucast_byte unat_uint8_shr)

lemma bytes_word2:
  assumes "unat i < 65536"
  shows "ucast (uint8_shr i 0) + push_bit 8 (ucast (uint8_shr i 8)) = i"
  using nat_bytes2 [OF assms] assms
  by (intro word_unat_eq_iff [THEN iffD2])
     (simp add: unat_word_ariths unat_push_ucast unat_ucast_byte unat_uint8_shr)

lemma bytes_word4:
  assumes "unat i < 2 ^ 32"
  shows "ucast (uint8_shr i 0) + push_bit 8 (ucast (uint8_shr i 8))
    + push_bit 16 (ucast (uint8_shr i 16)) + push_bit 24 (ucast (uint8_shr i 24)) = i"
  using nat_bytes4 [of "unat i"] assms
  by (intro word_unat_eq_iff [THEN iffD2])
     (simp add: unat_word_ariths unat_push_ucast unat_ucast_byte unat_uint8_shr)

lemma bytes_word8:
  "ucast (uint8_shr i 0) + push_bit 8 (ucast (uint8_shr i 8))
    + push_bit 16 (ucast (uint8_shr i 16)) + push_bit 24 (ucast (uint8_shr i 24))
    + push_bit 32 (ucast (uint8_shr i 32)) + push_bit 40 (ucast (uint8_shr i 40))
    + push_bit 48 (ucast (uint8_shr i 48)) + push_bit 56 (ucast (uint8_shr i 56)) = i"
  (is "?s = _")
proof -
  have n: "unat i < 2 ^ 64" using unsigned_less [of i] by simp
  have "unat ?s = unat i mod 2 ^ 64"
    by (subst nat_bytes8 [OF n, symmetric])
       (simp add: unat_word_ariths unat_push_ucast unat_ucast_byte unat_uint8_shr mod_simps)
  with n show ?thesis by (simp add: word_unat_eq_iff)
qed

lemma le_max_unat:
  "i \<le> maxVarInt1 \<longleftrightarrow> unat i < 2 ^ 6" "i \<le> maxVarInt2 \<longleftrightarrow> unat i < 2 ^ 14"
  "i \<le> maxVarInt4 \<longleftrightarrow> unat i < 2 ^ 30" "i \<le> maxVarInt8 \<longleftrightarrow> unat i < 2 ^ 62"
  by (auto simp: maxVarInt_defs word_le_nat_alt)

lemma varint_Append_vbytes:
  "i \<le> maxVarInt8 \<Longrightarrow> varint_Append b i = Inr (b @ vbytes i)"
  by (auto simp: varint_Append_def vbytes_def)

lemma length_vbytes: "i \<le> maxVarInt8 \<Longrightarrow> int (length (vbytes i)) = vlen i"
  by (simp add: vbytes_def varint_Append_def vlen_def)

lemma varint_Read_vbytes:
  assumes "i \<le> maxVarInt8"
  shows "varint_Read (vbytes i @ r) = Inr (i, r)"
proof -
  consider "unat i < 2 ^ 6" | "\<not> unat i < 2 ^ 6" "unat i < 2 ^ 14"
    | "\<not> unat i < 2 ^ 6" "\<not> unat i < 2 ^ 14" "unat i < 2 ^ 30"
    | "\<not> unat i < 2 ^ 6" "\<not> unat i < 2 ^ 14" "\<not> unat i < 2 ^ 30" "unat i < 2 ^ 62"
    using assms by (auto simp: le_max_unat)
  then show ?thesis
  proof cases
    case 1
    moreover from 1 have "unat (uint8_shr i 0) < 64" by (simp add: unat_uint8_shr)
    ultimately show ?thesis
      by (simp add: vbytes_def varint_Append_def le_max_unat varint_Read_tagged bytes_word1)
  next
    case 2
    moreover from 2 have "unat (uint8_shr i 8) < 64" by (simp add: unat_uint8_shr less_mult_imp_div_less)
    ultimately show ?thesis
      by (simp add: vbytes_def varint_Append_def le_max_unat varint_Read_tagged bytes_word2)
  next
    case 3
    moreover from 3 have "unat (uint8_shr i 24) < 64" by (simp add: unat_uint8_shr less_mult_imp_div_less)
    ultimately show ?thesis
      by (simp add: vbytes_def varint_Append_def le_max_unat varint_Read_tagged bytes_word4)
  next
    case 4
    moreover from 4 have "unat (uint8_shr i 56) < 64" by (simp add: unat_uint8_shr less_mult_imp_div_less)
    ultimately show ?thesis
      by (simp add: vbytes_def varint_Append_def le_max_unat varint_Read_tagged bytes_word8)
  qed
qed


lemma varint_Len_vlen: "i \<le> maxVarInt8 \<Longrightarrow> varint_Len i = Inr (vlen i)"
  by (simp add: varint_Len_def vlen_def)


lemma and_3f_less: "unat (f AND 0x3f :: byte) < 64"
proof -
  have "f AND 0x3f \<le> 0x3f" by (rule word_and_le1)
  then show ?thesis by (simp add: word_le_nat_alt)
qed

lemma byte_tag_cases:
  obtains "f = f AND 0x3f" | "f = (f AND 0x3f) OR 0x40" | "f = (f AND 0x3f) OR 0x80"
    | "f = (f AND 0x3f) OR (0xc0 :: byte)"
proof -
  consider "\<not> bit f 6" "\<not> bit f 7" | "bit f 6" "\<not> bit f 7" | "\<not> bit f 6" "bit f 7"
    | "bit f 6" "bit f 7" by blast
  then show thesis
  proof cases
    case 1
    then have "f = f AND 0x3f" by (intro byte_eqI) (simp_all add: bit_or_iff bit_and_iff)
    then show ?thesis by (rule that(1))
  next
    case 2
    then have "f = (f AND 0x3f) OR 0x40" by (intro byte_eqI) (simp_all add: bit_or_iff bit_and_iff)
    then show ?thesis by (rule that(2))
  next
    case 3
    then have "f = (f AND 0x3f) OR 0x80" by (intro byte_eqI) (simp_all add: bit_or_iff bit_and_iff)
    then show ?thesis by (rule that(3))
  next
    case 4
    then have "f = (f AND 0x3f) OR 0xc0" by (intro byte_eqI) (simp_all add: bit_or_iff bit_and_iff)
    then show ?thesis by (rule that(4))
  qed
qed

lemma varint_Read_needs:
  assumes "unat (b1 :: byte) < 64"
  shows "varint_Read ((b1 OR 0x40) # s) = Inr p \<Longrightarrow> \<exists>b2 r. s = b2 # r"
    and "varint_Read ((b1 OR 0x80) # s) = Inr p \<Longrightarrow> \<exists>b2 b3 b4 r. s = b2 # b3 # b4 # r"
    and "varint_Read ((b1 OR 0xc0) # s) = Inr p \<Longrightarrow>
      \<exists>b2 b3 b4 b5 b6 b7 b8 r. s = b2 # b3 # b4 # b5 # b6 # b7 # b8 # r"
proof -
  note tags = byte_tags [OF assms]
  note unfold = varint_Read_def readByte.simps bindE_simps prod.case Let_def tags
  assume "varint_Read ((b1 OR 0x40) # s) = Inr p"
  then show "\<exists>b2 r. s = b2 # r"
    by (simp only: unfold) (auto simp: resultE)
next
  note tags = byte_tags [OF assms]
  note unfold = varint_Read_def readByte.simps bindE_simps prod.case Let_def tags
  assume "varint_Read ((b1 OR 0x80) # s) = Inr p"
  then show "\<exists>b2 b3 b4 r. s = b2 # b3 # b4 # r"
    by (simp only: unfold) (auto simp: resultE)
next
  note tags = byte_tags [OF assms]
  note unfold = varint_Read_def readByte.simps bindE_simps prod.case Let_def tags
  assume "varint_Read ((b1 OR 0xc0) # s) = Inr p"
  then show "\<exists>b2 b3 b4 b5 b6 b7 b8 r. s = b2 # b3 # b4 # b5 # b6 # b7 # b8 # r"
    by (simp only: unfold) (auto simp: resultE)
qed

lemma varint_Read_cases:
  assumes "varint_Read r = Inr (i, r')"
  obtains (one) b1 where "unat b1 < 64" "r = b1 # r'" "i = ucast b1"
  | (two) b1 b2 where "unat (b1 :: byte) < 64" "r = (b1 OR 0x40) # b2 # r'"
      "i = ucast b2 + push_bit 8 (ucast b1)"
  | (four) b1 b2 b3 b4 where "unat (b1 :: byte) < 64" "r = (b1 OR 0x80) # b2 # b3 # b4 # r'"
      "i = ucast b4 + push_bit 8 (ucast b3) + push_bit 16 (ucast b2) + push_bit 24 (ucast b1)"
  | (eight) b1 b2 b3 b4 b5 b6 b7 b8 where "unat (b1 :: byte) < 64"
      "r = (b1 OR 0xc0) # b2 # b3 # b4 # b5 # b6 # b7 # b8 # r'"
      "i = ucast b8 + push_bit 8 (ucast b7) + push_bit 16 (ucast b6) + push_bit 24 (ucast b5)
          + push_bit 32 (ucast b4) + push_bit 40 (ucast b3) + push_bit 48 (ucast b2)
          + push_bit 56 (ucast b1)"
proof -
  from assms obtain f s where r: "r = f # s"
    by (cases r) (auto simp: varint_Read_def)
  define b1 where "b1 = f AND 0x3f"
  have b1: "unat b1 < 64" unfolding b1_def by (rule and_3f_less)
  show thesis
  proof (cases rule: byte_tag_cases [of f, folded b1_def])
    case 1
    with assms r b1 show ?thesis by (intro one [of b1]) (auto simp: varint_Read_tagged)
  next
    case 2
    with assms r varint_Read_needs(1) [OF b1, of s "(i, r')"] obtain b2 t where "s = b2 # t" by auto
    with assms r 2 b1 show ?thesis by (intro two [of b1 b2]) (auto simp: varint_Read_tagged)
  next
    case 3
    with assms r varint_Read_needs(2) [OF b1, of s "(i, r')"]
    obtain b2 b3 b4 t where "s = b2 # b3 # b4 # t" by auto
    with assms r 3 b1 show ?thesis by (intro four [of b1 b2 b3 b4]) (auto simp: varint_Read_tagged)
  next
    case 4
    with assms r varint_Read_needs(3) [OF b1, of s "(i, r')"]
    obtain b2 b3 b4 b5 b6 b7 b8 t where "s = b2 # b3 # b4 # b5 # b6 # b7 # b8 # t" by auto
    with assms r 4 b1 show ?thesis
      by (intro eight [of b1 b2 b3 b4 b5 b6 b7 b8]) (auto simp: varint_Read_tagged)
  qed
qed


lemma unat_add_le: "unat (a + b :: u64) \<le> unat a + unat b"
  by (simp add: unat_word_ariths)

lemma varint_Read_bounds:
  assumes "varint_Read r = Inr (i, r')"
  shows "\<exists>bs. r = bs @ r' \<and> length bs \<in> {1, 2, 4, 8} \<and> unat i < 2 ^ (8 * length bs - 2)"
  using assms
proof (cases rule: varint_Read_cases)
  case (one b1)
  then show ?thesis by (intro exI [of _ "[b1]"]) (simp add: unat_ucast_byte)
next
  case (two b1 b2)
  then have "unat i \<le> unat b2 + unat b1 * 2 ^ 8"
    using unat_add_le [of "ucast b2" "push_bit 8 (ucast b1)"]
    by (simp add: unat_ucast_byte unat_push_ucast)
  with two unat_byte_less [of b2] show ?thesis by (intro exI [of _ "[b1 OR 0x40, b2]"]) simp
next
  case (four b1 b2 b3 b4)
  then have "unat i \<le> unat b4 + unat b3 * 2 ^ 8 + unat b2 * 2 ^ 16 + unat b1 * 2 ^ 24"
    by (auto simp: unat_ucast_byte unat_push_ucast intro!: order_trans [OF unat_add_le] add_mono)
  with four unat_byte_less [of b2] unat_byte_less [of b3] unat_byte_less [of b4] show ?thesis
    by (intro exI [of _ "[b1 OR 0x80, b2, b3, b4]"]) simp
next
  case (eight b1 b2 b3 b4 b5 b6 b7 b8)
  then have "unat i \<le> unat b8 + unat b7 * 2 ^ 8 + unat b6 * 2 ^ 16 + unat b5 * 2 ^ 24
      + unat b4 * 2 ^ 32 + unat b3 * 2 ^ 40 + unat b2 * 2 ^ 48 + unat b1 * 2 ^ 56"
    by (auto simp: unat_ucast_byte unat_push_ucast intro!: order_trans [OF unat_add_le] add_mono)
  with eight unat_byte_less [of b2] unat_byte_less [of b3] unat_byte_less [of b4]
    unat_byte_less [of b5] unat_byte_less [of b6] unat_byte_less [of b7] unat_byte_less [of b8]
  show ?thesis
    by (intro exI [of _ "[b1 OR 0xc0, b2, b3, b4, b5, b6, b7, b8]"]) simp
qed

lemma varint_Read_le:
  assumes "varint_Read r = Inr (i, r')"
  shows "i \<le> maxVarInt8"
proof -
  from varint_Read_bounds [OF assms] obtain n where "n \<in> {1, 2, 4, 8 :: nat}" "unat i < 2 ^ (8 * n - 2)"
    by blast
  moreover from this have "(2 :: nat) ^ (8 * n - 2) \<le> 2 ^ 62" by (intro power_increasing) auto
  ultimately show ?thesis by (simp only: le_max_unat)
qed

lemma varint_Read_length:
  assumes "varint_Read r = Inr (i, r')"
  shows "length r' < length r"
proof -
  from varint_Read_bounds [OF assms] obtain bs where "r = bs @ r'" "length bs \<in> {1, 2, 4, 8}"
    by blast
  then show ?thesis by auto
qed

lemma uint_less_of_le_max:
  assumes "i \<le> maxVarInt8"
  shows "uint i < 2 ^ 62"
proof -
  from assms have "int (unat i) < int (2 ^ 62)" by (simp only: le_max_unat of_nat_less_iff)
  then show ?thesis by simp
qed

lemma le_max_uint64_of: "0 \<le> x \<Longrightarrow> x < 2 ^ 62 \<Longrightarrow> uint64_of x \<le> maxVarInt8"
  by (simp add: word_le_def uint_uint64_of maxVarInt_defs)

lemma varint_Read_int64:
  assumes "varint_Read r = Inr (i, r')"
  shows "0 \<le> int64_of i" and "int64_of i < 2 ^ 62" and "uint64_of (int64_of i) = i"
proof -
  have u: "uint i < 2 ^ 62" using assms by (intro uint_less_of_le_max varint_Read_le)
  then have eq: "int64_of i = uint i" by (intro int64_of_uint) simp
  show "0 \<le> int64_of i" and "int64_of i < 2 ^ 62" using u by (simp_all add: eq)
  show "uint64_of (int64_of i) = i" by (simp add: eq uint64_of_def)
qed

lemma varint_Append_Inr: "varint_Append b i = Inr c \<longleftrightarrow> i \<le> maxVarInt8 \<and> c = b @ vbytes i"
proof (cases "i \<le> maxVarInt8")
  case False
  then have "\<not> i \<le> maxVarInt1" "\<not> i \<le> maxVarInt2" "\<not> i \<le> maxVarInt4"
    by (auto simp: le_max_unat)
  with False show ?thesis by (simp add: varint_Append_def)
qed (auto simp: varint_Append_vbytes)


lemma vlen_cases: "vlen i \<in> {1, 2, 4, 8}"
  by (simp add: vlen_def)

lemma varint_AppendWithLen_same:
  "i \<le> maxVarInt8 \<Longrightarrow> varint_AppendWithLen b i (vlen i) = Inr (b @ vbytes i)"
  by (auto simp: varint_AppendWithLen_def varint_Len_vlen varint_Append_vbytes vlen_def)

lemma varint_Read_zero_tag:
  "varint_Read (0x40 # b2 # r) = Inr (ucast b2, r)"
  "varint_Read (0x80 # b2 # b3 # b4 # r) =
    Inr (ucast b4 + push_bit 8 (ucast b3) + push_bit 16 (ucast b2), r)"
  "varint_Read (0xc0 # b2 # b3 # b4 # b5 # b6 # b7 # b8 # r) =
    Inr (ucast b8 + push_bit 8 (ucast b7) + push_bit 16 (ucast b6) + push_bit 24 (ucast b5)
          + push_bit 32 (ucast b4) + push_bit 40 (ucast b3) + push_bit 48 (ucast b2), r)"
  using varint_Read_tagged(2-4) [of 0] by simp_all

lemma varint_pad1:
  assumes "i \<le> maxVarInt1" "len \<in> {2, 4, 8}"
  shows "\<exists>bs. varint_AppendWithLen b i len = Inr (b @ bs) \<and> int (length bs) = len
    \<and> varint_Read (bs @ r) = Inr (i, r)"
proof -
  have l: "varint_Len i = Inr 1" using assms by (simp add: varint_Len_def)
  have v: "ucast (uint8_shr i 0) = i" using assms by (intro bytes_word1) (simp add: le_max_unat)
  from assms(2) consider "len = 2" | "len = 4" | "len = 8" by auto
  then show ?thesis
    by cases (simp_all add: varint_AppendWithLen_def l Let_def upt_rec varint_Read_zero_tag v)
qed

lemma varint_pad2:
  assumes "\<not> i \<le> maxVarInt1" "i \<le> maxVarInt2" "len \<in> {4, 8}"
  shows "\<exists>bs. varint_AppendWithLen b i len = Inr (b @ bs) \<and> int (length bs) = len
    \<and> varint_Read (bs @ r) = Inr (i, r)"
proof -
  have l: "varint_Len i = Inr 2" using assms by (simp add: varint_Len_def)
  have v: "ucast (uint8_shr i 0) + push_bit 8 (ucast (uint8_shr i 8)) = i"
    using assms by (intro bytes_word2) (simp add: le_max_unat)
  from assms(3) consider "len = 4" | "len = 8" by auto
  then show ?thesis
    by cases (simp_all add: varint_AppendWithLen_def l Let_def upt_rec varint_Read_zero_tag v)
qed

lemma varint_pad4:
  assumes "\<not> i \<le> maxVarInt2" "i \<le> maxVarInt4"
  shows "\<exists>bs. varint_AppendWithLen b i 8 = Inr (b @ bs) \<and> int (length bs) = 8
    \<and> varint_Read (bs @ r) = Inr (i, r)"
proof -
  have l: "varint_Len i = Inr 4" using assms by (auto simp: varint_Len_def le_max_unat)
  have v: "ucast (uint8_shr i 0) + push_bit 8 (ucast (uint8_shr i 8))
      + push_bit 16 (ucast (uint8_shr i 16)) + push_bit 24 (ucast (uint8_shr i 24)) = i"
    using assms by (intro bytes_word4) (simp add: le_max_unat)
  show ?thesis
    by (simp add: varint_AppendWithLen_def l Let_def upt_rec varint_Read_zero_tag v)
qed

subsection \<open>Properties\<close>

text \<open>
  Every value below \<open>2^62\<close> survives a round trip: \<open>Append\<close> adds exactly
  \<open>Len\<close> bytes, and \<open>Read\<close> gives the value back and leaves what follows untouched.
\<close>

theorem varint_roundtrip:
  assumes "i \<le> maxVarInt8"
  shows "\<exists>bs. varint_Append b i = Inr (b @ bs) \<and> varint_Len i = Inr (int (length bs))
    \<and> varint_Read (bs @ r) = Inr (i, r)"
  using assms
  by (intro exI [of _ "vbytes i"])
     (simp add: varint_Append_vbytes varint_Len_vlen length_vbytes varint_Read_vbytes)

theorem varint_roundtrip_witness:
  "(15293 :: u64) \<le> maxVarInt8 \<and> (\<exists>bs. varint_Append [7] 15293 = Inr ([7] @ bs)
    \<and> varint_Len 15293 = Inr (int (length bs)) \<and> varint_Read (bs @ [1, 2]) = Inr (15293, [1, 2]))"
proof -
  have "(15293 :: u64) \<le> maxVarInt8" by (simp add: maxVarInt_defs)
  then show ?thesis using varint_roundtrip [of 15293 "[7]" "[1, 2]"] by blast
qed

text \<open>
  \<open>AppendWithLen\<close> pads to the requested length: for every legal length that is large
  enough it adds exactly that many bytes and \<open>Read\<close> still recovers the value.
\<close>

theorem varint_AppendWithLen_roundtrip:
  assumes "i \<le> maxVarInt8" "len \<in> {1, 2, 4, 8}" "vlen i \<le> len"
  shows "\<exists>bs. varint_AppendWithLen b i len = Inr (b @ bs) \<and> int (length bs) = len
    \<and> varint_Read (bs @ r) = Inr (i, r)"
proof (cases "vlen i = len")
  case True
  with assms(1) show ?thesis
    by (auto simp: varint_AppendWithLen_same varint_Read_vbytes length_vbytes)
next
  case False
  with assms consider "i \<le> maxVarInt1" "len \<in> {2, 4, 8}"
    | "\<not> i \<le> maxVarInt1" "i \<le> maxVarInt2" "len \<in> {4, 8}"
    | "\<not> i \<le> maxVarInt2" "i \<le> maxVarInt4" "len = 8"
    by (auto simp: vlen_def split: if_splits)
  then show ?thesis
  proof cases
    case 1 then show ?thesis by (rule varint_pad1)
  next
    case 2 then show ?thesis by (rule varint_pad2)
  next
    case 3 then show ?thesis using varint_pad4 by blast
  qed
qed

theorem varint_AppendWithLen_roundtrip_witness:
  "(37 :: u64) \<le> maxVarInt8 \<and> (4 :: int) \<in> {1, 2, 4, 8} \<and> vlen 37 \<le> 4 \<and>
   (\<exists>bs. varint_AppendWithLen [9] 37 4 = Inr ([9] @ bs) \<and> int (length bs) = 4
    \<and> varint_Read (bs @ []) = Inr (37, []))"
proof -
  have h: "(37 :: u64) \<le> maxVarInt8" "(4 :: int) \<in> {1, 2, 4, 8}" "vlen 37 \<le> 4"
    by (simp_all add: maxVarInt_defs vlen_def)
  then show ?thesis using varint_AppendWithLen_roundtrip [OF h, of "[9]" "[]"] by blast
qed

text \<open>
  Whatever \<open>Read\<close> accepts came from an encoding of 1, 2, 4 or 8 bytes at the front of
  the input, and the value fits into the 62 bits that such an encoding can carry.
\<close>

theorem varint_Read_sound:
  assumes "varint_Read r = Inr (i, r')"
  shows "\<exists>bs. r = bs @ r' \<and> length bs \<in> {1, 2, 4, 8} \<and> unat i < 2 ^ (8 * length bs - 2)
    \<and> i \<le> maxVarInt8"
  using varint_Read_bounds [OF assms] varint_Read_le [OF assms] by blast

theorem varint_Read_sound_witness:
  "varint_Read [0x7b, 0xbd, 5] = Inr (15293, [5]) \<and>
   (\<exists>bs. [0x7b, 0xbd, 5 :: byte] = bs @ [5] \<and> length bs \<in> {1, 2, 4, 8}
     \<and> unat (15293 :: u64) < 2 ^ (8 * length bs - 2) \<and> 15293 \<le> maxVarInt8)"
proof -
  have h: "varint_Read [0x7b, 0xbd, 5] = Inr (15293, [5])" by code_simp
  then show ?thesis using varint_Read_sound [OF h] by blast
qed

end
