(* ===== verification/Protocol.thy ===== *)
theory Protocol
  imports Prelude
begin

text \<open>
  The basic types of \<open>internal/protocol\<close>: perspectives, encryption levels, ECN codepoints,
  stream identifiers, truncated packet numbers and the constants the other components use.
\<close>

subsection \<open>Perspectives, encryption levels, ECN\<close>

datatype Perspective = PerspectiveServer | PerspectiveClient

definition Opposite :: "Perspective \<Rightarrow> Perspective" where
  "Opposite p = (case p of PerspectiveServer \<Rightarrow> PerspectiveClient | PerspectiveClient \<Rightarrow> PerspectiveServer)"

text \<open>\<open>EncryptionUnset\<close> is the zero value of the Go type, which no named constant has.\<close>

datatype EncryptionLevel =
  EncryptionUnset | EncryptionInitial | EncryptionHandshake | Encryption0RTT | Encryption1RTT

datatype ECN = ECNUnsupported | ECNNon | ECT1 | ECT0 | ECNCE

definition ParseECNHeaderBits :: "byte \<Rightarrow> ECN result" where
  "ParseECNHeaderBits bits =
     (if bits = 0 then Inr ECNNon
      else if bits = 0b00000010 then Inr ECT0
      else if bits = 0b00000001 then Inr ECT1
      else if bits = 0b00000011 then Inr ECNCE
      else Inl (Panic ''invalid ECN bits''))"

fun ToHeaderBits :: "ECN \<Rightarrow> byte result" where
  "ToHeaderBits ECNNon = Inr 0"
| "ToHeaderBits ECT0 = Inr 0b00000010"
| "ToHeaderBits ECT1 = Inr 0b00000001"
| "ToHeaderBits ECNCE = Inr 0b00000011"
| "ToHeaderBits ECNUnsupported = Inl (Panic ''ECN unsupported'')"

subsection \<open>Constants\<close>

definition MaxByteCount :: ByteCount where "MaxByteCount = 2 ^ 62 - 1"
definition MaxPacketBufferSize :: ByteCount where "MaxPacketBufferSize = 1452"
definition DefaultAckDelayExponent :: nat where "DefaultAckDelayExponent = 3"
definition MaxConnIDLen :: nat where "MaxConnIDLen = 20"
definition InitialPacketSizeIPv4 :: ByteCount where "InitialPacketSizeIPv4 = 1252"
definition MaxCongestionWindowPackets :: int where "MaxCongestionWindowPackets = 10000"
definition SkipPacketInitialPeriod :: PacketNumber where "SkipPacketInitialPeriod = 256"
definition SkipPacketMaxPeriod :: PacketNumber where "SkipPacketMaxPeriod = 128 * 1024"
definition MaxOutstandingSentPackets :: int where
  "MaxOutstandingSentPackets = 2 * MaxCongestionWindowPackets"
definition MaxTrackedSentPackets :: int where
  "MaxTrackedSentPackets = tdiv (MaxOutstandingSentPackets * 5) 4"
definition MaxStreamFrameSorterGaps :: int where "MaxStreamFrameSorterGaps = 1000"
definition MinStreamFrameBufferSize :: nat where "MinStreamFrameBufferSize = 128"
definition MaxCryptoStreamOffset :: ByteCount where "MaxCryptoStreamOffset = 16 * 2 ^ 10"
definition MaxAckFrameSize :: ByteCount where "MaxAckFrameSize = 1000"
definition MaxNumAckRanges :: nat where "MaxNumAckRanges = 32"
definition MinPacingDelay :: duration where "MinPacingDelay = Millisecond"
definition AckDelayExponent :: nat where "AckDelayExponent = 3"
definition TimerGranularity :: duration where "TimerGranularity = Millisecond"
definition MaxAckDelay :: duration where "MaxAckDelay = 25 * Millisecond"

subsection \<open>Packet numbers\<close>

definition InvalidPacketNumber :: PacketNumber where "InvalidPacketNumber = -1"

type_synonym PacketNumberLen = nat

definition delta :: "PacketNumber \<Rightarrow> PacketNumber \<Rightarrow> PacketNumber" where
  "delta a b = (if a < b then b - a else a - b)"

definition closestTo :: "PacketNumber \<Rightarrow> PacketNumber \<Rightarrow> PacketNumber \<Rightarrow> PacketNumber" where
  "closestTo target a b = (if delta target a < delta target b then a else b)"

definition DecodePacketNumber ::
  "PacketNumberLen \<Rightarrow> PacketNumber \<Rightarrow> PacketNumber \<Rightarrow> PacketNumber" where
  "DecodePacketNumber packetNumberLength lastPacketNumber wirePacketNumber =
     (let epochDelta = (if packetNumberLength = 1 then push_bit 8 1
                        else if packetNumberLength = 2 then push_bit 16 1
                        else if packetNumberLength = 3 then push_bit 24 1
                        else if packetNumberLength = 4 then push_bit 32 1
                        else (0 :: int));
          epoch = lastPacketNumber AND NOT (epochDelta - 1);
          prevEpochBegin = (if epoch > epochDelta then epoch - epochDelta else 0);
          nextEpochBegin = epoch + epochDelta
      in closestTo (lastPacketNumber + 1) (epoch + wirePacketNumber)
           (closestTo (lastPacketNumber + 1)
              (prevEpochBegin + wirePacketNumber) (nextEpochBegin + wirePacketNumber)))"

definition GetPacketNumberLengthForHeader :: "PacketNumber \<Rightarrow> PacketNumber \<Rightarrow> PacketNumberLen" where
  "GetPacketNumberLengthForHeader packetNumber leastUnacked =
     (let diff = uwrap64 (packetNumber - leastUnacked)
      in if diff < push_bit (16 - 1) 1 then 2
         else if diff < push_bit (24 - 1) 1 then 3
         else 4)"

subsection \<open>Streams\<close>

datatype StreamType = StreamTypeUni | StreamTypeBidi

definition InvalidStreamID :: StreamID where "InvalidStreamID = -1"
definition MaxStreamCount :: StreamNum where "MaxStreamCount = 2 ^ 60"

definition trem :: "int \<Rightarrow> int \<Rightarrow> int" where
  "trem a b = a - b * tdiv a b"

definition StreamNum_StreamID :: "StreamNum \<Rightarrow> StreamType \<Rightarrow> Perspective \<Rightarrow> StreamID" where
  "StreamNum_StreamID s stype pers =
     (if s = 0 then InvalidStreamID
      else
        let first = (case stype of
              StreamTypeBidi \<Rightarrow> (case pers of PerspectiveClient \<Rightarrow> 0 | PerspectiveServer \<Rightarrow> 1)
            | StreamTypeUni \<Rightarrow> (case pers of PerspectiveClient \<Rightarrow> 2 | PerspectiveServer \<Rightarrow> 3))
        in first + 4 * (s - 1))"

definition InitiatedBy :: "StreamID \<Rightarrow> Perspective" where
  "InitiatedBy s = (if trem s 2 = 0 then PerspectiveClient else PerspectiveServer)"

definition StreamID_Type :: "StreamID \<Rightarrow> StreamType" where
  "StreamID_Type s = (if trem s 4 \<ge> 2 then StreamTypeUni else StreamTypeBidi)"

definition StreamID_StreamNum :: "StreamID \<Rightarrow> StreamNum" where
  "StreamID_StreamNum s = tdiv s 4 + 1"

subsection \<open>Lemmas\<close>

lemma trem_nonneg [simp]: "0 \<le> a \<Longrightarrow> 0 < b \<Longrightarrow> trem a b = a mod b"
  by (simp add: trem_def minus_mult_div_eq_mod)

lemma epoch_mask: "(x :: int) AND NOT (2 ^ n - 1) = x - x mod 2 ^ n"
proof -
  have "x AND NOT (mask n) = push_bit n (drop_bit n x)"
    by (rule bit_eqI) (auto simp: bit_simps)
  also have "\<dots> = x - x mod 2 ^ n"
    by (simp add: push_bit_eq_mult drop_bit_eq_div minus_mod_eq_div_mult)
  finally show ?thesis by (simp add: mask_eq_exp_minus_1)
qed

subsection \<open>Truncated packet numbers\<close>

lemma DecodePacketNumber_eq:
  assumes "len \<in> {1, 2, 3, 4}"
  shows "DecodePacketNumber len l w =
    (let D = 2 ^ (8 * len); e = l - l mod D
     in closestTo (l + 1) (e + w) (closestTo (l + 1) ((if e > D then e - D else 0) + w) (e + D + w)))"
  using assms epoch_mask [of l "8 * len"]
  by (auto simp: DecodePacketNumber_def Let_def push_bit_eq_mult)

lemma epoch_neighbour:
  fixes D l pn :: int
  assumes "0 < H" "D = 2 * H" "\<bar>pn - (l + 1)\<bar> < H"
  shows "pn - pn mod D \<in> {l - l mod D - D, l - l mod D, l - l mod D + D}"
proof -
  have D: "0 < D" using assms by simp
  obtain q b where pn: "pn = q * D + b" "0 \<le> b" "b < D" "pn - pn mod D = q * D"
    using D that [of "pn div D" "pn mod D"] by (simp add: minus_mod_eq_div_mult)
  obtain p c where l: "l = p * D + c" "0 \<le> c" "c < D" "l - l mod D = p * D"
    using D that [of "l div D" "l mod D"] by (simp add: minus_mod_eq_div_mult)
  have "q * D < p * D + 2 * D" and "p * D - 2 * D < q * D"
    using pn(1-3) l(1-3) assms by linarith+
  then have "q * D < (p + 2) * D" and "(p - 2) * D < q * D" by (simp_all add: algebra_simps)
  then have "q < p + 2" "p - 2 < q" using D by (simp_all add: mult_less_cancel_right)
  then have "q = p - 1 \<or> q = p \<or> q = p + 1" by arith
  then show ?thesis unfolding pn(4) l(4) by (auto simp: algebra_simps)
qed

lemma closestTo_unique:
  assumes "\<bar>x - t\<bar> < H" "x = a \<or> x = b \<or> x = c"
    and "a = x \<or> \<bar>a - t\<bar> > \<bar>x - t\<bar>" "b = x \<or> \<bar>b - t\<bar> > \<bar>x - t\<bar>" "c = x \<or> \<bar>c - t\<bar> > \<bar>x - t\<bar>"
  shows "closestTo t a (closestTo t b c) = x"
  using assms by (auto simp: closestTo_def delta_def split: if_splits)

lemma DecodePacketNumber_near:
  assumes "len \<in> {1, 2, 3, 4}" "0 \<le> l" "0 \<le> pn" "\<bar>pn - (l + 1)\<bar> < 2 ^ (8 * len - 1)"
  shows "DecodePacketNumber len l (pn mod 2 ^ (8 * len)) = pn"
proof -
  define H :: int where "H = 2 ^ (8 * len - 1)"
  define D :: int where "D = 2 ^ (8 * len)"
  have H: "0 < H" by (simp add: H_def)
  have "Suc (8 * len - 1) = 8 * len" using assms(1) by auto
  then have D: "D = 2 * H" by (simp add: D_def H_def power_Suc [symmetric] del: power_Suc)
  define e where "e = l - l mod D"
  define w where "w = pn mod D"
  have near: "\<bar>pn - (l + 1)\<bar> < H" using assms(4) by (simp add: H_def)
  have "pn - w \<in> {e - D, e, e + D}"
    using epoch_neighbour [OF H D near] by (simp add: e_def w_def)
  then have pn: "pn = e - D + w \<or> pn = e + w \<or> pn = e + D + w" by auto
  have e: "e mod D = 0" "0 \<le> e" using assms(2) by (simp_all add: e_def zmod_le_nonneg_dividend)
  have w: "0 \<le> w" "w < D" using D H by (simp_all add: w_def)
  have lo: "e > D \<or> e = D \<or> e = 0"
  proof -
    from e(1) obtain k where k: "e = D * k" by auto
    then consider "k \<le> 0" | "k = 1" | "2 \<le> k" by linarith
    then show ?thesis
    proof cases
      case 1 with k e D H show ?thesis by (simp add: mult_le_0_iff zero_le_mult_iff)
    next
      case 2 with k show ?thesis by simp
    next
      case 3
      then have "D * 2 \<le> D * k" using D H by (intro mult_left_mono) auto
      with k D H show ?thesis by simp
    qed
  qed
  have "closestTo (l + 1) (e + w) (closestTo (l + 1) ((if e > D then e - D else 0) + w) (e + D + w)) = pn"
  proof (rule closestTo_unique [OF near])
    show "pn = e + w \<or> pn = (if e > D then e - D else 0) + w \<or> pn = e + D + w"
      using pn lo w assms(3) by auto
  qed (use pn lo w assms(3) near D in \<open>auto split: if_splits\<close>)
  then show ?thesis
    unfolding e_def w_def D_def by (simp only: DecodePacketNumber_eq [OF assms(1)] Let_def)
qed

subsection \<open>Properties\<close>

text \<open>
  C13. A receiver decodes the truncated packet number of every packet that is less than half a
  number window away from the one it expects next.
\<close>

theorem DecodePacketNumber_correct:
  assumes "len \<in> {1, 2, 3, 4}" "0 \<le> lastPN" "0 \<le> pn"
    and "\<bar>pn - (lastPN + 1)\<bar> < 2 ^ (8 * len - 1)"
  shows "DecodePacketNumber len lastPN (pn mod 2 ^ (8 * len)) = pn"
  using assms by (rule DecodePacketNumber_near)

theorem DecodePacketNumber_correct_witness:
  "(2 :: nat) \<in> {1, 2, 3, 4} \<and> (0 :: int) \<le> 0xa82f30ea \<and> (0 :: int) \<le> 0xa82f9b32 \<and>
   \<bar>0xa82f9b32 - (0xa82f30ea + 1 :: int)\<bar> < 2 ^ (8 * 2 - 1) \<and>
   DecodePacketNumber 2 0xa82f30ea (0xa82f9b32 mod 2 ^ (8 * 2)) = 0xa82f9b32"
  using DecodePacketNumber_correct [of 2 "0xa82f30ea" "0xa82f9b32"] by simp

text \<open>
  The length chosen by the sender is enough: if the receiver has seen a packet at least as
  new as the newest one acknowledged to the sender, and no packet newer than the one sent, it
  decodes the number exactly, as long as fewer than \<open>2^31\<close> packets are unacknowledged.
\<close>

theorem GetPacketNumberLengthForHeader_decodes:
  assumes "0 \<le> acked" "acked \<le> lastPN" "lastPN < pn" "pn - acked < 2 ^ 31"
  shows "DecodePacketNumber (GetPacketNumberLengthForHeader pn acked) lastPN
    (pn mod 2 ^ (8 * GetPacketNumberLengthForHeader pn acked)) = pn"
proof (rule DecodePacketNumber_near)
  have diff: "uwrap64 (pn - acked) = pn - acked" using assms by simp
  show "GetPacketNumberLengthForHeader pn acked \<in> {1, 2, 3, 4}"
    by (simp add: GetPacketNumberLengthForHeader_def Let_def)
  show "\<bar>pn - (lastPN + 1)\<bar> < 2 ^ (8 * GetPacketNumberLengthForHeader pn acked - 1)"
    using assms by (simp add: GetPacketNumberLengthForHeader_def Let_def diff)
qed (use assms in auto)

theorem GetPacketNumberLengthForHeader_decodes_witness:
  "(0 :: int) \<le> 70000 \<and> (70000 :: int) \<le> 70010 \<and> (70010 :: int) < 110000 \<and>
   (110000 - 70000 :: int) < 2 ^ 31 \<and>
   DecodePacketNumber (GetPacketNumberLengthForHeader 110000 70000) 70010
    (110000 mod 2 ^ (8 * GetPacketNumberLengthForHeader 110000 70000)) = 110000"
  using GetPacketNumberLengthForHeader_decodes [of 70000 70010 110000] by simp

text \<open>
  Stream numbers and stream IDs determine each other: the ID of the \<open>n\<close>-th stream of a
  kind has that kind, that initiator and that number.
\<close>

theorem StreamID_roundtrip:
  assumes "1 \<le> n"
  shows "StreamID_StreamNum (StreamNum_StreamID n stype pers) = n
    \<and> StreamID_Type (StreamNum_StreamID n stype pers) = stype
    \<and> InitiatedBy (StreamNum_StreamID n stype pers) = pers"
  using assms
  by (cases stype; cases pers;
      auto simp: StreamID_StreamNum_def StreamID_Type_def InitiatedBy_def StreamNum_StreamID_def; presburger)

theorem StreamID_roundtrip_witness:
  "(1 :: int) \<le> 3 \<and> StreamID_StreamNum (StreamNum_StreamID 3 StreamTypeBidi PerspectiveServer) = 3
    \<and> StreamID_Type (StreamNum_StreamID 3 StreamTypeBidi PerspectiveServer) = StreamTypeBidi
    \<and> InitiatedBy (StreamNum_StreamID 3 StreamTypeBidi PerspectiveServer) = PerspectiveServer"
  using StreamID_roundtrip [of 3 StreamTypeBidi PerspectiveServer] by simp

end
