(* ===== verification/Floats.thy ===== *)
theory Floats
  imports Prelude
begin

text \<open>
  The floating-point arithmetic that the source uses on non-negative quantities: conversion of an
  integer, product, sum, quotient, truncation and ceiling, in the precision of \<open>float64\<close>
  (53 significant bits) or \<open>float32\<close> (24). Every operation rounds its exact result to the
  nearest representable number, ties to even, as IEEE 754 and the Go specification prescribe; no
  operation is fused. A value \<open>(m, s)\<close> stands for \<open>m / 2^s\<close>. The magnitudes that
  occur stay far from the exponent range, so overflow and subnormal numbers do not arise.
\<close>

type_synonym flt = "nat \<times> nat"

subsection \<open>Definitions\<close>

fun bitlen :: "nat \<Rightarrow> nat" where
  "bitlen n = (if n = 0 then 0 else Suc (bitlen (n div 2)))"

declare bitlen.simps [simp del]

definition round_sig :: "nat \<Rightarrow> nat \<Rightarrow> nat" where
  "round_sig p n =
     (if bitlen n \<le> p then n
      else let k = bitlen n - p; q = n div 2 ^ k; r = n mod 2 ^ k; h = 2 ^ (k - 1)
           in if r > h \<or> (r = h \<and> odd q) then (q + 1) * 2 ^ k else q * 2 ^ k)"

definition flt_of :: "nat \<Rightarrow> int \<Rightarrow> flt" where
  "flt_of p i = (round_sig p (nat i), 0)"

definition flt_mul :: "nat \<Rightarrow> flt \<Rightarrow> flt \<Rightarrow> flt" where
  "flt_mul p x y = (round_sig p (fst x * fst y), snd x + snd y)"

definition flt_add :: "nat \<Rightarrow> flt \<Rightarrow> flt \<Rightarrow> flt" where
  "flt_add p x y = (round_sig p (fst x * 2 ^ snd y + fst y * 2 ^ snd x), snd x + snd y)"

text \<open>The difference of two numbers, the first not smaller than the second.\<close>

definition flt_sub :: "nat \<Rightarrow> flt \<Rightarrow> flt \<Rightarrow> flt" where
  "flt_sub p x y = (round_sig p (fst x * 2 ^ snd y - fst y * 2 ^ snd x), snd x + snd y)"

text \<open>
  The quotient is computed with at least \<open>p + 2\<close> bits and a sticky bit for the remainder,
  so the final rounding is the rounding of the exact quotient. The divisor is not zero.
\<close>

definition flt_div :: "nat \<Rightarrow> flt \<Rightarrow> flt \<Rightarrow> flt" where
  "flt_div p x y =
     (let num = fst x * 2 ^ snd y; den = fst y * 2 ^ snd x; k = p + 2 + bitlen den;
          q = num * 2 ^ k div den; sticky = (if num * 2 ^ k mod den = 0 then 0 else 1)
      in (round_sig p (2 * q + sticky), k + 1))"

definition flt_trunc :: "flt \<Rightarrow> int" where
  "flt_trunc x = int (fst x div 2 ^ snd x)"

definition flt_ceil :: "flt \<Rightarrow> int" where
  "flt_ceil x = int ((fst x + (2 ^ snd x - 1)) div 2 ^ snd x)"

abbreviation float64 :: "int \<Rightarrow> flt" where "float64 \<equiv> flt_of 53"
abbreviation float32 :: "int \<Rightarrow> flt" where "float32 \<equiv> flt_of 24"

subsection \<open>Lemmas\<close>

lemma bitlen_0 [simp]: "bitlen 0 = 0"
  by (simp add: bitlen.simps)

lemma bitlen_pos: "0 < n \<Longrightarrow> bitlen n = Suc (bitlen (n div 2))"
  by (simp add: bitlen.simps [of n])

lemma bitlen_bounds: "0 < n \<Longrightarrow> 2 ^ (bitlen n - 1) \<le> n \<and> n < 2 ^ bitlen n"
proof (induction n rule: bitlen.induct)
  case (1 n)
  show ?case
  proof (cases "n = 1")
    case True
    then show ?thesis by (simp add: bitlen_pos)
  next
    case False
    define m where "m = n div 2"
    from False 1(2) have m: "0 < m" by (simp add: m_def)
    with 1 have half: "2 ^ (bitlen m - 1) \<le> m" "m < 2 ^ bitlen m" by (auto simp: m_def)
    from m have "0 < bitlen m" by (simp add: bitlen_pos)
    then have "(2::nat) ^ bitlen m = 2 * 2 ^ (bitlen m - 1)" by (simp flip: power_Suc)
    moreover have "2 * m \<le> n" "n < 2 * m + 2" unfolding m_def by arith+
    moreover have "bitlen n = Suc (bitlen m)" using 1(2) unfolding m_def by (rule bitlen_pos)
    ultimately show ?thesis using half by simp
  qed
qed

lemma bitlen_le_iff: "bitlen n \<le> p \<longleftrightarrow> n < 2 ^ p"
proof (cases "n = 0")
  case False
  then have b: "2 ^ (bitlen n - 1) \<le> n" "n < 2 ^ bitlen n" using bitlen_bounds [of n] by auto
  show ?thesis
  proof
    assume "bitlen n \<le> p"
    then have "(2::nat) ^ bitlen n \<le> 2 ^ p" by (intro power_increasing) auto
    with b(2) show "n < 2 ^ p" by (rule less_le_trans)
  next
    assume "n < 2 ^ p"
    with b(1) have "(2::nat) ^ (bitlen n - 1) < 2 ^ p" by (rule le_less_trans)
    then show "bitlen n \<le> p" by (simp add: power_strict_increasing_iff)
  qed
qed simp

lemma round_sig_exact: "n < 2 ^ p \<Longrightarrow> round_sig p n = n"
  by (simp add: round_sig_def bitlen_le_iff)

lemma round_sig_0 [simp]: "round_sig p 0 = 0"
  by (simp add: round_sig_def)

lemma bitlen_mono: "m \<le> n \<Longrightarrow> bitlen m \<le> bitlen n"
  using bitlen_bounds [of n] by (cases "n = 0") (auto simp: bitlen_le_iff intro: le_less_trans)

lemma round_sig_range:
  assumes "0 < p" "p < bitlen n"
  shows "2 ^ (bitlen n - 1) \<le> round_sig p n" and "round_sig p n \<le> 2 ^ bitlen n"
proof -
  define k where "k = bitlen n - p"
  define q where "q = n div 2 ^ k"
  from assms have "0 < n" by (cases "n = 0") auto
  then have b: "2 ^ (bitlen n - 1) \<le> n" "n < 2 ^ bitlen n" using bitlen_bounds by auto
  have e1: "(2::nat) ^ (p - 1) * 2 ^ k = 2 ^ (bitlen n - 1)"
    using assms by (simp add: k_def flip: power_add)
  have e2: "(2::nat) ^ p * 2 ^ k = 2 ^ bitlen n" using assms by (simp add: k_def flip: power_add)
  have "2 ^ (p - 1) \<le> q" using b(1) unfolding q_def e1 [symmetric] by (simp add: less_eq_div_iff_mult_less_eq)
  then have lo: "2 ^ (bitlen n - 1) \<le> q * 2 ^ k" unfolding e1 [symmetric] by (rule mult_right_mono) simp
  have "q < 2 ^ p" using b(2) unfolding q_def by (simp add: div_less_iff_less_mult e2)
  then have "q + 1 \<le> 2 ^ p" by simp
  then have hi: "(q + 1) * 2 ^ k \<le> 2 ^ bitlen n" unfolding e2 [symmetric] by (rule mult_right_mono) simp
  have "round_sig p n = q * 2 ^ k \<or> round_sig p n = (q + 1) * 2 ^ k"
    using assms by (simp add: round_sig_def Let_def q_def k_def)
  with lo hi show "2 ^ (bitlen n - 1) \<le> round_sig p n" and "round_sig p n \<le> 2 ^ bitlen n"
    by (auto simp: algebra_simps)
qed

lemma round_sig_mono:
  assumes "0 < p" "m \<le> n"
  shows "round_sig p m \<le> round_sig p n"
proof -
  consider "bitlen n \<le> p" | "bitlen m < bitlen n" "p < bitlen n" | "bitlen m = bitlen n" "p < bitlen n"
    using bitlen_mono [OF assms(2)] by linarith
  then show ?thesis
  proof cases
    case 1
    with bitlen_mono [OF assms(2)] have "bitlen m \<le> p" by simp
    with 1 assms show ?thesis by (simp add: round_sig_def)
  next
    case 2
    have "round_sig p m \<le> 2 ^ bitlen m"
    proof (cases "p < bitlen m")
      case True
      with assms show ?thesis by (intro round_sig_range)
    next
      case False
      then have "round_sig p m = m" by (simp add: round_sig_def)
      moreover have "m < 2 ^ bitlen m" by (simp flip: bitlen_le_iff)
      ultimately show ?thesis by simp
    qed
    also have "(2::nat) ^ bitlen m \<le> 2 ^ (bitlen n - 1)" using 2 by (intro power_increasing) auto
    also have "\<dots> \<le> round_sig p n" using assms 2 by (intro round_sig_range)
    finally show ?thesis .
  next
    case 3
    define k where "k = bitlen n - p"
    define h :: nat where "h = 2 ^ (k - 1)"
    define up where "up x = ((x mod 2 ^ k > h \<or> x mod 2 ^ k = h \<and> odd (x div 2 ^ k)))" for x
    have r: "round_sig p x = (if up x then (x div 2 ^ k + 1) * 2 ^ k else x div 2 ^ k * 2 ^ k)"
      if "bitlen x = bitlen n" for x
      using that 3 by (simp add: round_sig_def Let_def k_def h_def up_def)
    have q: "m div 2 ^ k \<le> n div 2 ^ k" using assms(2) by (rule div_le_mono)
    show ?thesis
    proof (cases "m div 2 ^ k = n div 2 ^ k")
      case True
      then have "m mod 2 ^ k \<le> n mod 2 ^ k"
        using assms(2) div_mult_mod_eq [of m "2 ^ k"] div_mult_mod_eq [of n "2 ^ k"] by simp
      with True have "up m \<Longrightarrow> up n" by (auto simp: up_def)
      with True show ?thesis using 3 by (auto simp: r)
    next
      case False
      with q have "m div 2 ^ k + 1 \<le> n div 2 ^ k" by simp
      then have "(m div 2 ^ k + 1) * 2 ^ k \<le> n div 2 ^ k * 2 ^ k" by (rule mult_right_mono) simp
      with 3 q show ?thesis by (auto simp: r intro: mult_right_mono)
    qed
  qed
qed

lemma bitlen_shift: "0 < n \<Longrightarrow> bitlen (n * 2 ^ j) = bitlen n + j"
proof (induction j)
  case (Suc j)
  then have "bitlen (n * 2 ^ Suc j) = Suc (bitlen (n * 2 ^ Suc j div 2))" by (intro bitlen_pos) simp
  also have "n * 2 ^ Suc j div 2 = n * 2 ^ j" by simp
  finally show ?case using Suc by simp
qed simp

lemma round_sig_shift:
  assumes "n < 2 ^ p"
  shows "round_sig p (n * 2 ^ j) = n * 2 ^ j"
proof (cases "0 < n \<and> p < bitlen (n * 2 ^ j)")
  case True
  define k where "k = bitlen (n * 2 ^ j) - p"
  have "bitlen n \<le> p" using assms by (simp add: bitlen_le_iff)
  with True have k: "k \<le> j" "0 < k" by (auto simp: k_def bitlen_shift)
  then have "n * 2 ^ j = n * 2 ^ (j - k) * 2 ^ k" by (simp flip: power_add)
  then have "2 ^ k dvd n * 2 ^ j" by (metis dvd_triv_right)
  then have "n * 2 ^ j mod 2 ^ k = 0" "n * 2 ^ j div 2 ^ k * 2 ^ k = n * 2 ^ j" by auto
  with True show ?thesis by (simp add: round_sig_def Let_def flip: k_def)
next
  case False
  then show ?thesis by (auto simp: round_sig_def)
qed

text \<open>A product with a factor that is below 1 (as \<open>b < 2^s\<close> over \<open>2^s\<close>) does not grow.\<close>

lemma flt_trunc_mul_le:
  assumes "0 \<le> x" "x < 2 ^ 53" "b \<le> 2 ^ s"
  shows "flt_trunc (flt_mul 53 (float64 x) (b, s)) \<le> x"
proof -
  have n: "nat x < 2 ^ 53" using assms by (simp add: nat_less_iff)
  have "round_sig 53 (nat x * b) \<le> round_sig 53 (nat x * 2 ^ s)"
    using assms(3) by (intro round_sig_mono) auto
  also have "\<dots> = nat x * 2 ^ s" using n by (rule round_sig_shift)
  finally have "round_sig 53 (nat x * b) div 2 ^ s \<le> nat x * 2 ^ s div 2 ^ s" by (rule div_le_mono)
  then have "round_sig 53 (nat x * b) div 2 ^ s \<le> nat x" by simp
  then have "int (round_sig 53 (nat x * b) div 2 ^ s) \<le> x" using assms(1) by linarith
  then show ?thesis
    using n by (simp add: flt_trunc_def flt_mul_def flt_of_def round_sig_exact)
qed

lemma flt_trunc_nonneg: "0 \<le> flt_trunc x"
  by (simp add: flt_trunc_def)

lemma round_sig_error: "2 ^ p * (n - round_sig p n) \<le> n"
proof (cases "bitlen n \<le> p")
  case False
  define k where "k = bitlen n - p"
  define h :: nat where "h = 2 ^ (k - 1)"
  from False have k: "0 < k" "bitlen n = k + p" by (auto simp: k_def)
  from False have "0 < n" by (cases "n = 0") auto
  then have "2 ^ (bitlen n - 1) \<le> n" using bitlen_bounds by blast
  moreover have "(2::nat) ^ (bitlen n - 1) = 2 ^ p * h" using k by (simp add: h_def flip: power_add)
  moreover have "n - round_sig p n \<le> h"
  proof -
    have "n = n div 2 ^ k * 2 ^ k + n mod 2 ^ k" by (rule div_mult_mod_eq [symmetric])
    moreover have "round_sig p n = n div 2 ^ k * 2 ^ k + 2 ^ k \<or> n mod 2 ^ k \<le> h \<and> round_sig p n = n div 2 ^ k * 2 ^ k"
      using False by (simp add: round_sig_def Let_def h_def algebra_simps flip: k_def)
    moreover have "n mod 2 ^ k < 2 ^ k" by simp
    ultimately show ?thesis by (elim disjE) (linarith, auto)
  qed
  ultimately show ?thesis by (metis le_trans mult_le_mono2)
qed (simp add: round_sig_def)

lemma bitlen_numeral [simp]:
  "bitlen (numeral k) = Suc (bitlen (numeral k div 2))" "bitlen (Suc 0) = 1"
  by (simp_all add: bitlen_pos)

lemma ceil_div_bounds:
  fixes r b :: nat
  assumes "0 < b"
  shows "r \<le> (r + (b - 1)) div b * b"
  using assms div_mult_mod_eq [of "r + (b - 1)" b] mod_less_divisor [OF assms, of "r + (b - 1)"] by linarith

lemma flt_ceil_div_ge:
  assumes "num < 2 ^ 53" "0 < den"
  shows "int num \<le> flt_ceil (flt_div 53 (num, 0) (den, 0)) * int den"
proof (rule ccontr)
  define k where "k = 55 + bitlen den"
  define E :: nat where "E = 2 ^ (k + 1)"
  define B :: nat where "B = 2 ^ k"
  define q where "q = num * B div den"
  define x where "x = 2 * q + (if num * B mod den = 0 then 0 else 1)"
  define c where "c = (round_sig 53 x + (E - 1)) div E"
  have "flt_ceil (flt_div 53 (num, 0) (den, 0)) = int c"
    by (simp add: flt_ceil_def flt_div_def Let_def c_def x_def q_def k_def B_def E_def)
  moreover assume "\<not> ?thesis"
  ultimately have "c * den + 1 \<le> num" by (simp flip: of_nat_mult)
  then have small: "(c * den + 1) * (2 * B) \<le> num * (2 * B)" by (rule mult_le_mono1)
  have r: "round_sig 53 x \<le> c * (2 * B)"
    using ceil_div_bounds [of E "round_sig 53 x"] by (simp add: c_def B_def E_def)
  have "num * B = q * den + num * B mod den" "num * B mod den < den"
    using assms by (simp_all add: q_def)
  then have x: "x * den \<le> num * (2 * B) + den" "num * (2 * B) \<le> x * den + 2 * den"
    by (auto simp: x_def algebra_simps)
  have den: "2 ^ 55 * den < B"
    using bitlen_bounds [OF assms(2)] by (simp add: B_def k_def power_add)
  have "2 ^ 53 * x \<le> x + 2 ^ 53 * (c * (2 * B))"
    using round_sig_error [of 53 x] r by (simp add: diff_mult_distrib2)
  then have "2 ^ 53 * x * den \<le> (x + 2 ^ 53 * (c * (2 * B))) * den" by (rule mult_le_mono1)
  then have "2 ^ 53 * (x * den) \<le> x * den + 2 ^ 53 * (c * den * (2 * B))" by (simp add: algebra_simps)
  moreover have "num * (2 * B) \<le> (2 ^ 53 - 1) * (2 * B)" using assms by (intro mult_le_mono1) simp
  moreover have "c * den * (2 * B) + 2 * B \<le> num * (2 * B)" using small by simp
  moreover have "False" if "2 ^ 53 * X \<le> X + 2 ^ 53 * Y" "N \<le> (2 ^ 53 - 1) * (2 * B)" "X \<le> N + den"
    "N \<le> X + 2 * den" "Y + 2 * B \<le> N" for X Y N :: nat
    using that den assms(2) by simp
  ultimately show False using x by blast
qed

end
