(* ===== verification/Ack_Frame.thy ===== *)
theory Ack_Frame
  imports Protocol Varint
begin

text \<open>
  ACK frames, from \<open>internal/wire/ack_frame.go\<close> and \<open>ack_range.go\<close>: parsing, serialising,
  the length computation, the limit on the number of encoded ranges, the validity check and the
  membership test by binary search. Indexing an empty range list panics in the source; the
  operations that index return that panic as an error.
\<close>

subsection \<open>State\<close>

record AckRange =
  Smallest :: PacketNumber
  Largest :: PacketNumber

record AckFrame =
  AckRanges :: "AckRange list"
  DelayTime :: duration
  fECT0 :: u64
  fECT1 :: u64
  fECNCE :: u64

definition AckRange_Len :: "AckRange \<Rightarrow> PacketNumber" where
  "AckRange_Len r = Largest r - Smallest r + 1"

definition emptyAckFrame :: AckFrame where
  "emptyAckFrame = \<lparr>AckRanges = [], DelayTime = 0, fECT0 = 0, fECT1 = 0, fECNCE = 0\<rparr>"

definition ackFrameType :: u64 where "ackFrameType = 0x2"
definition ackECNFrameType :: u64 where "ackECNFrameType = 0x3"

subsection \<open>Queries\<close>

definition HasMissingRanges :: "AckFrame \<Rightarrow> bool" where
  "HasMissingRanges f \<longleftrightarrow> length (AckRanges f) > 1"

text \<open>The second loop of \<open>validateAckRanges\<close> compares each range with the one before it.\<close>

fun consistentAckRanges :: "AckRange list \<Rightarrow> bool" where
  "consistentAckRanges (lastAckRange # ackRange # rs) =
     (\<not> Smallest lastAckRange \<le> Smallest ackRange
      \<and> \<not> Smallest lastAckRange \<le> Largest ackRange + 1
      \<and> consistentAckRanges (ackRange # rs))"
| "consistentAckRanges _ = True"

definition validateAckRanges :: "AckFrame \<Rightarrow> bool" where
  "validateAckRanges f \<longleftrightarrow>
     AckRanges f \<noteq> []
     \<and> list_all (\<lambda>ackRange. \<not> Smallest ackRange > Largest ackRange) (AckRanges f)
     \<and> consistentAckRanges (AckRanges f)"

definition LargestAcked :: "AckFrame \<Rightarrow> PacketNumber result" where
  "LargestAcked f = bindE (slice_get (AckRanges f) 0) (\<lambda>r. Inr (Largest r))"

definition LowestAcked :: "AckFrame \<Rightarrow> PacketNumber result" where
  "LowestAcked f =
     (if AckRanges f = [] then Inl (Panic ''index out of range'')
      else Inr (Smallest (last (AckRanges f))))"

definition AcksPacket :: "AckFrame \<Rightarrow> PacketNumber \<Rightarrow> bool result" where
  "AcksPacket f p =
     bindE (LowestAcked f) (\<lambda>lowest.
     if p < lowest then Inr False
     else bindE (LargestAcked f) (\<lambda>largest.
     if p > largest then Inr False
     else
       let i = sort_Search (length (AckRanges f)) (\<lambda>i. p \<ge> Smallest (AckRanges f ! i))
       in bindE (slice_get (AckRanges f) i) (\<lambda>r. Inr (p \<le> Largest r))))"

definition AckFrame_Reset :: "AckFrame \<Rightarrow> AckFrame" where
  "AckFrame_Reset f =
     f\<lparr>DelayTime := 0, fECT0 := 0, fECT1 := 0, fECNCE := 0, AckRanges := []\<rparr>"

subsection \<open>Parsing\<close>

fun parseAckRanges :: "nat \<Rightarrow> AckFrame \<Rightarrow> PacketNumber \<Rightarrow> byte list \<Rightarrow> (AckFrame \<times> byte list) result" where
  "parseAckRanges 0 frame smallest r = Inr (frame, r)"
| "parseAckRanges (Suc numBlocks) frame smallest r =
     bindE (varint_Read r) (\<lambda>(g, r).
     let gap = int64_of g in
     if smallest < gap + 2 then Inl (Err ''AckFrame: ACK frame contains invalid ACK ranges'')
     else
       let largest = smallest - gap - 2 in
       bindE (varint_Read r) (\<lambda>(ab, r).
       let ackBlock = int64_of ab in
       if ackBlock > largest then Inl (Err ''AckFrame: ACK frame contains invalid ACK ranges'')
       else
         let smallest = largest - ackBlock in
         parseAckRanges numBlocks
           (frame\<lparr>AckRanges := AckRanges frame @ [\<lparr>Smallest = smallest, Largest = largest\<rparr>]\<rparr>)
           smallest r))"

definition ackDelayTime :: "u64 \<Rightarrow> nat \<Rightarrow> duration" where
  "ackDelayTime delay ackDelayExponent =
     (let delayTime = wrap64 (int64_of (push_bit ackDelayExponent (delay * 1)) * Microsecond)
      in if delayTime < 0 then InfDuration else delayTime)"

definition parseAckFrame ::
  "AckFrame \<Rightarrow> byte list \<Rightarrow> u64 \<Rightarrow> nat \<Rightarrow> (AckFrame \<times> byte list) result" where
  "parseAckFrame frame r typ ackDelayExponent =
     (let ecn = (typ = ackECNFrameType) in
     bindE (varint_Read r) (\<lambda>(la, r).
     let largestAcked = int64_of la in
     bindE (varint_Read r) (\<lambda>(delay, r).
     let frame = frame\<lparr>DelayTime := ackDelayTime delay ackDelayExponent\<rparr> in
     bindE (varint_Read r) (\<lambda>(numBlocks, r).
     bindE (varint_Read r) (\<lambda>(ab, r).
     let ackBlock = int64_of ab in
     if ackBlock > largestAcked then Inl (Err ''invalid first ACK range'')
     else
       let smallest = largestAcked - ackBlock;
           frame = frame\<lparr>AckRanges := AckRanges frame @ [\<lparr>Smallest = smallest, Largest = largestAcked\<rparr>]\<rparr>
       in
       bindE (parseAckRanges (unat numBlocks) frame smallest r) (\<lambda>(frame, r).
       if \<not> validateAckRanges frame then Inl (Err ''AckFrame: ACK frame contains invalid ACK ranges'')
       else if ecn then
         bindE (varint_Read r) (\<lambda>(ect0, r).
         bindE (varint_Read r) (\<lambda>(ect1, r).
         bindE (varint_Read r) (\<lambda>(ecnce, r).
         Inr (frame\<lparr>fECT0 := ect0, fECT1 := ect1, fECNCE := ecnce\<rparr>, r))))
       else Inr (frame, r)))))))"

subsection \<open>Serialising\<close>

definition encodeAckDelay :: "duration \<Rightarrow> u64" where
  "encodeAckDelay delay = uint64_of (tdiv delay (1000 * push_bit AckDelayExponent 1))"

definition encodeAckRange :: "AckFrame \<Rightarrow> nat \<Rightarrow> (u64 \<times> u64) result" where
  "encodeAckRange f i =
     (if i = 0 then
        bindE (slice_get (AckRanges f) 0) (\<lambda>r. Inr (0, uint64_of (Largest r - Smallest r)))
      else
        bindE (slice_get (AckRanges f) (i - 1)) (\<lambda>p.
        bindE (slice_get (AckRanges f) i) (\<lambda>r.
        Inr (uint64_of (Smallest p - Largest r - 2), uint64_of (Largest r - Smallest r)))))"

function numEncodableLoop :: "AckFrame \<Rightarrow> nat \<Rightarrow> ByteCount \<Rightarrow> int result" where
  "numEncodableLoop f i length' =
     (if i < length (AckRanges f) then
        bindE (encodeAckRange f i) (\<lambda>(gap, len).
        bindE (varint_Len gap) (\<lambda>gapLen.
        bindE (varint_Len len) (\<lambda>lenLen.
        let rangeLen = gapLen + lenLen in
        if length' + rangeLen > MaxAckFrameSize then Inr (int i - 1)
        else numEncodableLoop f (i + 1) (length' + rangeLen))))
      else Inr (int (length (AckRanges f))))"
  by pat_completeness auto
termination
  by (relation "measure (\<lambda>(f, i, _). length (AckRanges f) - i)") auto

definition numEncodableAckRanges :: "AckFrame \<Rightarrow> int result" where
  "numEncodableAckRanges f =
     bindE (LargestAcked f) (\<lambda>la.
     bindE (varint_Len (uint64_of la)) (\<lambda>l1.
     bindE (varint_Len (encodeAckDelay (DelayTime f))) (\<lambda>l2.
     numEncodableLoop f 1 (1 + l1 + l2 + 2))))"

function appendRanges :: "AckFrame \<Rightarrow> nat \<Rightarrow> int \<Rightarrow> byte list \<Rightarrow> byte list result" where
  "appendRanges f i numRanges b =
     (if int i < numRanges then
        bindE (encodeAckRange f i) (\<lambda>(gap, len).
        bindE (varint_Append b gap) (\<lambda>b.
        bindE (varint_Append b len) (\<lambda>b.
        appendRanges f (i + 1) numRanges b)))
      else Inr b)"
  by pat_completeness auto
termination
  by (relation "measure (\<lambda>(f, i, numRanges, _). nat (numRanges - int i))") auto

definition hasECN :: "AckFrame \<Rightarrow> bool" where
  "hasECN f \<longleftrightarrow> fECT0 f > 0 \<or> fECT1 f > 0 \<or> fECNCE f > 0"

definition AckFrame_Append :: "byte list \<Rightarrow> AckFrame \<Rightarrow> byte list result" where
  "AckFrame_Append b f =
     (let b = b @ [if hasECN f then ucast ackECNFrameType else ucast ackFrameType] in
     bindE (LargestAcked f) (\<lambda>la.
     bindE (varint_Append b (uint64_of la)) (\<lambda>b.
     bindE (varint_Append b (encodeAckDelay (DelayTime f))) (\<lambda>b.
     bindE (numEncodableAckRanges f) (\<lambda>numRanges.
     bindE (varint_Append b (uint64_of (numRanges - 1))) (\<lambda>b.
     bindE (encodeAckRange f 0) (\<lambda>(_, firstRange).
     bindE (varint_Append b firstRange) (\<lambda>b.
     bindE (appendRanges f 1 numRanges b) (\<lambda>b.
     if hasECN f then
       bindE (varint_Append b (fECT0 f)) (\<lambda>b.
       bindE (varint_Append b (fECT1 f)) (\<lambda>b.
       varint_Append b (fECNCE f)))
     else Inr b)))))))))"

function lengthRanges :: "AckFrame \<Rightarrow> nat \<Rightarrow> int \<Rightarrow> ByteCount \<Rightarrow> ByteCount result" where
  "lengthRanges f i numRanges length' =
     (if int i < numRanges then
        bindE (encodeAckRange f i) (\<lambda>(gap, len).
        bindE (varint_Len gap) (\<lambda>l1.
        bindE (varint_Len len) (\<lambda>l2.
        lengthRanges f (i + 1) numRanges (length' + l1 + l2))))
      else Inr length')"
  by pat_completeness auto
termination
  by (relation "measure (\<lambda>(f, i, numRanges, _). nat (numRanges - int i))") auto

definition AckFrame_Length :: "AckFrame \<Rightarrow> ByteCount result" where
  "AckFrame_Length f =
     bindE (slice_get (AckRanges f) 0) (\<lambda>r0.
     bindE (numEncodableAckRanges f) (\<lambda>numRanges.
     bindE (varint_Len (uint64_of (Largest r0))) (\<lambda>l1.
     bindE (varint_Len (encodeAckDelay (DelayTime f))) (\<lambda>l2.
     bindE (varint_Len (uint64_of (numRanges - 1))) (\<lambda>l3.
     bindE (varint_Len (uint64_of (Largest r0 - Smallest r0))) (\<lambda>l4.
     bindE (lengthRanges f 1 numRanges (1 + l1 + l2 + l3 + l4)) (\<lambda>len.
     if hasECN f then
       bindE (varint_Len (fECT0 f)) (\<lambda>e0.
       bindE (varint_Len (fECT1 f)) (\<lambda>e1.
       bindE (varint_Len (fECNCE f)) (\<lambda>ce. Inr (len + e0 + e1 + ce))))
     else Inr len)))))))"

definition ackedBy :: "AckRange list \<Rightarrow> PacketNumber \<Rightarrow> bool" where
  "ackedBy rs p \<longleftrightarrow> (\<exists>r \<in> set rs. Smallest r \<le> p \<and> p \<le> Largest r)"

text \<open>The range of packet numbers and counters that the wire format can carry.\<close>

definition encodable :: "AckFrame \<Rightarrow> bool" where
  "encodable f \<longleftrightarrow> validateAckRanges f
     \<and> list_all (\<lambda>r. 0 \<le> Smallest r \<and> Largest r < 2 ^ 62) (AckRanges f)
     \<and> 0 \<le> DelayTime f \<and> DelayTime f < 2 ^ 63
     \<and> fECT0 f \<le> maxVarInt8 \<and> fECT1 f \<le> maxVarInt8 \<and> fECNCE f \<le> maxVarInt8"

abbreviation descending :: "AckRange list \<Rightarrow> bool" where
  "descending \<equiv> sorted_wrt (\<lambda>a b. Largest b + 1 < Smallest a)"

abbreviation wireRanges :: "AckRange list \<Rightarrow> bool" where
  "wireRanges rs \<equiv> (\<forall>r \<in> set rs. 0 \<le> Smallest r \<and> Smallest r \<le> Largest r \<and> Largest r < 2 ^ 62)"

definition gapOf :: "AckFrame \<Rightarrow> nat \<Rightarrow> int" where
  "gapOf f i = Smallest (AckRanges f ! (i - 1)) - Largest (AckRanges f ! i) - 2"

definition lenOf :: "AckFrame \<Rightarrow> nat \<Rightarrow> int" where
  "lenOf f i = Largest (AckRanges f ! i) - Smallest (AckRanges f ! i)"

definition rangeBytes :: "AckFrame \<Rightarrow> nat \<Rightarrow> byte list" where
  "rangeBytes f i = vbytes (uint64_of (gapOf f i)) @ vbytes (uint64_of (lenOf f i))"

definition ackBytes :: "AckFrame \<Rightarrow> nat \<Rightarrow> byte list" where
  "ackBytes f n =
     (if hasECN f then 3 else 2) # vbytes (uint64_of (Largest (AckRanges f ! 0)))
     @ vbytes (encodeAckDelay (DelayTime f)) @ vbytes (uint64_of (int n - 1))
     @ vbytes (uint64_of (lenOf f 0)) @ concat (map (rangeBytes f) [1..<n])
     @ (if hasECN f then vbytes (fECT0 f) @ vbytes (fECT1 f) @ vbytes (fECNCE f) else [])"

declare numEncodableLoop.simps [simp del] appendRanges.simps [simp del] lengthRanges.simps [simp del]

subsection \<open>Valid frames\<close>

lemma consistent_descending:
  "list_all (\<lambda>r. \<not> Smallest r > Largest r) rs \<Longrightarrow> consistentAckRanges rs \<longleftrightarrow> descending rs"
proof (induction rs rule: consistentAckRanges.induct)
  case (1 a b rs)
  then show ?case by (fastforce simp: list_all_iff)
qed auto

lemma validateAckRanges_iff:
  "validateAckRanges f \<longleftrightarrow>
     AckRanges f \<noteq> [] \<and> (\<forall>r \<in> set (AckRanges f). Smallest r \<le> Largest r) \<and> descending (AckRanges f)"
  using consistent_descending [of "AckRanges f"]
  by (auto simp: validateAckRanges_def list_all_iff not_less)

lemma descending_nth:
  "descending rs \<Longrightarrow> i < j \<Longrightarrow> j < length rs \<Longrightarrow> Largest (rs ! j) + 1 < Smallest (rs ! i)"
  by (simp add: sorted_wrt_iff_nth_less)

lemma LargestAcked_valid: "AckRanges f \<noteq> [] \<Longrightarrow> LargestAcked f = Inr (Largest (AckRanges f ! 0))"
  by (simp add: LargestAcked_def)

lemma LowestAcked_valid:
  "AckRanges f \<noteq> [] \<Longrightarrow> LowestAcked f = Inr (Smallest (AckRanges f ! (length (AckRanges f) - 1)))"
  by (simp add: LowestAcked_def last_conv_nth)

lemma valid_nth:
  assumes "validateAckRanges f" "i < length (AckRanges f)"
  shows "Smallest (AckRanges f ! i) \<le> Largest (AckRanges f ! i)"
    "j < i \<Longrightarrow> Largest (AckRanges f ! i) + 1 < Smallest (AckRanges f ! j)"
  using assms descending_nth by (auto simp: validateAckRanges_iff)

lemma valid_bounds:
  assumes v: "validateAckRanges f" and i: "i < length (AckRanges f)"
  shows "Largest (AckRanges f ! i) \<le> Largest (AckRanges f ! 0)"
    "Smallest (AckRanges f ! (length (AckRanges f) - 1)) \<le> Smallest (AckRanges f ! i)"
proof -
  let ?n = "length (AckRanges f) - 1"
  have "0 < length (AckRanges f)" using i by (rule le_less_trans [OF le0])
  from valid_nth(1) [OF v this] show "Largest (AckRanges f ! i) \<le> Largest (AckRanges f ! 0)"
    using valid_nth(2) [OF v i, of 0] by (cases "i = 0") auto
  have "?n < length (AckRanges f)" using i by simp
  moreover have "i = ?n \<or> i < ?n" using i by linarith
  ultimately show "Smallest (AckRanges f ! ?n) \<le> Smallest (AckRanges f ! i)"
    using valid_nth(1) [OF v, of ?n] valid_nth(2) [OF v, of ?n i] by fastforce
qed

lemma AcksPacket_ackedBy:
  assumes v: "validateAckRanges f"
  shows "AcksPacket f p = Inr (ackedBy (AckRanges f) p)"
proof -
  let ?rs = "AckRanges f" let ?n = "length ?rs"
  have ne: "?rs \<noteq> []" using v by (simp add: validateAckRanges_iff)
  have acked: "ackedBy ?rs p \<longleftrightarrow> (\<exists>i < ?n. Smallest (?rs ! i) \<le> p \<and> p \<le> Largest (?rs ! i))"
    unfolding ackedBy_def by (metis in_set_conv_nth)
  define s where "s = sort_Search ?n (\<lambda>i. p \<ge> Smallest (?rs ! i))"
  have mono: "Smallest (?rs ! b) \<le> p" if "a \<le> b" "b < ?n" "Smallest (?rs ! a) \<le> p" for a b
    using valid_nth(1) [OF v that(2)] valid_nth(2) [OF v that(2), of a] that
    by (cases "a = b") auto
  have least: "s \<le> ?n" "\<And>a. a < s \<Longrightarrow> \<not> Smallest (?rs ! a) \<le> p" "s < ?n \<Longrightarrow> Smallest (?rs ! s) \<le> p"
    unfolding s_def by (rule sort_Search_least; use mono in blast)+
  show ?thesis
  proof (cases "p < Smallest (?rs ! (?n - 1)) \<or> p > Largest (?rs ! 0)")
    case True
    then have "\<not> ackedBy ?rs p" using valid_bounds [OF v] unfolding acked by force
    with True ne show ?thesis by (auto simp: AcksPacket_def LargestAcked_valid LowestAcked_valid)
  next
    case False
    then have s: "s < ?n" using least(2) [of "?n - 1"] least(1) ne
      by (metis Suc_pred' diff_less le_neq_implies_less length_greater_0_conv not_le zero_less_one)
    have "ackedBy ?rs p \<longleftrightarrow> p \<le> Largest (?rs ! s)"
    proof
      assume "ackedBy ?rs p"
      then obtain i where i: "i < ?n" "Smallest (?rs ! i) \<le> p" "p \<le> Largest (?rs ! i)"
        unfolding acked by blast
      with least(2) [of i] have "s \<le> i" by force
      then show "p \<le> Largest (?rs ! s)"
        using i valid_nth(2) [OF v i(1), of s] valid_nth(1) [OF v s] by (cases "s = i") auto
    qed (use s least(3) acked in blast)
    with False ne s show ?thesis
      by (simp add: AcksPacket_def LargestAcked_valid LowestAcked_valid Let_def flip: s_def)
  qed
qed

subsection \<open>Parsing\<close>

lemma descending_snoc:
  "descending (rs @ [r]) \<longleftrightarrow> descending rs \<and> (\<forall>a \<in> set rs. Largest r + 1 < Smallest a)"
  by (auto simp: sorted_wrt_append)

lemma parseAckRanges_sound:
  assumes "parseAckRanges n frame smallest r = Inr (frame', r')"
    and "wireRanges (AckRanges frame)" "\<forall>a \<in> set (AckRanges frame). smallest \<le> Smallest a"
    and "smallest < 2 ^ 62" "descending (AckRanges frame)"
  shows "wireRanges (AckRanges frame') \<and> descending (AckRanges frame') \<and> length r' \<le> length r
    \<and> length (AckRanges frame') = length (AckRanges frame) + n
    \<and> frame' = frame\<lparr>AckRanges := AckRanges frame'\<rparr>"
  using assms
proof (induction n arbitrary: frame smallest r)
  case (Suc n)
  from Suc.prems(1) obtain g r1 ab r2 where
    g: "varint_Read r = Inr (g, r1)" "int64_of g + 2 \<le> smallest" and
    ab: "varint_Read r1 = Inr (ab, r2)" "int64_of ab \<le> smallest - int64_of g - 2" and
    rec: "parseAckRanges n (frame\<lparr>AckRanges := AckRanges frame @
        [\<lparr>Smallest = smallest - int64_of g - 2 - int64_of ab, Largest = smallest - int64_of g - 2\<rparr>]\<rparr>)
      (smallest - int64_of g - 2 - int64_of ab) r2 = Inr (frame', r')"
    by (auto simp: bindE_Inr_iff Let_def not_less split: if_splits)
  have lens: "length r1 \<le> length r" "length r2 \<le> length r1"
    using varint_Read_length [OF g(1)] varint_Read_length [OF ab(1)] by simp_all
  have "wireRanges (AckRanges frame') \<and> descending (AckRanges frame') \<and> length r' \<le> length r2
    \<and> length (AckRanges frame') = length (AckRanges frame) + 1 + n
    \<and> frame' = frame\<lparr>AckRanges := AckRanges frame'\<rparr>"
    using Suc.IH [OF rec] Suc.prems(2-5) g(2) ab(2)
      varint_Read_int64(1) [OF g(1)] varint_Read_int64(1) [OF ab(1)]
    by (fastforce simp: descending_snoc)
  then show ?case using lens by auto
qed auto

lemma parseAckFrame_Inr:
  assumes "parseAckFrame frame r typ e = Inr (f, r')"
  obtains la r1 delay r2 n r3 ab r4 f4 r5 where
    "varint_Read r = Inr (la, r1)" "varint_Read r1 = Inr (delay, r2)" "varint_Read r2 = Inr (n, r3)"
    "varint_Read r3 = Inr (ab, r4)" "int64_of ab \<le> int64_of la"
    "parseAckRanges (unat n) (frame\<lparr>DelayTime := ackDelayTime delay e,
       AckRanges := AckRanges frame @ [\<lparr>Smallest = int64_of la - int64_of ab, Largest = int64_of la\<rparr>]\<rparr>)
       (int64_of la - int64_of ab) r4 = Inr (f4, r5)"
    "validateAckRanges f4"
    "if typ = ackECNFrameType
     then \<exists>e0 r6 e1 r7 ce. varint_Read r5 = Inr (e0, r6) \<and> varint_Read r6 = Inr (e1, r7)
       \<and> varint_Read r7 = Inr (ce, r') \<and> f = f4\<lparr>fECT0 := e0, fECT1 := e1, fECNCE := ce\<rparr>
     else f = f4 \<and> r' = r5"
  using assms
  by (force simp: parseAckFrame_def bindE_Inr_iff Let_def not_less split: if_splits)

lemma ackDelayTime_range: "0 \<le> ackDelayTime d e" "ackDelayTime d e < 2 ^ 63"
  using wrap64_range [of "int64_of (push_bit e (d * 1)) * Microsecond"]
  by (auto simp: ackDelayTime_def Let_def InfDuration_def)


lemma parseAckFrame_encodable:
  assumes p: "parseAckFrame frame r typ e = Inr (f, r')" and frame: "AckRanges frame = []"
    "fECT0 frame \<le> maxVarInt8" "fECT1 frame \<le> maxVarInt8" "fECNCE frame \<le> maxVarInt8"
  shows "encodable f \<and> length r' < length r"
proof -
  from p obtain la r1 delay r2 n r3 ab r4 f4 r5 where
    rd: "varint_Read r = Inr (la, r1)" "varint_Read r1 = Inr (delay, r2)" "varint_Read r2 = Inr (n, r3)"
    "varint_Read r3 = Inr (ab, r4)" and le: "int64_of ab \<le> int64_of la" and
    rs: "parseAckRanges (unat n) (frame\<lparr>DelayTime := ackDelayTime delay e,
       AckRanges := AckRanges frame @ [\<lparr>Smallest = int64_of la - int64_of ab, Largest = int64_of la\<rparr>]\<rparr>)
       (int64_of la - int64_of ab) r4 = Inr (f4, r5)" and
    v: "validateAckRanges f4" and
    ecn: "if typ = ackECNFrameType
     then \<exists>e0 r6 e1 r7 ce. varint_Read r5 = Inr (e0, r6) \<and> varint_Read r6 = Inr (e1, r7)
       \<and> varint_Read r7 = Inr (ce, r') \<and> f = f4\<lparr>fECT0 := e0, fECT1 := e1, fECNCE := ce\<rparr>
     else f = f4 \<and> r' = r5"
    by (rule parseAckFrame_Inr)
  note la = varint_Read_int64 [OF rd(1)] and ab = varint_Read_int64 [OF rd(4)]
  note lens = rd(1-4) [THEN varint_Read_length]
  have f4: "wireRanges (AckRanges f4)" "length r5 \<le> length r4" and
    eq: "f4 = frame\<lparr>DelayTime := ackDelayTime delay e, AckRanges := AckRanges f4\<rparr>"
    using parseAckRanges_sound [OF rs] la ab le frame(1) by auto
  have fields: "DelayTime f4 = ackDelayTime delay e" "fECT0 f4 = fECT0 frame" "fECT1 f4 = fECT1 frame"
    "fECNCE f4 = fECNCE frame" by (subst eq, simp)+
  show ?thesis
  proof (cases "typ = ackECNFrameType")
    case True
    with ecn obtain e0 r6 e1 r7 ce where "varint_Read r5 = Inr (e0, r6)" "varint_Read r6 = Inr (e1, r7)"
      "varint_Read r7 = Inr (ce, r')" and f: "f = f4\<lparr>fECT0 := e0, fECT1 := e1, fECNCE := ce\<rparr>" by auto
    note this(1-3) [THEN varint_Read_le] this(1-3) [THEN varint_Read_length]
    with f4 v lens ackDelayTime_range show ?thesis
      by (simp add: f encodable_def list_all_iff fields validateAckRanges_def)
  next
    case False
    with ecn f4 v lens ackDelayTime_range frame show ?thesis
      by (simp add: encodable_def list_all_iff fields)
  qed
qed

subsection \<open>Serialising\<close>

lemma encodable_nth:
  assumes e: "encodable f" and i: "i < length (AckRanges f)"
  shows "0 \<le> Smallest (AckRanges f ! i)" "Smallest (AckRanges f ! i) \<le> Largest (AckRanges f ! i)"
    "Largest (AckRanges f ! i) < 2 ^ 62" "0 \<le> lenOf f i" "lenOf f i < 2 ^ 62"
    "0 < i \<Longrightarrow> 0 \<le> gapOf f i" "0 < i \<Longrightarrow> gapOf f i < 2 ^ 62"
proof -
  have v: "validateAckRanges f" using e by (simp add: encodable_def)
  have b: "0 \<le> Smallest (AckRanges f ! k)" "Largest (AckRanges f ! k) < 2 ^ 62"
    "Smallest (AckRanges f ! k) \<le> Largest (AckRanges f ! k)" if "k < length (AckRanges f)" for k
    using e that valid_nth(1) [OF v that] by (auto simp: encodable_def list_all_length)
  show "0 \<le> Smallest (AckRanges f ! i)" "Smallest (AckRanges f ! i) \<le> Largest (AckRanges f ! i)"
    "Largest (AckRanges f ! i) < 2 ^ 62" "0 \<le> lenOf f i" "lenOf f i < 2 ^ 62"
    using b [OF i] by (auto simp: lenOf_def)
  show "0 \<le> gapOf f i" "gapOf f i < 2 ^ 62" if "0 < i"
    using that b [OF i] b [OF less_imp_diff_less [OF i], of 1] valid_nth(2) [OF v i, of "i - 1"]
    by (auto simp: gapOf_def)
qed

lemma encodable_max:
  assumes "encodable f" "i < length (AckRanges f)"
  shows "0 < i \<Longrightarrow> uint64_of (gapOf f i) \<le> maxVarInt8" "uint64_of (lenOf f i) \<le> maxVarInt8"
    "uint64_of (Largest (AckRanges f ! i)) \<le> maxVarInt8"
  using encodable_nth [OF assms] by (auto intro!: le_max_uint64_of)

lemma encodeAckRange_pos:
  "0 < i \<Longrightarrow> i < length (AckRanges f) \<Longrightarrow>
   encodeAckRange f i = Inr (uint64_of (gapOf f i), uint64_of (lenOf f i))"
  by (simp add: encodeAckRange_def gapOf_def lenOf_def)

lemma length_rangeBytes:
  assumes "encodable f" "0 < i" "i < length (AckRanges f)"
  shows "int (length (rangeBytes f i)) = vlen (uint64_of (gapOf f i)) + vlen (uint64_of (lenOf f i))"
  using encodable_max [OF assms(1,3)] assms by (simp add: rangeBytes_def length_vbytes)

lemma length_rangeBytes_le:
  assumes "encodable f" "0 < i" "i < length (AckRanges f)"
  shows "length (rangeBytes f i) \<le> 16"
  using length_rangeBytes [OF assms] vlen_cases [of "uint64_of (gapOf f i)"]
    vlen_cases [of "uint64_of (lenOf f i)"] by auto

lemma numEncodableLoop_spec:
  assumes e: "encodable f" and i: "0 < i" "i \<le> length (AckRanges f)" and l: "l \<le> MaxAckFrameSize"
  shows "\<exists>n. numEncodableLoop f i l = Inr (int n) \<and> i - 1 \<le> n \<and> n \<le> length (AckRanges f)
    \<and> l + int (length (concat (map (rangeBytes f) [i..<n]))) \<le> MaxAckFrameSize
    \<and> (n = i - 1 \<longrightarrow> l + 16 > MaxAckFrameSize)"
  using i l
proof (induction "length (AckRanges f) - i" arbitrary: i l)
  case 0
  then have "i \<noteq> i - 1" "length (AckRanges f) = i" by linarith+
  with 0 show ?case by (simp add: numEncodableLoop.simps [of f i])
next
  case (Suc k)
  from Suc.hyps(2) have i: "i < length (AckRanges f)" by linarith
  note len = length_rangeBytes [OF e Suc.prems(1) i] length_rangeBytes_le [OF e Suc.prems(1) i]
  have step: "numEncodableLoop f i l =
     (if l + int (length (rangeBytes f i)) > MaxAckFrameSize then Inr (int i - 1)
      else numEncodableLoop f (i + 1) (l + int (length (rangeBytes f i))))"
    using i Suc.prems(1) encodable_max [OF e i] len
    by (simp add: numEncodableLoop.simps [of f i] encodeAckRange_pos varint_Len_vlen Let_def)
  show ?case
  proof (cases "l + int (length (rangeBytes f i)) > MaxAckFrameSize")
    case True
    with step Suc.prems len show ?thesis by (intro exI [of _ "i - 1"]) auto
  next
    case False
    moreover have "k = length (AckRanges f) - (i + 1)" using Suc.hyps(2) by simp
    ultimately obtain n where n: "numEncodableLoop f (i + 1) (l + int (length (rangeBytes f i))) = Inr (int n)"
      "i \<le> n" "n \<le> length (AckRanges f)"
      "l + int (length (rangeBytes f i)) + int (length (concat (map (rangeBytes f) [i + 1..<n]))) \<le> MaxAckFrameSize"
      "n = i \<longrightarrow> l + int (length (rangeBytes f i)) + 16 > MaxAckFrameSize"
      using Suc.hyps(1) [of "i + 1" "l + int (length (rangeBytes f i))"] i by auto
    then show ?thesis using step False Suc.prems
      by (intro exI [of _ n]) (cases "n = i", auto simp: upt_conv_Cons)
  qed
qed


lemma appendRanges_eq:
  assumes e: "encodable f" and i: "0 < i" and n: "n \<le> length (AckRanges f)"
  shows "appendRanges f i (int n) b = Inr (b @ concat (map (rangeBytes f) [i..<n]))"
  using i
proof (induction "n - i" arbitrary: i b)
  case 0
  then show ?case by (simp add: appendRanges.simps [of f i])
next
  case (Suc k)
  from Suc.hyps(2) n have i: "i < n" "i < length (AckRanges f)" by linarith+
  have "appendRanges f i (int n) b = appendRanges f (i + 1) (int n) (b @ rangeBytes f i)"
    using i Suc.prems encodable_max [OF e i(2)]
    by (simp add: appendRanges.simps [of f i] encodeAckRange_pos varint_Append_vbytes rangeBytes_def)
  with Suc i show ?case by (simp add: upt_conv_Cons)
qed

lemma lengthRanges_eq:
  assumes e: "encodable f" and i: "0 < i" and n: "n \<le> length (AckRanges f)"
  shows "lengthRanges f i (int n) l = Inr (l + int (length (concat (map (rangeBytes f) [i..<n]))))"
  using i
proof (induction "n - i" arbitrary: i l)
  case 0
  then show ?case by (simp add: lengthRanges.simps [of f i])
next
  case (Suc k)
  from Suc.hyps(2) n have i: "i < n" "i < length (AckRanges f)" by linarith+
  have "lengthRanges f i (int n) l = lengthRanges f (i + 1) (int n) (l + int (length (rangeBytes f i)))"
    using i Suc.prems encodable_max [OF e i(2)] length_rangeBytes [OF e Suc.prems i(2)]
    by (simp add: lengthRanges.simps [of f i] encodeAckRange_pos varint_Len_vlen add.assoc)
  with Suc i show ?case by (simp add: upt_conv_Cons)
qed

lemma parseAckRanges_rangeBytes:
  assumes e: "encodable f" and i: "0 < i" "i \<le> n" and n: "n \<le> length (AckRanges f)"
  shows "parseAckRanges (n - i) frame (Smallest (AckRanges f ! (i - 1)))
      (concat (map (rangeBytes f) [i..<n]) @ r)
    = Inr (frame\<lparr>AckRanges := AckRanges frame @ map ((!) (AckRanges f)) [i..<n]\<rparr>, r)"
  using i
proof (induction "n - i" arbitrary: i frame)
  case (Suc k)
  from Suc.hyps(2) n have i: "i < n" "i < length (AckRanges f)" "n - i = Suc (n - Suc i)" by linarith+
  note b = encodable_nth [OF e i(2)] and m = encodable_max [OF e i(2)]
  have g: "gapOf f i < 2 ^ 63" "lenOf f i < 2 ^ 63" using b(5,7) Suc.prems(1) by simp_all
  have gap: "Smallest (AckRanges f ! (i - 1)) - gapOf f i - 2 = Largest (AckRanges f ! i)"
    "gapOf f i + 2 \<le> Smallest (AckRanges f ! (i - 1))"
    "Largest (AckRanges f ! i) - lenOf f i = Smallest (AckRanges f ! i)"
    using b(1,2) by (simp_all add: gapOf_def lenOf_def)
  have eta: "\<lparr>Smallest = Smallest x, Largest = Largest x\<rparr> = x" for x :: AckRange by simp
  have "parseAckRanges (n - i) frame (Smallest (AckRanges f ! (i - 1)))
      (concat (map (rangeBytes f) [i..<n]) @ r)
    = parseAckRanges (n - Suc i) (frame\<lparr>AckRanges := AckRanges frame @ [AckRanges f ! i]\<rparr>)
        (Smallest (AckRanges f ! i)) (concat (map (rangeBytes f) [Suc i..<n]) @ r)"
    using i Suc.prems(1) b g m gap
    by (simp add: upt_conv_Cons rangeBytes_def varint_Read_vbytes Let_def lenOf_def eta)
  with Suc.hyps(1) [of "Suc i"] Suc.hyps(2) i show ?case by (simp add: upt_conv_Cons)
qed auto

lemma encodable_ne: "encodable f \<Longrightarrow> AckRanges f \<noteq> []"
  by (simp add: encodable_def validateAckRanges_def)

lemma encodeAckDelay_le:
  assumes "encodable f"
  shows "0 \<le> DelayTime f div 8000" "DelayTime f div 8000 < 2 ^ 51"
    "encodeAckDelay (DelayTime f) = uint64_of (DelayTime f div 8000)"
    "encodeAckDelay (DelayTime f) \<le> maxVarInt8"
proof -
  have d: "0 \<le> DelayTime f" "DelayTime f < 2 ^ 63" using assms by (auto simp: encodable_def)
  show *: "0 \<le> DelayTime f div 8000" "DelayTime f div 8000 < 2 ^ 51" using d by auto
  show eq: "encodeAckDelay (DelayTime f) = uint64_of (DelayTime f div 8000)"
    using d by (simp add: encodeAckDelay_def AckDelayExponent_def tdiv_nonneg)
  show "encodeAckDelay (DelayTime f) \<le> maxVarInt8"
    unfolding eq using * by (intro le_max_uint64_of) auto
qed

lemma rangeBytes_concat_ge:
  assumes e: "encodable f" and n: "n \<le> length (AckRanges f)"
  shows "2 * (n - 1) \<le> length (concat (map (rangeBytes f) [1..<n]))"
proof -
  have "2 \<le> length (rangeBytes f i)" if "0 < i" "i < n" for i
    using length_rangeBytes [OF e that(1)] that n vlen_cases [of "uint64_of (gapOf f i)"]
      vlen_cases [of "uint64_of (lenOf f i)"] by auto
  then have "(\<Sum>i\<leftarrow>[1..<n]. 2) \<le> (\<Sum>i\<leftarrow>[1..<n]. length (rangeBytes f i))"
    by (intro sum_list_mono) auto
  then show ?thesis by (simp add: length_concat sum_list_triv o_def mult.commute)
qed

lemma numEncodableAckRanges_spec:
  assumes e: "encodable f"
  obtains n where "numEncodableAckRanges f = Inr (int n)" "1 \<le> n" "n \<le> length (AckRanges f)" "n \<le> 500"
    "1 + vlen (uint64_of (Largest (AckRanges f ! 0))) + vlen (encodeAckDelay (DelayTime f)) + 2
     + int (length (concat (map (rangeBytes f) [1..<n]))) \<le> MaxAckFrameSize"
proof -
  let ?l = "1 + vlen (uint64_of (Largest (AckRanges f ! 0))) + vlen (encodeAckDelay (DelayTime f)) + 2"
  have ne: "0 < length (AckRanges f)" using encodable_ne [OF e] by simp
  have l: "?l \<le> 19" using vlen_cases [of "uint64_of (Largest (AckRanges f ! 0))"]
    vlen_cases [of "encodeAckDelay (DelayTime f)"] by auto
  have "0 < (1::nat)" "1 \<le> length (AckRanges f)" "?l \<le> MaxAckFrameSize"
    using ne l by (auto simp: MaxAckFrameSize_def Suc_le_eq)
  from numEncodableLoop_spec [OF e this] obtain n where
    n: "numEncodableLoop f 1 ?l = Inr (int n)" "n \<le> length (AckRanges f)"
      "?l + int (length (concat (map (rangeBytes f) [1..<n]))) \<le> MaxAckFrameSize"
      "n = 1 - 1 \<longrightarrow> ?l + 16 > MaxAckFrameSize" by blast
  have n0: "1 \<le> n" using n(4) l by (cases n) (auto simp: MaxAckFrameSize_def)
  have eq: "numEncodableAckRanges f = Inr (int n)"
    using n(1) ne encodable_max(3) [OF e ne] encodeAckDelay_le(4) [OF e]
    by (simp add: numEncodableAckRanges_def LargestAcked_valid varint_Len_vlen)
  have "5 \<le> ?l" using vlen_cases [of "uint64_of (Largest (AckRanges f ! 0))"]
    vlen_cases [of "encodeAckDelay (DelayTime f)"] by auto
  with n(3) have "int (length (concat (map (rangeBytes f) [1..<n]))) \<le> 995"
    by (simp add: MaxAckFrameSize_def)
  with rangeBytes_concat_ge [OF e n(2)] have "n \<le> 500" by linarith
  with eq n n0 show thesis by (intro that) auto
qed

lemma AckFrame_Append_bytes:
  assumes e: "encodable f" and n: "numEncodableAckRanges f = Inr (int n)" "1 \<le> n"
    "n \<le> length (AckRanges f)" "n \<le> 500"
  shows "AckFrame_Append b f = Inr (b @ ackBytes f n)"
    and "AckFrame_Length f = Inr (int (length (ackBytes f n)))"
proof -
  have ne: "0 < length (AckRanges f)" using encodable_ne [OF e] by simp
  have m: "uint64_of (int n - 1) \<le> maxVarInt8" using n by (intro le_max_uint64_of) auto
  have ecn: "fECT0 f \<le> maxVarInt8" "fECT1 f \<le> maxVarInt8" "fECNCE f \<le> maxVarInt8"
    using e by (auto simp: encodable_def)
  have r0: "encodeAckRange f 0 = Inr (0, uint64_of (lenOf f 0))"
    using ne by (simp add: encodeAckRange_def lenOf_def)
  note s = encodable_max(2,3) [OF e ne] encodeAckDelay_le(4) [OF e] ne n m ecn r0
  show "AckFrame_Append b f = Inr (b @ ackBytes f n)"
    using s appendRanges_eq [OF e zero_less_one n(3)]
    by (simp add: AckFrame_Append_def LargestAcked_valid varint_Append_vbytes ackBytes_def Let_def
        ackFrameType_def ackECNFrameType_def)
  show "AckFrame_Length f = Inr (int (length (ackBytes f n)))"
    using s lengthRanges_eq [OF e zero_less_one n(3)]
    by (simp add: AckFrame_Length_def varint_Len_vlen ackBytes_def length_vbytes flip: lenOf_def)
qed

lemma ackDelayTime_encode:
  assumes "encodable f"
  shows "ackDelayTime (encodeAckDelay (DelayTime f)) 3 = DelayTime f div 8000 * 8000"
proof -
  let ?d = "DelayTime f div 8000"
  have d: "0 \<le> ?d" "?d < 2 ^ 51" "?d * 8000 \<le> DelayTime f" "DelayTime f < 2 ^ 63"
    using assms encodeAckDelay_le [OF assms] by (auto simp: encodable_def)
  have "push_bit 3 (uint64_of ?d) = uint64_of (?d * 8)"
    by (simp add: push_bit_eq_mult uint64_of_def)
  moreover have "int64_of (uint64_of (?d * 8)) = ?d * 8" using d by (intro int64_of_uint64_of) auto
  moreover have "wrap64 (?d * 8 * 1000) = ?d * 8000" using d by (subst wrap64_id) auto
  ultimately show ?thesis using d by (simp add: ackDelayTime_def encodeAckDelay_le(3) [OF assms])
qed


lemma AckRange_eta: "\<lparr>Smallest = Smallest x, Largest = Largest x\<rparr> = (x :: AckRange)"
  by simp

lemma AckFrame_fields:
  "\<lparr>AckRanges = a, DelayTime = d, fECT0 = fECT0 f, fECT1 = fECT1 f, fECNCE = fECNCE f\<rparr>
     = (f :: AckFrame)\<lparr>AckRanges := a, DelayTime := d\<rparr>"
  "\<not> hasECN f \<Longrightarrow> \<lparr>AckRanges = a, DelayTime = d, fECT0 = 0, fECT1 = 0, fECNCE = 0\<rparr>
     = f\<lparr>AckRanges := a, DelayTime := d\<rparr>"
  by (cases f; simp add: hasECN_def word_gt_0)+

lemma take_nth_upt:
  assumes "1 \<le> n" "n \<le> length xs"
  shows "take n xs = xs ! 0 # map ((!) xs) [1..<n]"
proof -
  have "take n xs = map ((!) xs) [0..<n]" using assms by (intro nth_equalityI) auto
  then show ?thesis using assms by (simp add: upt_conv_Cons)
qed

lemma validateAckRanges_take:
  "encodable f \<Longrightarrow> 1 \<le> n \<Longrightarrow>
   validateAckRanges \<lparr>AckRanges = take n (AckRanges f), DelayTime = d, fECT0 = x, fECT1 = y, fECNCE = z\<rparr>"
  by (auto simp: encodable_def validateAckRanges_iff sorted_wrt_take dest: in_set_takeD)

lemma unat_count: "1 \<le> n \<Longrightarrow> n \<le> 500 \<Longrightarrow> unat (uint64_of (int n - 1)) = n - 1"
  by (simp add: uint_uint64_of flip: nat_uint_eq)

lemma parseAckFrame_ackBytes:
  assumes e: "encodable f" and n: "1 \<le> n" "n \<le> length (AckRanges f)" "n \<le> 500"
  shows "parseAckFrame emptyAckFrame (tl (ackBytes f n) @ r) (ucast (hd (ackBytes f n))) 3
    = Inr (f\<lparr>AckRanges := take n (AckRanges f), DelayTime := DelayTime f div 8000 * 8000\<rparr>, r)"
proof -
  let ?rs = "AckRanges f" let ?f = "emptyAckFrame\<lparr>DelayTime := DelayTime f div 8000 * 8000\<rparr>"
  have ne: "0 < length ?rs" using n by linarith
  note b = encodable_nth [OF e ne] and m = encodable_max(2,3) [OF e ne] encodeAckDelay_le(4) [OF e]
  have k: "uint64_of (int n - 1) \<le> maxVarInt8" using n by (intro le_max_uint64_of) auto
  have ecn: "fECT0 f \<le> maxVarInt8" "fECT1 f \<le> maxVarInt8" "fECNCE f \<le> maxVarInt8"
    using e by (auto simp: encodable_def)
  have ranges: "parseAckRanges (n - 1) (?f\<lparr>AckRanges := [?rs ! 0]\<rparr>) (Smallest (?rs ! 0))
      (concat (map (rangeBytes f) [1..<n]) @ q)
    = Inr (?f\<lparr>AckRanges := take n ?rs\<rparr>, q)" for q
    using parseAckRanges_rangeBytes [OF e zero_less_one n(1,2)] by (simp add: take_nth_upt [OF n(1,2)])
  have l0: "Largest (?rs ! 0) < 2 ^ 63" "lenOf f 0 < 2 ^ 63" using b(3,5) by simp_all
  have ty: "ucast (hd (ackBytes f n)) = (if hasECN f then ackECNFrameType else ackFrameType)"
    by (simp add: ackBytes_def ackFrameType_def ackECNFrameType_def)
  note v = validateAckRanges_take [OF e n(1)]
  show ?thesis
    using b m k ecn l0
    by (simp add: parseAckFrame_def ty, simp add: ackBytes_def varint_Read_vbytes unat_count [OF n(1,3)]
        ackDelayTime_encode [OF e] Let_def lenOf_def,
      simp add: emptyAckFrame_def AckRange_eta ranges [unfolded emptyAckFrame_def, simplified] v,
      simp add: varint_Read_vbytes AckFrame_fields ackFrameType_def ackECNFrameType_def)
qed

lemma vlen_le: "vlen i \<le> 8"
  by (simp add: vlen_def)

lemma length_ackBytes:
  assumes e: "encodable f" and n: "1 \<le> n" "n \<le> length (AckRanges f)" "n \<le> 500"
    and l: "1 + vlen (uint64_of (Largest (AckRanges f ! 0))) + vlen (encodeAckDelay (DelayTime f)) + 2
     + int (length (concat (map (rangeBytes f) [1..<n]))) \<le> MaxAckFrameSize"
  shows "int (length (ackBytes f n)) \<le> MaxAckFrameSize + 32"
proof -
  have ne: "0 < length (AckRanges f)" using n by linarith
  note m = encodable_max(2,3) [OF e ne] encodeAckDelay_le(4) [OF e]
  have ecn: "fECT0 f \<le> maxVarInt8" "fECT1 f \<le> maxVarInt8" "fECNCE f \<le> maxVarInt8"
    using e by (auto simp: encodable_def)
  have k: "uint64_of (int n - 1) \<le> maxVarInt8" using n by (intro le_max_uint64_of) auto
  have "uint (uint64_of (int n - 1)) = int n - 1" using n by (intro uint_uint64_of) auto
  then have "vlen (uint64_of (int n - 1)) \<le> 2"
    using n by (simp add: vlen_def word_le_def maxVarInt_defs)
  with l vlen_le [of "uint64_of (lenOf f 0)"] vlen_le [of "fECT0 f"] vlen_le [of "fECT1 f"]
    vlen_le [of "fECNCE f"] show ?thesis
    by (simp add: ackBytes_def length_vbytes m ecn k)
qed


subsection \<open>Properties\<close>

text \<open>
  On a frame that passes \<open>validateAckRanges\<close> the binary search of \<open>AcksPacket\<close> never indexes
  out of range and answers exactly whether some range of the frame contains the packet number.
\<close>

theorem AcksPacket_correct:
  "validateAckRanges f \<Longrightarrow>
   AcksPacket f p = Inr (\<exists>r \<in> set (AckRanges f). Smallest r \<le> p \<and> p \<le> Largest r)"
  using AcksPacket_ackedBy by (simp add: ackedBy_def)

theorem AcksPacket_correct_witness:
  "AcksPacket (emptyAckFrame\<lparr>AckRanges := [\<lparr>Smallest = 8, Largest = 9\<rparr>, \<lparr>Smallest = 2, Largest = 5\<rparr>]\<rparr>) 7 = Inr False"
  by (subst AcksPacket_correct) (simp_all add: emptyAckFrame_def validateAckRanges_def)

text \<open>
  C38. A frame that \<open>parseAckFrame\<close> accepts, whatever the bytes, satisfies the ordering that
  \<open>validateAckRanges\<close> describes, holds only packet numbers between 0 and 2^62 - 1 and a delay
  between 0 and the largest duration, and can be encoded again; parsing consumed some input.
\<close>

theorem parseAckFrame_sound:
  assumes "parseAckFrame (AckFrame_Reset f0) r typ e = Inr (f, r')"
  shows "validateAckRanges f \<and> encodable f \<and> length r' < length r"
  using parseAckFrame_encodable [OF assms] by (simp add: AckFrame_Reset_def encodable_def)

theorem parseAckFrame_sound_witness:
  "parseAckFrame (AckFrame_Reset emptyAckFrame) [10, 5, 1, 2, 0, 3] 2 3
     = Inr (\<lparr>AckRanges = [\<lparr>Smallest = 8, Largest = 10\<rparr>, \<lparr>Smallest = 3, Largest = 6\<rparr>],
         DelayTime = 40000, fECT0 = 0, fECT1 = 0, fECNCE = 0\<rparr>, [])
   \<and> validateAckRanges \<lparr>AckRanges = [\<lparr>Smallest = 8, Largest = 10\<rparr>, \<lparr>Smallest = 3, Largest = 6\<rparr>],
         DelayTime = 40000, fECT0 = 0, fECT1 = 0, fECNCE = 0\<rparr>"
proof -
  have *: "parseAckFrame (AckFrame_Reset emptyAckFrame) [10, 5, 1, 2, 0, 3] 2 3
     = Inr (\<lparr>AckRanges = [\<lparr>Smallest = 8, Largest = 10\<rparr>, \<lparr>Smallest = 3, Largest = 6\<rparr>],
         DelayTime = 40000, fECT0 = 0, fECT1 = 0, fECNCE = 0\<rparr>, [])"
    by code_simp
  from parseAckFrame_sound [OF this] * show ?thesis by simp
qed

text \<open>
  C12. Writing a frame and parsing the bytes gives the frame back, with whatever follows left over:
  the first \<open>n\<close> ranges, where \<open>n \<ge> 1\<close> is the result of \<open>numEncodableAckRanges\<close>, the delay rounded
  down to the 8 microsecond granularity of the default exponent, and the ECN counters.
\<close>

theorem AckFrame_roundtrip:
  assumes "encodable f"
  shows "\<exists>n t bs. numEncodableAckRanges f = Inr (int n) \<and> 1 \<le> n \<and> n \<le> length (AckRanges f)
    \<and> AckFrame_Append b f = Inr (b @ t # bs)
    \<and> parseAckFrame emptyAckFrame (bs @ r) (ucast t) 3
      = Inr (f\<lparr>AckRanges := take n (AckRanges f), DelayTime := DelayTime f div 8000 * 8000\<rparr>, r)"
proof -
  obtain n where n: "numEncodableAckRanges f = Inr (int n)" "1 \<le> n" "n \<le> length (AckRanges f)" "n \<le> 500"
    using numEncodableAckRanges_spec [OF assms] by metis
  have "ackBytes f n = hd (ackBytes f n) # tl (ackBytes f n)" by (simp add: ackBytes_def)
  with AckFrame_Append_bytes(1) [OF assms n, of b] parseAckFrame_ackBytes [OF assms n(2-4), of r] n
  show ?thesis by metis
qed

theorem AckFrame_roundtrip_witness:
  "\<exists>n t bs. n \<ge> 1 \<and> AckFrame_Append [] \<lparr>AckRanges = [\<lparr>Smallest = 8, Largest = 10\<rparr>], DelayTime = 40001,
       fECT0 = 0, fECT1 = 0, fECNCE = 0\<rparr> = Inr (t # bs)
    \<and> parseAckFrame emptyAckFrame bs (ucast t) 3 = Inr (\<lparr>AckRanges = take n [\<lparr>Smallest = 8, Largest = 10\<rparr>],
       DelayTime = 40000, fECT0 = 0, fECT1 = 0, fECNCE = 0\<rparr>, [])"
  using AckFrame_roundtrip [of "\<lparr>AckRanges = [\<lparr>Smallest = 8, Largest = 10\<rparr>], DelayTime = 40001,
       fECT0 = 0, fECT1 = 0, fECNCE = 0\<rparr>" "[]" "[]"]
  by (simp add: encodable_def validateAckRanges_def) metis

text \<open>
  \<open>Length\<close> is exactly the number of bytes \<open>Append\<close> writes. The size limit used when the ranges
  are counted ignores the first range and the ECN counters, so the frame can exceed
  \<open>MaxAckFrameSize\<close>, by no more than the 32 bytes those four integers take.
\<close>

theorem AckFrame_Length_exact:
  assumes "encodable f"
  shows "\<exists>bs. AckFrame_Append b f = Inr (b @ bs) \<and> AckFrame_Length f = Inr (int (length bs))
    \<and> int (length bs) \<le> MaxAckFrameSize + 32"
proof -
  obtain n where n: "numEncodableAckRanges f = Inr (int n)" "1 \<le> n" "n \<le> length (AckRanges f)" "n \<le> 500"
    and l: "1 + vlen (uint64_of (Largest (AckRanges f ! 0))) + vlen (encodeAckDelay (DelayTime f)) + 2
     + int (length (concat (map (rangeBytes f) [1..<n]))) \<le> MaxAckFrameSize"
    using numEncodableAckRanges_spec [OF assms] by blast
  show ?thesis
    using AckFrame_Append_bytes [OF assms n] length_ackBytes [OF assms n(2-4) l] by metis
qed

theorem AckFrame_Length_exact_witness:
  "\<exists>bs. AckFrame_Append [] \<lparr>AckRanges = [\<lparr>Smallest = 8, Largest = 10\<rparr>], DelayTime = 40001,
       fECT0 = 7, fECT1 = 0, fECNCE = 0\<rparr> = Inr bs
    \<and> AckFrame_Length \<lparr>AckRanges = [\<lparr>Smallest = 8, Largest = 10\<rparr>], DelayTime = 40001,
       fECT0 = 7, fECT1 = 0, fECNCE = 0\<rparr> = Inr (int (length bs))"
  using AckFrame_Length_exact [of "\<lparr>AckRanges = [\<lparr>Smallest = 8, Largest = 10\<rparr>], DelayTime = 40001,
       fECT0 = 7, fECT1 = 0, fECNCE = 0\<rparr>" "[]"]
  by (auto simp: encodable_def validateAckRanges_def maxVarInt_defs)

text \<open>
  The overflow check of the ACK delay looks at the sign only. A delay of 2^61 units with the default
  exponent wraps to zero, not to the largest duration.
\<close>

theorem ackDelayTime_wraps: "ackDelayTime (2 ^ 61) 3 = 0 \<and> 2 ^ 61 \<le> maxVarInt8"
  by code_simp

end
