(* ===== verification/Received_History.thy ===== *)
theory Received_History
  imports Ack_Frame
begin

text \<open>
  The history of received packet numbers, from \<open>internal/ackhandler/received_packet_history.go\<close>.
  The linked list of intervals is a list from \<open>Front\<close> to \<open>Back\<close>; a loop that walks from \<open>Back\<close>
  with \<open>Prev\<close> recurses over the reversed list, whose head is the current element and whose second
  element is \<open>el.Prev()\<close>. The history denotes a set of packet numbers; the lemmas show that each
  operation implements its set operation and keeps the intervals sorted, disjoint and not adjacent.
\<close>

subsection \<open>State and operations\<close>

record interval =
  Start :: PacketNumber
  End :: PacketNumber

record receivedPacketHistory =
  ranges :: "interval list"
  deletedBelow :: PacketNumber

definition newReceivedPacketHistory :: receivedPacketHistory where
  "newReceivedPacketHistory = \<lparr>ranges = [], deletedBelow = 0\<rparr>"

text \<open>The loop of \<open>addToRanges\<close>, from the back; \<open>None\<close> when it runs past the front.\<close>

fun addToRanges_loop :: "PacketNumber \<Rightarrow> interval list \<Rightarrow> (interval list \<times> bool) option" where
  "addToRanges_loop p [] = None"
| "addToRanges_loop p (el # prevs) =
     (if p \<ge> Start el \<and> p \<le> End el then Some (el # prevs, False)
      else if End el = p - 1 then Some (el\<lparr>End := p\<rparr> # prevs, True)
      else if Start el = p + 1 then
        let el' = el\<lparr>Start := p\<rparr> in
        (case prevs of
           prev # prevs' \<Rightarrow>
             if End prev + 1 = Start el' then Some (prev\<lparr>End := End el'\<rparr> # prevs', True)
             else Some (el' # prevs, True)
         | [] \<Rightarrow> Some ([el'], True))
      else if p > End el then Some (\<lparr>Start = p, End = p\<rparr> # el # prevs, True)
      else map_option (\<lambda>(prevs, isNew). (el # prevs, isNew)) (addToRanges_loop p prevs))"

definition addToRanges :: "receivedPacketHistory \<Rightarrow> PacketNumber \<Rightarrow> receivedPacketHistory \<times> bool" where
  "addToRanges h p =
     (if length (ranges h) = 0 then (h\<lparr>ranges := [\<lparr>Start = p, End = p\<rparr>]\<rparr>, True)
      else case addToRanges_loop p (rev (ranges h)) of
        Some (rs, isNew) \<Rightarrow> (h\<lparr>ranges := rev rs\<rparr>, isNew)
      | None \<Rightarrow> (h\<lparr>ranges := \<lparr>Start = p, End = p\<rparr> # ranges h\<rparr>, True))"

fun deleteOldRanges_loop :: "interval list \<Rightarrow> interval list" where
  "deleteOldRanges_loop [] = []"
| "deleteOldRanges_loop (r # rs) =
     (if length (r # rs) > MaxNumAckRanges then deleteOldRanges_loop rs else r # rs)"

definition maybeDeleteOldRanges :: "receivedPacketHistory \<Rightarrow> receivedPacketHistory" where
  "maybeDeleteOldRanges h = h\<lparr>ranges := deleteOldRanges_loop (ranges h)\<rparr>"

definition ReceivedPacket :: "receivedPacketHistory \<Rightarrow> PacketNumber \<Rightarrow> receivedPacketHistory \<times> bool" where
  "ReceivedPacket h p =
     (if p < deletedBelow h then (h, False)
      else let (h, isNew) = addToRanges h p in (maybeDeleteOldRanges h, isNew))"

fun deleteBelow_loop :: "PacketNumber \<Rightarrow> interval list \<Rightarrow> interval list" where
  "deleteBelow_loop p [] = []"
| "deleteBelow_loop p (el # rs) =
     (if End el < p then deleteBelow_loop p rs
      else if p > Start el \<and> p \<le> End el then el\<lparr>Start := p\<rparr> # rs
      else el # rs)"

definition DeleteBelow :: "receivedPacketHistory \<Rightarrow> PacketNumber \<Rightarrow> receivedPacketHistory" where
  "DeleteBelow h p =
     (if p < deletedBelow h then h
      else h\<lparr>deletedBelow := p, ranges := deleteBelow_loop p (ranges h)\<rparr>)"

definition AppendAckRanges :: "receivedPacketHistory \<Rightarrow> AckRange list \<Rightarrow> AckRange list" where
  "AppendAckRanges h ackRanges =
     (if length (ranges h) > 0 then
        ackRanges @ map (\<lambda>el. \<lparr>Smallest = Start el, Largest = End el\<rparr>) (rev (ranges h))
      else ackRanges)"

definition GetHighestAckRange :: "receivedPacketHistory \<Rightarrow> AckRange" where
  "GetHighestAckRange h =
     (if length (ranges h) > 0 then
        let r = last (ranges h) in \<lparr>Smallest = Start r, Largest = End r\<rparr>
      else \<lparr>Smallest = 0, Largest = 0\<rparr>)"

fun potentiallyDuplicate_loop :: "PacketNumber \<Rightarrow> interval list \<Rightarrow> bool" where
  "potentiallyDuplicate_loop p [] = False"
| "potentiallyDuplicate_loop p (el # prevs) =
     (if p > End el then False
      else if p \<le> End el \<and> p \<ge> Start el then True
      else potentiallyDuplicate_loop p prevs)"

definition IsPotentiallyDuplicate :: "receivedPacketHistory \<Rightarrow> PacketNumber \<Rightarrow> bool" where
  "IsPotentiallyDuplicate h p =
     (if p < deletedBelow h then True else potentiallyDuplicate_loop p (rev (ranges h)))"

subsection \<open>Abstraction and invariant\<close>

text \<open>The packet numbers a list of intervals stands for.\<close>

definition covered :: "interval list \<Rightarrow> PacketNumber set" where
  "covered rs = {p. \<exists>r \<in> set rs. Start r \<le> p \<and> p \<le> End r}"

text \<open>Intervals in descending order, not empty, disjoint and with a gap between neighbours.\<close>

definition ordered :: "interval list \<Rightarrow> bool" where
  "ordered rs \<longleftrightarrow> (\<forall>r \<in> set rs. Start r \<le> End r) \<and> sorted_wrt (\<lambda>a b. End b + 1 < Start a) rs"

definition history_inv :: "receivedPacketHistory \<Rightarrow> bool" where
  "history_inv h \<longleftrightarrow> ordered (rev (ranges h)) \<and> length (ranges h) \<le> MaxNumAckRanges
     \<and> (\<forall>r \<in> set (ranges h). deletedBelow h \<le> Start r)"

text \<open>Registering a sequence of packets; the flags say which were reported as new.\<close>

fun registerAll :: "('h \<Rightarrow> PacketNumber \<Rightarrow> 'h \<times> bool) \<Rightarrow> 'h \<Rightarrow> PacketNumber list \<Rightarrow> 'h \<times> bool list" where
  "registerAll f h [] = (h, [])"
| "registerAll f h (p # ps) =
     (let (h, isNew) = f h p; (h, flags) = registerAll f h ps in (h, isNew # flags))"

text \<open>A condition on each step of such a sequence.\<close>

fun stepwise :: "('h \<Rightarrow> PacketNumber \<Rightarrow> bool) \<Rightarrow> ('h \<Rightarrow> PacketNumber \<Rightarrow> 'h \<times> bool) \<Rightarrow> 'h \<Rightarrow> PacketNumber list \<Rightarrow> bool" where
  "stepwise fits f h [] = True"
| "stepwise fits f h (p # ps) = (fits h p \<and> stepwise fits f (fst (f h p)) ps)"

text \<open>The packet is not below the deletion mark and registering it does not discard a range.\<close>

definition keepsAll :: "receivedPacketHistory \<Rightarrow> PacketNumber \<Rightarrow> bool" where
  "keepsAll h p \<longleftrightarrow> deletedBelow h \<le> p \<and> length (ranges (fst (addToRanges h p))) \<le> MaxNumAckRanges"

subsection \<open>Lemmas on intervals\<close>

lemma ordered_simps [simp]:
  "ordered []"
  "ordered (r # rs) \<longleftrightarrow> Start r \<le> End r \<and> (\<forall>a \<in> set rs. End a + 1 < Start r) \<and> ordered rs"
  by (auto simp: ordered_def)

lemma covered_simps [simp]:
  "covered [] = {}" "covered (r # rs) = {Start r..End r} \<union> covered rs"
  "covered (rev rs) = covered rs" "covered (rs @ qs) = covered rs \<union> covered qs"
  by (auto simp: covered_def)

lemma covered_less:
  "(\<And>a. a \<in> set rs \<Longrightarrow> End a < p) \<Longrightarrow> q \<in> covered rs \<Longrightarrow> q < p"
  by (force simp: covered_def)

lemma ordered_covered_less:
  "ordered (r # rs) \<Longrightarrow> q \<in> covered rs \<Longrightarrow> q + 1 < Start r"
  by (force simp: covered_def)

lemma covered_extend:
  assumes "ordered (el # prevs)"
  shows "End el = p - 1 \<Longrightarrow> covered (el\<lparr>End := p\<rparr> # prevs) = insert p (covered (el # prevs))"
    "Start el = p + 1 \<Longrightarrow> covered (el\<lparr>Start := p\<rparr> # prevs) = insert p (covered (el # prevs))"
    "Start el \<le> p + 1 \<Longrightarrow> p \<notin> {Start el..End el} \<Longrightarrow> p \<notin> covered (el # prevs)"
  using assms ordered_covered_less [OF assms, of p] by auto

lemma covered_merge:
  assumes "ordered (el # prev # prevs)" "Start el = p + 1" "End prev + 1 = p"
  shows "covered (prev\<lparr>End := End el\<rparr> # prevs) = insert p (covered (el # prev # prevs))"
  using assms by auto

lemma addToRanges_loop_spec:
  assumes "addToRanges_loop p rs = Some (rs', isNew)" "ordered rs"
  shows "ordered rs' \<and> covered rs' = insert p (covered rs) \<and> (isNew \<longleftrightarrow> p \<notin> covered rs)
    \<and> (\<forall>b. (\<forall>a \<in> set rs. End a < b) \<longrightarrow> p < b \<longrightarrow> (\<forall>a \<in> set rs'. End a < b))"
  using assms
proof (induction p rs arbitrary: rs' isNew rule: addToRanges_loop.induct)
  case (2 p el prevs)
  note o = "2.prems"(2) and cov = covered_extend [OF "2.prems"(2)]
  consider "p \<ge> Start el \<and> p \<le> End el" | "End el = p - 1" | "Start el = p + 1"
    | "End el < p - 1" | "p + 1 < Start el" by linarith
  then show ?case
  proof cases
    case 1
    with 2 show ?thesis by auto
  next
    case 2
    with "2.prems"(1) have "rs' = el\<lparr>End := p\<rparr> # prevs" "isNew" by auto
    with 2 o cov(1,3) [of p] show ?thesis by simp
  next
    case 3
    then have "p \<notin> covered (el # prevs)" using cov(3) by simp
    moreover from 3 "2.prems"(1) o have "isNew" and
      "rs' = el\<lparr>Start := p\<rparr> # prevs \<and> (\<forall>prev prevs'. prevs = prev # prevs' \<longrightarrow> End prev + 1 \<noteq> p)
       \<or> (\<exists>prev prevs'. prevs = prev # prevs' \<and> End prev + 1 = p \<and> rs' = prev\<lparr>End := End el\<rparr> # prevs')"
      by (auto simp: Let_def split: list.splits if_splits)
    moreover have "ordered (el\<lparr>Start := p\<rparr> # prevs)" if "\<forall>prev prevs'. prevs = prev # prevs' \<longrightarrow> End prev + 1 \<noteq> p"
      using that o 3 by (cases prevs) force+
    ultimately show ?thesis
      using 3 o cov(2) [of p] covered_merge [of el _ _ p] by (elim disjE) (auto simp del: covered_simps)
  next
    case 4
    with "2.prems"(1) o have "rs' = \<lparr>Start = p, End = p\<rparr> # el # prevs" "isNew" by auto
    with 4 o cov(3) [of p] show ?thesis by auto
  next
    case 5
    with "2.prems" obtain rs1 where rs1: "addToRanges_loop p prevs = Some (rs1, isNew)" "rs' = el # rs1"
      by (auto split: if_splits)
    have IH: "ordered rs1 \<and> covered rs1 = insert p (covered prevs) \<and> (isNew \<longleftrightarrow> p \<notin> covered prevs)
      \<and> (\<forall>b. (\<forall>a \<in> set prevs. End a < b) \<longrightarrow> p < b \<longrightarrow> (\<forall>a \<in> set rs1. End a < b))"
      using 5 o by (intro "2.IH" rs1(1)) auto
    then have "\<And>b. (\<forall>a \<in> set prevs. End a < b) \<Longrightarrow> p < b \<Longrightarrow> (\<forall>a \<in> set rs1. End a < b)" by blast
    moreover from 5 o have "\<forall>a \<in> set prevs. End a < Start el - 1" "p < Start el - 1" by auto
    ultimately have "\<forall>a \<in> set rs1. End a < Start el - 1" by blast
    with IH show ?thesis using 5 o rs1(2) by auto
  qed
qed simp


lemma addToRanges_loop_None: "addToRanges_loop p rs = None \<Longrightarrow> \<forall>a \<in> set rs. p + 1 < Start a"
  by (induction rs) (auto simp: Let_def split: if_splits list.splits)

lemma ordered_append:
  "ordered (rs @ qs) \<longleftrightarrow> ordered rs \<and> ordered qs \<and> (\<forall>a \<in> set rs. \<forall>b \<in> set qs. End b + 1 < Start a)"
  by (auto simp: ordered_def sorted_wrt_append)

lemma covered_Start:
  "ordered rs \<Longrightarrow> r \<in> set rs \<Longrightarrow> Start r \<in> covered rs"
  by (auto simp: ordered_def covered_def)

lemma le_Start_iff:
  "ordered rs \<Longrightarrow> (\<forall>r \<in> set rs. d \<le> Start r) \<longleftrightarrow> (\<forall>q \<in> covered rs. d \<le> q)"
  by (force simp: covered_def ordered_def)

lemma addToRanges_spec:
  assumes "addToRanges h p = (h', isNew)" "ordered (rev (ranges h))"
  shows "ordered (rev (ranges h')) \<and> covered (ranges h') = insert p (covered (ranges h))
    \<and> (isNew \<longleftrightarrow> p \<notin> covered (ranges h)) \<and> deletedBelow h' = deletedBelow h"
proof (cases "addToRanges_loop p (rev (ranges h))")
  case None
  have "p \<notin> covered (ranges h)" "\<forall>a \<in> set (ranges h). p + 1 < Start a"
    using addToRanges_loop_None [OF None] by (force simp: covered_def)+
  with None assms show ?thesis by (auto simp: addToRanges_def ordered_append split: if_splits)
next
  case (Some res)
  with assms addToRanges_loop_spec [of p "rev (ranges h)"] show ?thesis
    by (cases res) (auto simp: addToRanges_def split: if_splits)
qed

lemma deleteOldRanges_drop: "deleteOldRanges_loop rs = drop (length rs - MaxNumAckRanges) rs"
  by (induction rs) (auto simp: Suc_diff_le)

lemma deleteBelow_loop_spec:
  assumes "ordered (rev rs)"
  shows "ordered (rev (deleteBelow_loop p rs)) \<and> covered (deleteBelow_loop p rs) = covered rs \<inter> {p..}
    \<and> length (deleteBelow_loop p rs) \<le> length rs"
  using assms
proof (induction rs)
  case (Cons el rs)
  have o: "ordered (rev rs)" "Start el \<le> End el" "\<forall>a \<in> set rs. End el + 1 < Start a"
    using Cons.prems by (auto simp: ordered_append)
  have above: "End el < q" if "q \<in> covered rs" for q using that o(3) by (force simp: covered_def)
  consider "End el < p" | "p > Start el" "p \<le> End el" | "p \<le> Start el" by linarith
  then show ?case
  proof cases
    case 1
    then have "{Start el..End el} \<inter> {p..} = {}" by auto
    with 1 Cons.IH [OF o(1)] show ?thesis by (simp add: Int_Un_distrib2 le_SucI)
  next
    case 2
    then have "covered rs \<inter> {p..} = covered rs" "{Start el..End el} \<inter> {p..} = {p..End el}"
      using above by force+
    with 2 o show ?thesis by (simp add: ordered_append Int_Un_distrib2)
  next
    case 3
    then have "covered rs \<inter> {p..} = covered rs" "{Start el..End el} \<inter> {p..} = {Start el..End el}"
      using above o(2) by force+
    with 3 o show ?thesis by (simp add: ordered_append Int_Un_distrib2)
  qed
qed simp

lemma covered_ge: "(\<And>r. r \<in> set rs \<Longrightarrow> d \<le> Start r) \<Longrightarrow> q \<in> covered rs \<Longrightarrow> d \<le> q"
  by (force simp: covered_def)

lemma covered_take_drop: "covered rs = covered (take k rs) \<union> covered (drop k rs)"
  by (metis append_take_drop_id covered_simps(4))

lemma ordered_take_drop:
  assumes "ordered (rev rs)"
  shows "ordered (rev (drop k rs))" "q \<in> covered (take k rs) \<Longrightarrow> x \<in> covered (drop k rs) \<Longrightarrow> q < x"
proof -
  have "ordered (rev (drop k rs) @ rev (take k rs))"
    using assms by (metis append_take_drop_id rev_append)
  then have o: "ordered (rev (drop k rs))" "\<forall>a \<in> set (drop k rs). \<forall>b \<in> set (take k rs). End b + 1 < Start a"
    by (auto simp: ordered_append)
  then show "ordered (rev (drop k rs))" by simp
  show "q < x" if "q \<in> covered (take k rs)" "x \<in> covered (drop k rs)"
    using that o(2) by (force simp: covered_def)
qed

text \<open>
  The abstract behaviour of registering a packet: what it reports, what the set becomes, and that
  whatever is discarded lies below everything that is kept.
\<close>

lemma ReceivedPacket_spec:
  assumes r: "ReceivedPacket h p = (h', isNew)" and h: "history_inv h"
  shows "history_inv h' \<and> deletedBelow h' = deletedBelow h
    \<and> (isNew \<longleftrightarrow> deletedBelow h \<le> p \<and> p \<notin> covered (ranges h))
    \<and> covered (ranges h') \<subseteq> insert p (covered (ranges h))
    \<and> (deletedBelow h \<le> p \<longrightarrow> (\<forall>q \<in> insert p (covered (ranges h)) - covered (ranges h').
          \<forall>x \<in> covered (ranges h'). q < x))
    \<and> (keepsAll h p \<longrightarrow> covered (ranges h') = insert p (covered (ranges h)))"
proof (cases "p < deletedBelow h")
  case True
  with r h show ?thesis by (auto simp: ReceivedPacket_def keepsAll_def)
next
  case False
  obtain h1 new where a: "addToRanges h p = (h1, new)" by fastforce
  let ?k = "length (ranges h1) - MaxNumAckRanges"
  from r a False have new: "new = isNew" and h': "h' = h1\<lparr>ranges := drop ?k (ranges h1)\<rparr>"
    by (auto simp: ReceivedPacket_def maybeDeleteOldRanges_def deleteOldRanges_drop)
  note s = addToRanges_spec [OF a]
  have o: "ordered (rev (ranges h1))" "covered (ranges h1) = insert p (covered (ranges h))"
    "isNew \<longleftrightarrow> p \<notin> covered (ranges h)" "deletedBelow h1 = deletedBelow h"
    using s h new by (auto simp: history_inv_def)
  note td = covered_take_drop [of "ranges h1" ?k] ordered_take_drop(1) [OF o(1), of ?k]
    ordered_take_drop(2) [OF o(1), of _ ?k]
  have "deletedBelow h \<le> q" if "q \<in> covered (ranges h)" for q
    using h by (intro covered_ge [OF _ that]) (simp add: history_inv_def)
  then have "\<forall>q \<in> covered (ranges h1). deletedBelow h \<le> q" using False unfolding o(2) by simp
  then have "\<forall>r \<in> set (ranges h1). deletedBelow h \<le> Start r"
    using le_Start_iff [OF o(1), of "deletedBelow h"] by simp
  then have "history_inv h'" using o td(2) by (auto simp: h' history_inv_def dest: in_set_dropD)
  moreover have "covered (ranges h') \<subseteq> insert p (covered (ranges h))"
    "\<forall>q \<in> insert p (covered (ranges h)) - covered (ranges h'). \<forall>x \<in> covered (ranges h'). q < x"
    using td o(2) by (auto simp: h')
  moreover have "keepsAll h p \<Longrightarrow> covered (ranges h') = insert p (covered (ranges h))"
    using a o(2) by (simp add: keepsAll_def h')
  ultimately show ?thesis using False o by (simp add: h')
qed

lemma DeleteBelow_spec:
  assumes "history_inv h"
  shows "history_inv (DeleteBelow h p) \<and> deletedBelow (DeleteBelow h p) = max p (deletedBelow h)
    \<and> covered (ranges (DeleteBelow h p)) = covered (ranges h) \<inter> {max p (deletedBelow h)..}"
proof -
  have o: "ordered (rev (ranges h))" "\<forall>r \<in> set (ranges h). deletedBelow h \<le> Start r"
    using assms by (auto simp: history_inv_def)
  have ge: "deletedBelow h \<le> q" if "q \<in> covered (ranges h)" for q
    using o(2) by (intro covered_ge [OF _ that]) simp
  show ?thesis
  proof (cases "p < deletedBelow h")
    case True
    then have "covered (ranges h) \<inter> {deletedBelow h..} = covered (ranges h)" using ge by auto
    with True assms show ?thesis by (simp add: DeleteBelow_def max_def)
  next
    case False
    let ?rs = "deleteBelow_loop p (ranges h)"
    have d: "ordered (rev ?rs)" "covered ?rs = covered (ranges h) \<inter> {p..}" "length ?rs \<le> length (ranges h)"
      using deleteBelow_loop_spec [OF o(1), of p] by auto
    then have "\<forall>r \<in> set ?rs. p \<le> Start r" using le_Start_iff [OF d(1), of p] by simp
    with False assms d show ?thesis
      by (auto simp: DeleteBelow_def history_inv_def max_def)
  qed
qed

lemma ackRanges_valid:
  assumes "ordered rs" "rs \<noteq> []"
  shows "validateAckRanges (f\<lparr>AckRanges := map (\<lambda>el. \<lparr>Smallest = Start el, Largest = End el\<rparr>) rs\<rparr>)"
  using assms by (auto simp: validateAckRanges_iff ordered_def sorted_wrt_map)

lemma potentiallyDuplicate_loop_iff:
  "ordered rs \<Longrightarrow> potentiallyDuplicate_loop p rs \<longleftrightarrow> p \<in> covered rs"
proof (induction rs)
  case (Cons el rs)
  then show ?case using ordered_covered_less [OF Cons.prems, of p] by auto
qed simp

lemma IsPotentiallyDuplicate_iff:
  "history_inv h \<Longrightarrow> IsPotentiallyDuplicate h p \<longleftrightarrow> p < deletedBelow h \<or> p \<in> covered (ranges h)"
  using potentiallyDuplicate_loop_iff [of "rev (ranges h)" p]
  by (auto simp: IsPotentiallyDuplicate_def history_inv_def)

subsection \<open>Registers of packet numbers\<close>

text \<open>
  The contract between a register of received packet numbers and its clients: while no number is
  discarded, each registration adds the number to the contents and reports whether it was there.
\<close>

locale packet_register =
  fixes inv :: "'h \<Rightarrow> bool" and contents :: "'h \<Rightarrow> PacketNumber set"
    and register :: "'h \<Rightarrow> PacketNumber \<Rightarrow> 'h \<times> bool" and fits :: "'h \<Rightarrow> PacketNumber \<Rightarrow> bool"
  assumes register_step: "inv h \<Longrightarrow> fits h p \<Longrightarrow> register h p = (h', isNew) \<Longrightarrow>
    inv h' \<and> contents h' = insert p (contents h) \<and> (isNew \<longleftrightarrow> p \<notin> contents h)"
begin

lemma registerAll_flags:
  assumes "inv h" "stepwise fits register h ps" "registerAll register h ps = (h', flags)"
  shows "inv h' \<and> contents h' = contents h \<union> set ps \<and> length flags = length ps
    \<and> (\<forall>i < length ps. flags ! i \<longleftrightarrow> ps ! i \<notin> contents h \<union> set (take i ps))"
  using assms
proof (induction ps arbitrary: h flags)
  case (Cons p ps)
  obtain h1 new where s: "register h p = (h1, new)" by fastforce
  obtain fl where r: "registerAll register h1 ps = (h', fl)" "flags = new # fl"
    using Cons.prems(3) s by (auto split: prod.splits)
  have step: "inv h1" "contents h1 = insert p (contents h)" "new \<longleftrightarrow> p \<notin> contents h"
    using register_step [OF Cons.prems(1) _ s] Cons.prems(2) by auto
  have IH: "inv h' \<and> contents h' = contents h1 \<union> set ps \<and> length fl = length ps
    \<and> (\<forall>i < length ps. fl ! i \<longleftrightarrow> ps ! i \<notin> contents h1 \<union> set (take i ps))"
    using Cons.IH [OF step(1) _ r(1)] Cons.prems(2) s by simp
  have "flags ! i \<longleftrightarrow> (p # ps) ! i \<notin> contents h \<union> set (take i (p # ps))" if "i < length (p # ps)" for i
    using that IH step r(2) by (cases i) auto
  with IH step r(2) show ?case by auto
qed simp

lemma registered_once:
  assumes "inv h" "stepwise fits register h ps" "registerAll register h ps = (h', flags)"
    "i < j" "j < length ps" "ps ! i = ps ! j"
  shows "\<not> flags ! j"
proof -
  have "ps ! j \<in> set (take j ps)" using assms(4-6) by (auto simp: in_set_conv_nth intro!: exI [of _ i])
  with registerAll_flags [OF assms(1-3)] assms(5) show ?thesis by auto
qed

end

interpretation history: packet_register history_inv "\<lambda>h. covered (ranges h)" ReceivedPacket keepsAll
proof
  fix h p h' isNew
  assume "history_inv h" "keepsAll h p" "ReceivedPacket h p = (h', isNew)"
  then show "history_inv h' \<and> covered (ranges h') = insert p (covered (ranges h))
      \<and> (isNew \<longleftrightarrow> p \<notin> covered (ranges h))"
    using ReceivedPacket_spec [of h p h' isNew] by (simp add: keepsAll_def)
qed

subsection \<open>Properties\<close>

lemma newReceivedPacketHistory_inv: "history_inv newReceivedPacketHistory"
  by (simp add: history_inv_def newReceivedPacketHistory_def)

text \<open>
  C10. Registering a packet number keeps the intervals sorted, disjoint, not adjacent and at most 32.
  It reports a new packet exactly when the number is neither below the deletion mark nor in the
  tracked set. The set grows by at most this number, and what is discarded to stay within the limit
  is lower than everything kept.
\<close>

theorem ReceivedPacket_correct:
  assumes "history_inv h" "ReceivedPacket h p = (h', isNew)"
  shows "history_inv h' \<and> (isNew \<longleftrightarrow> deletedBelow h \<le> p \<and> p \<notin> covered (ranges h))
    \<and> covered (ranges h') \<subseteq> insert p (covered (ranges h))
    \<and> (deletedBelow h \<le> p \<longrightarrow> (\<forall>q \<in> insert p (covered (ranges h)) - covered (ranges h').
          \<forall>x \<in> covered (ranges h'). q < x))
    \<and> (keepsAll h p \<longrightarrow> covered (ranges h') = insert p (covered (ranges h)))"
  using ReceivedPacket_spec [OF assms(2,1)] by simp

theorem ReceivedPacket_correct_witness:
  "ReceivedPacket \<lparr>ranges = [\<lparr>Start = 1, End = 3\<rparr>, \<lparr>Start = 5, End = 6\<rparr>], deletedBelow = 0\<rparr> 4
     = (\<lparr>ranges = [\<lparr>Start = 1, End = 6\<rparr>], deletedBelow = 0\<rparr>, True)
   \<and> history_inv \<lparr>ranges = [\<lparr>Start = 1, End = 6\<rparr>], deletedBelow = 0\<rparr>"
proof -
  let ?h = "\<lparr>ranges = [\<lparr>Start = 1, End = 3\<rparr>, \<lparr>Start = 5, End = 6\<rparr>], deletedBelow = 0\<rparr>"
  have i: "history_inv ?h" by (simp add: history_inv_def MaxNumAckRanges_def)
  have r: "ReceivedPacket ?h 4 = (\<lparr>ranges = [\<lparr>Start = 1, End = 6\<rparr>], deletedBelow = 0\<rparr>, True)" by code_simp
  from ReceivedPacket_correct [OF i r] r show ?thesis by simp
qed

text \<open>
  Along any sequence of registrations that does not discard a range, the flag of each packet is
  true exactly for the first occurrence of its number, so no number is reported as new twice.
\<close>

theorem duplicates_detected:
  assumes "stepwise keepsAll ReceivedPacket newReceivedPacketHistory ps"
    and "registerAll ReceivedPacket newReceivedPacketHistory ps = (h, flags)"
  shows "length flags = length ps \<and> covered (ranges h) = set ps
    \<and> (\<forall>i < length ps. flags ! i \<longleftrightarrow> ps ! i \<notin> set (take i ps))"
  using history.registerAll_flags [OF newReceivedPacketHistory_inv assms]
  by (simp add: newReceivedPacketHistory_def)

theorem duplicates_detected_witness:
  "snd (registerAll ReceivedPacket newReceivedPacketHistory [3, 1, 2, 1, 3]) ! 3 = False"
proof -
  have s: "stepwise keepsAll ReceivedPacket newReceivedPacketHistory [3, 1, 2, 1, 3]" by code_simp
  show ?thesis
    using duplicates_detected [OF s, of "fst (registerAll ReceivedPacket newReceivedPacketHistory [3, 1, 2, 1, 3])"
      "snd (registerAll ReceivedPacket newReceivedPacketHistory [3, 1, 2, 1, 3])"]
    by (auto simp: numeral_nat)
qed

text \<open>
  \<open>DeleteBelow\<close> removes exactly the numbers below the mark, cutting an interval that contains
  it, never moves the mark back, and keeps the invariant.
\<close>

theorem DeleteBelow_correct:
  assumes "history_inv h"
  shows "history_inv (DeleteBelow h p) \<and> deletedBelow (DeleteBelow h p) = max p (deletedBelow h)
    \<and> covered (ranges (DeleteBelow h p)) = covered (ranges h) \<inter> {max p (deletedBelow h)..}"
  using DeleteBelow_spec [OF assms] .

theorem DeleteBelow_correct_witness:
  "covered (ranges (DeleteBelow \<lparr>ranges = [\<lparr>Start = 1, End = 3\<rparr>, \<lparr>Start = 5, End = 8\<rparr>], deletedBelow = 0\<rparr> 6)) = {6..8}"
  by (subst DeleteBelow_correct [THEN conjunct2, THEN conjunct2])
    (auto simp: history_inv_def MaxNumAckRanges_def)

text \<open>
  The ranges that \<open>AppendAckRanges\<close> produces for a nonempty history pass the validity check of
  ACK frames and acknowledge exactly the tracked packet numbers; a frame built from them answers
  \<open>AcksPacket\<close> for every number.
\<close>

theorem AppendAckRanges_exact:
  assumes "history_inv h" "ranges h \<noteq> []"
  shows "validateAckRanges (f\<lparr>AckRanges := AppendAckRanges h []\<rparr>)
    \<and> AcksPacket (f\<lparr>AckRanges := AppendAckRanges h []\<rparr>) p = Inr (p \<in> covered (ranges h))
    \<and> length (AppendAckRanges h []) \<le> MaxNumAckRanges"
proof -
  have v: "validateAckRanges (f\<lparr>AckRanges := AppendAckRanges h []\<rparr>)"
    using assms ackRanges_valid [of "rev (ranges h)" f] by (simp add: history_inv_def AppendAckRanges_def)
  have "ackedBy (AppendAckRanges h []) p \<longleftrightarrow> p \<in> covered (ranges h)"
    using assms(2) by (auto simp: ackedBy_def AppendAckRanges_def covered_def)
  with v AcksPacket_ackedBy [OF v] assms show ?thesis
    by (simp add: history_inv_def AppendAckRanges_def)
qed

theorem AppendAckRanges_exact_witness:
  "AcksPacket (emptyAckFrame\<lparr>AckRanges := AppendAckRanges
     \<lparr>ranges = [\<lparr>Start = 1, End = 3\<rparr>, \<lparr>Start = 5, End = 8\<rparr>], deletedBelow = 0\<rparr> []\<rparr>) 4 = Inr False"
  by (subst AppendAckRanges_exact [THEN conjunct2, THEN conjunct1])
    (auto simp: history_inv_def MaxNumAckRanges_def)

text \<open>
  \<open>IsPotentiallyDuplicate\<close> holds exactly for the numbers below the deletion mark and those in
  the tracked set: precisely the numbers that \<open>ReceivedPacket\<close> reports as not new.
\<close>

theorem IsPotentiallyDuplicate_correct:
  assumes "history_inv h"
  shows "(IsPotentiallyDuplicate h p \<longleftrightarrow> p < deletedBelow h \<or> p \<in> covered (ranges h))
    \<and> (IsPotentiallyDuplicate h p \<longleftrightarrow> \<not> snd (ReceivedPacket h p))"
  using IsPotentiallyDuplicate_iff [OF assms] assms
    ReceivedPacket_spec [of h p "fst (ReceivedPacket h p)" "snd (ReceivedPacket h p)"] by auto

theorem IsPotentiallyDuplicate_correct_witness:
  "IsPotentiallyDuplicate \<lparr>ranges = [\<lparr>Start = 5, End = 8\<rparr>], deletedBelow = 4\<rparr> 3
   \<and> \<not> IsPotentiallyDuplicate \<lparr>ranges = [\<lparr>Start = 5, End = 8\<rparr>], deletedBelow = 4\<rparr> 4"
  using IsPotentiallyDuplicate_correct [of "\<lparr>ranges = [\<lparr>Start = 5, End = 8\<rparr>], deletedBelow = 4\<rparr>"]
  by (simp add: history_inv_def MaxNumAckRanges_def)

lemma addToRanges_beyond:
  assumes "ranges h \<noteq> []" "\<forall>r \<in> set (ranges h). Start r \<le> End r \<and> End r + 1 < p"
  shows "addToRanges h p = (h\<lparr>ranges := ranges h @ [\<lparr>Start = p, End = p\<rparr>]\<rparr>, True)"
proof -
  obtain el prevs where e: "rev (ranges h) = el # prevs" using assms(1) by (cases "rev (ranges h)") auto
  then have "Start el \<le> End el" "End el + 1 < p" using assms(2) by (metis list.set_intros(1) set_rev)+
  then have "addToRanges_loop p (rev (ranges h)) = Some (\<lparr>Start = p, End = p\<rparr> # rev (ranges h), True)" unfolding e by simp
  with assms(1) show ?thesis by (simp add: addToRanges_def)
qed

text \<open>
  C40. Discarding old ranges does not move the deletion mark. When the history holds its maximum number of ranges
  and a packet arrives beyond a further gap, every packet of the lowest range, known before, passes the
  duplicate check afterwards and is reported as new a second time.
\<close>

theorem duplicate_reported_new:
  assumes "history_inv h" "ranges h = lo # rs" "length (ranges h) = MaxNumAckRanges"
    "\<forall>r \<in> set (ranges h). End r + 1 < p" "Start lo \<le> q" "q \<le> End lo"
  shows "\<not> snd (ReceivedPacket h q) \<and> \<not> IsPotentiallyDuplicate (fst (ReceivedPacket h p)) q
    \<and> snd (ReceivedPacket (fst (ReceivedPacket h p)) q)"
proof -
  have "\<forall>r \<in> set (ranges h). Start r \<le> End r" using assms(1) by (auto simp: history_inv_def ordered_def)
  moreover have "\<forall>r \<in> set rs. End lo + 1 < Start r" "deletedBelow h \<le> Start lo"
    using assms(1,2) by (auto simp: history_inv_def ordered_append)
  ultimately have o: "\<forall>r \<in> set (ranges h). Start r \<le> End r" "\<forall>r \<in> set rs. End lo + 1 < Start r" "deletedBelow h \<le> Start lo" .
  have "deletedBelow h \<le> p" using o assms(2,4) by fastforce
  then have r: "ReceivedPacket h p = (h\<lparr>ranges := rs @ [\<lparr>Start = p, End = p\<rparr>]\<rparr>, True)"
    using addToRanges_beyond [of h p] assms(2-4) o(1)
    by (auto simp: ReceivedPacket_def maybeDeleteOldRanges_def deleteOldRanges_drop)
  have q: "q \<in> covered (ranges h)" "deletedBelow h \<le> q" using assms(2,5,6) o(3) by auto
  have nq: "q \<notin> covered (rs @ [\<lparr>Start = p, End = p\<rparr>])" using o(2) assms(2,4,6) by (fastforce simp: covered_def)
  have inv: "history_inv (fst (ReceivedPacket h p))" using ReceivedPacket_spec [OF r assms(1)] r by simp
  obtain h1 n1 h2 n2 where s: "ReceivedPacket h q = (h1, n1)" "ReceivedPacket (fst (ReceivedPacket h p)) q = (h2, n2)" by fastforce
  show ?thesis using ReceivedPacket_spec [OF s(1) assms(1)] ReceivedPacket_spec [OF s(2) inv] IsPotentiallyDuplicate_iff [OF inv, of q] s q nq
    by (simp add: r)
qed

theorem duplicate_reported_new_witness:
  "\<not> IsPotentiallyDuplicate (fst (ReceivedPacket \<lparr>ranges = map (\<lambda>i. \<lparr>Start = 3 * int i, End = 3 * int i + 1\<rparr>) [0..<32], deletedBelow = 0\<rparr> 100)) 1"
proof -
  let ?h = "\<lparr>ranges = map (\<lambda>i. \<lparr>Start = 3 * int i, End = 3 * int i + 1\<rparr>) [0..<32], deletedBelow = 0\<rparr>"
  have "history_inv ?h" by code_simp
  moreover have "ranges ?h = \<lparr>Start = 0, End = 1\<rparr> # tl (ranges ?h)" by code_simp
  moreover have "length (ranges ?h) = MaxNumAckRanges" by (simp add: MaxNumAckRanges_def)
  moreover have "\<forall>r \<in> set (ranges ?h). End r + 1 < 100" by auto
  ultimately show ?thesis using duplicate_reported_new [of ?h "\<lparr>Start = 0, End = 1\<rparr>" "tl (ranges ?h)" 100 1] by simp
qed

end
