(* ===== verification/Received_Tracker.thy ===== *)
theory Received_Tracker
  imports Received_History
begin

text \<open>
  When to acknowledge: \<open>internal/ackhandler/received_packet_tracker.go\<close>. The tracker of one packet
  number space holds the history, the ECN counters, the ACK alarm and the last ACK frame. The clock
  that \<open>GetAckFrame\<close> reads is an argument. The RTT statistics and the logger that the source stores
  are not used by any decision and are left out. The frame that \<open>GetAckFrame\<close> returns is the struct
  kept in \<open>lastAck\<close>; a caller that changes it changes the tracker too.
\<close>

subsection \<open>State and operations\<close>

definition packetsBeforeAck :: int where "packetsBeforeAck = 2"

record receivedPacketTracker =
  largestObserved :: PacketNumber
  ignoreBelow :: PacketNumber
  largestObservedRcvdTime :: "time"
  ect0 :: u64
  ect1 :: u64
  ecnce :: u64
  packetHistory :: receivedPacketHistory
  maxAckDelay :: duration
  hasNewAck :: bool
  ackQueued :: bool
  ackElicitingPacketsReceivedSinceLastAck :: int
  ackAlarm :: "time"
  lastAck :: "AckFrame option"

definition newReceivedPacketTracker :: receivedPacketTracker where
  "newReceivedPacketTracker =
     \<lparr>largestObserved = 0, ignoreBelow = 0, largestObservedRcvdTime = 0, ect0 = 0, ect1 = 0, ecnce = 0,
      packetHistory = newReceivedPacketHistory, maxAckDelay = MaxAckDelay, hasNewAck = False,
      ackQueued = False, ackElicitingPacketsReceivedSinceLastAck = 0, ackAlarm = 0, lastAck = None\<rparr>"

definition isMissing :: "receivedPacketTracker \<Rightarrow> PacketNumber \<Rightarrow> bool result" where
  "isMissing h p =
     (case lastAck h of
        None \<Rightarrow> Inr False
      | Some ack \<Rightarrow>
          if p < ignoreBelow h then Inr False
          else bindE (LargestAcked ack) (\<lambda>largest.
            if p < largest then bindE (AcksPacket ack p) (\<lambda>acks. Inr (\<not> acks)) else Inr False))"

definition hasNewMissingPackets :: "receivedPacketTracker \<Rightarrow> bool result" where
  "hasNewMissingPackets h =
     (case lastAck h of
        None \<Rightarrow> Inr False
      | Some ack \<Rightarrow>
          let highestRange = GetHighestAckRange (packetHistory h) in
          bindE (LargestAcked ack) (\<lambda>largest.
          Inr (Smallest highestRange > largest + 1 \<and> AckRange_Len highestRange = 1)))"

definition maybeQueueACK ::
  "receivedPacketTracker \<Rightarrow> PacketNumber \<Rightarrow> time \<Rightarrow> bool \<Rightarrow> receivedPacketTracker result" where
  "maybeQueueACK h pn rcvTime wasMissing =
     (if lastAck h = None then Inr (h\<lparr>ackQueued := True\<rparr>)
      else if ackQueued h then Inr h
      else
        let h = h\<lparr>ackElicitingPacketsReceivedSinceLastAck := ackElicitingPacketsReceivedSinceLastAck h + 1\<rparr>;
            h = (if wasMissing then h\<lparr>ackQueued := True\<rparr> else h);
            h = (if ackElicitingPacketsReceivedSinceLastAck h \<ge> packetsBeforeAck then h\<lparr>ackQueued := True\<rparr>
                 else if time_IsZero (ackAlarm h) then h\<lparr>ackAlarm := time_Add rcvTime (maxAckDelay h)\<rparr>
                 else h)
        in bindE (hasNewMissingPackets h) (\<lambda>newMissing.
           let h = (if newMissing then h\<lparr>ackQueued := True\<rparr> else h);
               h = (if ackQueued h then h\<lparr>ackAlarm := 0\<rparr> else h)
           in Inr h))"

definition countECN :: "receivedPacketTracker \<Rightarrow> ECN \<Rightarrow> receivedPacketTracker" where
  "countECN h ecn =
     (case ecn of
        ECT0 \<Rightarrow> h\<lparr>ect0 := ect0 h + 1\<rparr>
      | ECT1 \<Rightarrow> h\<lparr>ect1 := ect1 h + 1\<rparr>
      | ECNCE \<Rightarrow> h\<lparr>ecnce := ecnce h + 1\<rparr>
      | _ \<Rightarrow> h)"

definition tracker_ReceivedPacket ::
  "receivedPacketTracker \<Rightarrow> PacketNumber \<Rightarrow> ECN \<Rightarrow> time \<Rightarrow> bool \<Rightarrow> receivedPacketTracker \<times> unit result" where
  "tracker_ReceivedPacket h pn ecn rcvTime ackEliciting =
     (let (hist, isNew) = ReceivedPacket (packetHistory h) pn;
          h = h\<lparr>packetHistory := hist\<rparr> in
      if \<not> isNew then (h, Inl (Err ''recevedPacketTracker BUG: ReceivedPacket called for old / duplicate packet''))
      else case isMissing h pn of
        Inl e \<Rightarrow> (h, Inl e)
      | Inr missing \<Rightarrow>
          let h = (if pn \<ge> largestObserved h then h\<lparr>largestObserved := pn, largestObservedRcvdTime := rcvTime\<rparr> else h);
              h = (if ackEliciting then h\<lparr>hasNewAck := True\<rparr> else h)
          in case (if ackEliciting then maybeQueueACK h pn rcvTime missing else Inr h) of
               Inl e \<Rightarrow> (h, Inl e)
             | Inr h \<Rightarrow> (countECN h ecn, Inr ()))"

definition IgnoreBelow :: "receivedPacketTracker \<Rightarrow> PacketNumber \<Rightarrow> receivedPacketTracker" where
  "IgnoreBelow h pn =
     (if pn \<le> ignoreBelow h then h
      else h\<lparr>ignoreBelow := pn, packetHistory := DeleteBelow (packetHistory h) pn\<rparr>)"

definition tracker_GetAckFrame ::
  "receivedPacketTracker \<Rightarrow> time \<Rightarrow> bool \<Rightarrow> receivedPacketTracker \<times> AckFrame option" where
  "tracker_GetAckFrame h now onlyIfQueued =
     (if \<not> hasNewAck h then (h, None)
      else if onlyIfQueued \<and> \<not> ackQueued h \<and> (time_IsZero (ackAlarm h) \<or> ackAlarm h > now) then (h, None)
      else
        let ack = (case lastAck h of None \<Rightarrow> emptyAckFrame | Some ack \<Rightarrow> ack);
            ack = AckFrame_Reset ack;
            ack = ack\<lparr>DelayTime := max 0 (time_Sub now (largestObservedRcvdTime h)),
                      fECT0 := ect0 h, fECT1 := ect1 h, fECNCE := ecnce h,
                      AckRanges := AppendAckRanges (packetHistory h) (AckRanges ack)\<rparr>
        in (h\<lparr>lastAck := Some ack, ackAlarm := 0, ackQueued := False, hasNewAck := False,
              ackElicitingPacketsReceivedSinceLastAck := 0\<rparr>, Some ack))"

definition tracker_GetAlarmTimeout :: "receivedPacketTracker \<Rightarrow> time" where
  "tracker_GetAlarmTimeout h = ackAlarm h"

definition tracker_IsPotentiallyDuplicate :: "receivedPacketTracker \<Rightarrow> PacketNumber \<Rightarrow> bool" where
  "tracker_IsPotentiallyDuplicate h pn = IsPotentiallyDuplicate (packetHistory h) pn"

text \<open>
  The tracker invariant: the last ACK frame is valid; a pending acknowledgement is either queued or has
  its alarm set, never both; and fewer than two ack-eliciting packets wait for the alarm.
\<close>

definition tracker_inv :: "receivedPacketTracker \<Rightarrow> bool" where
  "tracker_inv h \<longleftrightarrow> history_inv (packetHistory h)
     \<and> (\<forall>f. lastAck h = Some f \<longrightarrow> validateAckRanges f)
     \<and> (hasNewAck h \<longleftrightarrow> ackQueued h \<or> ackAlarm h \<noteq> 0)
     \<and> \<not> (ackQueued h \<and> ackAlarm h \<noteq> 0)
     \<and> (\<not> ackQueued h \<longrightarrow> ackElicitingPacketsReceivedSinceLastAck h = (if ackAlarm h \<noteq> 0 then 1 else 0))
     \<and> (lastAck h = None \<longrightarrow> ackAlarm h = 0)
     \<and> maxAckDelay h = MaxAckDelay"

text \<open>
  The tracker as a transition system: packets arrive, the sender asks for an ACK frame, and packet
  numbers below a confirmed ACK are dropped. An ACK frame is asked for only while the history holds
  a packet number.
\<close>

inductive tracker_step :: "receivedPacketTracker \<Rightarrow> receivedPacketTracker \<Rightarrow> bool" where
  receive: "0 < rcvTime \<Longrightarrow> tracker_step h (fst (tracker_ReceivedPacket h pn ecn rcvTime ackEliciting))"
| getAck: "ranges (packetHistory h) \<noteq> [] \<Longrightarrow> tracker_step h (fst (tracker_GetAckFrame h now onlyIfQueued))"
| ignore: "tracker_step h (IgnoreBelow h pn)"

inductive tracker_reachable :: "receivedPacketTracker \<Rightarrow> bool" where
  init: "tracker_reachable newReceivedPacketTracker"
| step: "tracker_reachable h \<Longrightarrow> tracker_step h h' \<Longrightarrow> tracker_reachable h'"

subsection \<open>Lemmas\<close>

lemma newReceivedPacketTracker_inv: "tracker_inv newReceivedPacketTracker"
  by (simp add: tracker_inv_def newReceivedPacketTracker_def newReceivedPacketHistory_inv)

lemma valid_ne: "validateAckRanges f \<Longrightarrow> AckRanges f \<noteq> []"
  by (simp add: validateAckRanges_def)

lemma isMissing_Inr:
  "(\<And>f. lastAck h = Some f \<Longrightarrow> validateAckRanges f) \<Longrightarrow> \<exists>b. isMissing h p = Inr b"
  by (cases "lastAck h") (auto simp: isMissing_def LargestAcked_valid valid_ne AcksPacket_ackedBy)

lemma hasNewMissingPackets_Inr:
  "(\<And>f. lastAck h = Some f \<Longrightarrow> validateAckRanges f) \<Longrightarrow> \<exists>b. hasNewMissingPackets h = Inr b"
  by (cases "lastAck h") (auto simp: hasNewMissingPackets_def LargestAcked_valid valid_ne Let_def)

text \<open>
  \<open>maybeQueueACK\<close> on a state whose counters satisfy the invariant and in which \<open>hasNewAck\<close> was just
  set: it queues an ACK or arms the alarm at the arrival time plus the maximum ACK delay.
\<close>

lemma maybeQueueACK_spec:
  assumes i: "tracker_inv h" and t: "0 < rcvTime"
  shows "\<exists>h'. maybeQueueACK (h\<lparr>packetHistory := hist, largestObserved := lo,
          largestObservedRcvdTime := lt, hasNewAck := True\<rparr>) pn rcvTime m = Inr h'
    \<and> (history_inv hist \<longrightarrow> tracker_inv h') \<and> packetHistory h' = hist \<and> hasNewAck h' \<and> lastAck h' = lastAck h
    \<and> (ackQueued h' \<or> ackAlarm h' = rcvTime + MaxAckDelay)
    \<and> (hasNewAck h \<or> m \<longrightarrow> ackQueued h')"
proof -
  have pos: "rcvTime + MaxAckDelay \<noteq> 0" using t by (simp add: MaxAckDelay_def)
  have v: "\<And>f. lastAck h = Some f \<Longrightarrow> validateAckRanges f" using i by (simp add: tracker_inv_def)
  consider "lastAck h = None" | f where "lastAck h = Some f" "ackQueued h" | f where "lastAck h = Some f" "\<not> ackQueued h"
    by (cases "lastAck h") auto
  then show ?thesis
  proof cases
    case 1
    with i show ?thesis by (simp add: maybeQueueACK_def tracker_inv_def)
  next
    case 2
    with i show ?thesis by (simp add: maybeQueueACK_def tracker_inv_def)
  next
    case (3 f)
    obtain l where "LargestAcked f = Inr l" using v [OF 3(1)] by (simp add: LargestAcked_valid valid_ne)
    with 3 i pos show ?thesis
      by (cases "ackAlarm h = 0") (auto simp: maybeQueueACK_def hasNewMissingPackets_def tracker_inv_def Let_def
          time_IsZero_def time_Add_def packetsBeforeAck_def)
  qed
qed


lemma countECN_simps [simp]:
  "packetHistory (countECN h e) = packetHistory h" "hasNewAck (countECN h e) = hasNewAck h"
  "ackQueued (countECN h e) = ackQueued h" "ackAlarm (countECN h e) = ackAlarm h"
  "ackElicitingPacketsReceivedSinceLastAck (countECN h e) = ackElicitingPacketsReceivedSinceLastAck h"
  "maxAckDelay (countECN h e) = maxAckDelay h"
  "lastAck (countECN h e) = lastAck h" "tracker_inv (countECN h e) = tracker_inv h"
  by (cases e; simp add: countECN_def tracker_inv_def)+

lemma tracker_ReceivedPacket_spec:
  assumes i: "tracker_inv h" and t: "0 < rcvTime"
    and r: "tracker_ReceivedPacket h pn ecn rcvTime ae = (h', res)"
    and rp: "ReceivedPacket (packetHistory h) pn = (hist, isNew)"
  shows "tracker_inv h' \<and> packetHistory h' = hist \<and> lastAck h' = lastAck h
    \<and> res = (if isNew then Inr () else Inl (Err ''recevedPacketTracker BUG: ReceivedPacket called for old / duplicate packet''))
    \<and> (isNew \<and> ae \<longrightarrow> hasNewAck h' \<and> (ackQueued h' \<or> ackAlarm h' = rcvTime + MaxAckDelay)
         \<and> (hasNewAck h \<or> isMissing h pn = Inr True \<longrightarrow> ackQueued h'))
    \<and> (\<not> (isNew \<and> ae) \<longrightarrow> hasNewAck h' = hasNewAck h \<and> ackQueued h' = ackQueued h \<and> ackAlarm h' = ackAlarm h)"
proof -
  have hi: "history_inv hist" using i ReceivedPacket_spec [OF rp] by (simp add: tracker_inv_def)
  obtain m where m: "isMissing h pn = Inr m"
    using isMissing_Inr [of h pn] i by (auto simp: tracker_inv_def)
  then have m': "isMissing (h\<lparr>packetHistory := hist\<rparr>) pn = Inr m"
    by (cases "lastAck h") (simp_all add: isMissing_def)
  define lo where "lo = (if pn \<ge> largestObserved h then pn else largestObserved h)"
  define lt where "lt = (if pn \<ge> largestObserved h then rcvTime else largestObservedRcvdTime h)"
  let ?h1 = "h\<lparr>packetHistory := hist, largestObserved := lo, largestObservedRcvdTime := lt\<rparr>"
  have cond: "(if pn \<ge> largestObserved h then h\<lparr>packetHistory := hist, largestObserved := pn, largestObservedRcvdTime := rcvTime\<rparr>
      else h\<lparr>packetHistory := hist\<rparr>) = ?h1" by (simp add: lo_def lt_def)
  consider "\<not> isNew" | "isNew" "\<not> ae" | "isNew" "ae" by blast
  then show ?thesis
  proof cases
    case 1
    with r rp have "h' = h\<lparr>packetHistory := hist\<rparr>"
      "res = Inl (Err ''recevedPacketTracker BUG: ReceivedPacket called for old / duplicate packet'')"
      by (simp_all add: tracker_ReceivedPacket_def)
    with 1 i hi show ?thesis by (simp add: tracker_inv_def)
  next
    case 2
    with r rp m' have "h' = countECN ?h1 ecn" "res = Inr ()"
      by (simp_all add: tracker_ReceivedPacket_def Let_def cond)
    with 2 i hi show ?thesis by (simp add: tracker_inv_def)
  next
    case 3
    obtain h2 where h2: "maybeQueueACK (?h1\<lparr>hasNewAck := True\<rparr>) pn rcvTime m = Inr h2"
      "tracker_inv h2" "packetHistory h2 = hist" "hasNewAck h2" "lastAck h2 = lastAck h"
      "ackQueued h2 \<or> ackAlarm h2 = rcvTime + MaxAckDelay" "hasNewAck h \<or> m \<longrightarrow> ackQueued h2"
      using maybeQueueACK_spec [OF i t, where lo = lo and lt = lt and hist = hist and pn = pn and m = m] hi by auto
    with 3 r rp m m' have "h' = countECN h2 ecn" "res = Inr ()"
      by (simp_all add: tracker_ReceivedPacket_def Let_def cond)
    with h2 3 m show ?thesis by simp
  qed
qed


lemma AckFrame_Reset_fields:
  "AckRanges (AckFrame_Reset f) = []"
  "(AckFrame_Reset f)\<lparr>DelayTime := d, fECT0 := a, fECT1 := b, fECNCE := c, AckRanges := rs\<rparr>
     = \<lparr>AckRanges = rs, DelayTime = d, fECT0 = a, fECT1 = b, fECNCE = c\<rparr>"
  by (cases f; simp add: AckFrame_Reset_def)+

lemma tracker_GetAckFrame_spec:
  assumes i: "tracker_inv h" and n: "ranges (packetHistory h) \<noteq> []"
  shows "(case tracker_GetAckFrame h now only of
      (h', None) \<Rightarrow> h' = h \<and> (\<not> hasNewAck h \<or> only \<and> \<not> ackQueued h \<and> ackAlarm h > now)
    | (h', Some f) \<Rightarrow> tracker_inv h' \<and> hasNewAck h \<and> \<not> hasNewAck h' \<and> lastAck h' = Some f
        \<and> packetHistory h' = packetHistory h
        \<and> validateAckRanges f \<and> (\<forall>p. AcksPacket f p = Inr (p \<in> covered (ranges (packetHistory h))))
        \<and> DelayTime f = max 0 (time_Sub now (largestObservedRcvdTime h))
        \<and> fECT0 f = ect0 h \<and> fECT1 f = ect1 h \<and> fECNCE f = ecnce h)"
proof -
  let ?f = "\<lparr>AckRanges = AppendAckRanges (packetHistory h) [], DelayTime = max 0 (time_Sub now (largestObservedRcvdTime h)),
     fECT0 = ect0 h, fECT1 = ect1 h, fECNCE = ecnce h\<rparr>"
  have rs: "ordered (rev (ranges (packetHistory h)))" using i by (simp add: tracker_inv_def history_inv_def)
  have v: "validateAckRanges ?f"
    using ackRanges_valid [OF rs, of ?f] n by (simp add: AppendAckRanges_def)
  have "ackedBy (AckRanges ?f) p \<longleftrightarrow> p \<in> covered (ranges (packetHistory h))" for p
    using n by (auto simp: ackedBy_def AppendAckRanges_def covered_def)
  with v i AcksPacket_ackedBy [OF v] show ?thesis
    by (auto simp: tracker_GetAckFrame_def tracker_inv_def Let_def time_IsZero_def AckFrame_Reset_fields)
qed

lemma IgnoreBelow_inv:
  assumes "tracker_inv h"
  shows "tracker_inv (IgnoreBelow h pn)"
  using assms DeleteBelow_spec [of "packetHistory h" pn] by (simp add: IgnoreBelow_def tracker_inv_def)


lemma tracker_reachable_inv: "tracker_reachable h \<Longrightarrow> tracker_inv h"
proof (induction rule: tracker_reachable.induct)
  case init
  show ?case by (rule newReceivedPacketTracker_inv)
next
  case (step h h')
  from step.hyps(2) show ?case
  proof (cases rule: tracker_step.cases)
    case (receive t pn ecn ae)
    then show ?thesis
      using tracker_ReceivedPacket_spec [OF step.IH receive(2) surjective_pairing surjective_pairing] by simp
  next
    case (getAck now only)
    then show ?thesis using tracker_GetAckFrame_spec [OF step.IH, where now = now and only = only] step.IH
      by (auto split: prod.splits option.splits)
  next
    case (ignore pn)
    then show ?thesis using IgnoreBelow_inv [OF step.IH] by simp
  qed
qed


subsection \<open>Properties\<close>

text \<open>
  C11. In every reachable state a new packet is registered without a panic. If it is ack-eliciting, an
  ACK is queued or the ACK alarm is set to the arrival time plus 25 ms. The ACK is queued at once
  when another ack-eliciting packet was already waiting, that is for every second packet, and when
  the last ACK had reported this packet as missing.
\<close>

theorem tracker_acks_timely:
  assumes "tracker_reachable h" "0 < rcvTime"
    and "tracker_ReceivedPacket h pn ecn rcvTime True = (h', res)"
    and "\<not> tracker_IsPotentiallyDuplicate h pn"
  shows "res = Inr () \<and> hasNewAck h' \<and> (ackQueued h' \<or> ackAlarm h' = rcvTime + 25 * Millisecond)
    \<and> (hasNewAck h \<or> isMissing h pn = Inr True \<longrightarrow> ackQueued h')
    \<and> (lastAck h = None \<longrightarrow> ackQueued h')"
proof -
  have i: "tracker_inv h" using assms(1) by (rule tracker_reachable_inv)
  obtain hist isNew where rp: "ReceivedPacket (packetHistory h) pn = (hist, isNew)" by fastforce
  have "isNew" using assms(4) i ReceivedPacket_spec [OF rp] IsPotentiallyDuplicate_iff [of "packetHistory h" pn]
    by (auto simp: tracker_IsPotentiallyDuplicate_def tracker_inv_def)
  then show ?thesis
    using tracker_ReceivedPacket_spec [OF i assms(2,3) rp]
    by (auto simp: MaxAckDelay_def tracker_inv_def)
qed

theorem tracker_acks_timely_witness:
  "\<exists>h'. tracker_ReceivedPacket newReceivedPacketTracker 7 ECT0 1000 True = (h', Inr ()) \<and> ackQueued h'"
proof -
  have d: "\<not> tracker_IsPotentiallyDuplicate newReceivedPacketTracker 7" by code_simp
  show ?thesis
    using tracker_acks_timely [OF tracker_reachable.init, of 1000 7 ECT0, OF _ surjective_pairing d]
    by (metis newReceivedPacketTracker_def prod.collapse receivedPacketTracker.select_convs(13) zero_less_numeral)
qed

text \<open>
  C14. \<open>GetAckFrame\<close> returns a frame exactly when something new needs an ACK and, if only a due ACK was asked
  for, it is queued or its alarm has passed; otherwise the state is unchanged. The frame is valid,
  acknowledges exactly the packets of the history, carries the ECN counters and a delay that is not
  negative, and the pending ACK is cleared.
\<close>

theorem tracker_GetAckFrame_exact:
  assumes "tracker_reachable h" "ranges (packetHistory h) \<noteq> []"
  shows "case tracker_GetAckFrame h now only of
      (h', None) \<Rightarrow> h' = h \<and> \<not> (hasNewAck h \<and> (only \<longrightarrow> ackQueued h \<or> ackAlarm h \<noteq> 0 \<and> ackAlarm h \<le> now))
    | (h', Some f) \<Rightarrow> hasNewAck h \<and> (only \<longrightarrow> ackQueued h \<or> ackAlarm h \<noteq> 0 \<and> ackAlarm h \<le> now)
        \<and> \<not> hasNewAck h' \<and> \<not> ackQueued h' \<and> ackAlarm h' = 0 \<and> lastAck h' = Some f
        \<and> validateAckRanges f \<and> (\<forall>p. AcksPacket f p = Inr (p \<in> covered (ranges (packetHistory h))))
        \<and> DelayTime f = max 0 (time_Sub now (largestObservedRcvdTime h))
        \<and> fECT0 f = ect0 h \<and> fECT1 f = ect1 h \<and> fECNCE f = ecnce h"
proof -
  have "snd (tracker_GetAckFrame h now only) \<noteq> None \<longrightarrow>
      (only \<longrightarrow> ackQueued h \<or> ackAlarm h \<noteq> 0 \<and> ackAlarm h \<le> now)
      \<and> \<not> ackQueued (fst (tracker_GetAckFrame h now only)) \<and> ackAlarm (fst (tracker_GetAckFrame h now only)) = 0"
    by (auto simp: tracker_GetAckFrame_def time_IsZero_def Let_def)
  with tracker_GetAckFrame_spec [OF tracker_reachable_inv [OF assms(1)] assms(2), where now = now and only = only]
  show ?thesis by (auto split: prod.splits option.splits)
qed

theorem tracker_GetAckFrame_exact_witness:
  "\<exists>h f. tracker_GetAckFrame (fst (tracker_ReceivedPacket newReceivedPacketTracker 7 ECT0 1000 True)) 3000 True
     = (h, Some f) \<and> DelayTime f = 2000 \<and> AcksPacket f 7 = Inr True \<and> AcksPacket f 6 = Inr False"
proof -
  let ?h = "fst (tracker_ReceivedPacket newReceivedPacketTracker 7 ECT0 1000 True)"
  have r: "tracker_reachable ?h" by (rule tracker_reachable.step [OF tracker_reachable.init tracker_step.receive]) simp
  have c: "ranges (packetHistory ?h) = [\<lparr>Start = 7, End = 7\<rparr>]" "hasNewAck ?h" "ackQueued ?h"
    "largestObservedRcvdTime ?h = 1000" by code_simp+
  show ?thesis
    using tracker_GetAckFrame_exact [OF r, where now = 3000 and only = True] c
    by (auto simp: time_Sub_def split: prod.splits option.splits)
qed

end
