(* ===== verification/Received_Handler.thy ===== *)
theory Received_Handler
  imports Received_Tracker
begin

text \<open>
  The received packet handler, from \<open>internal/ackhandler/received_packet_handler.go\<close>: it selects the
  tracker of the packet number space, drops spaces, and takes the deletion mark of the application
  data space from the sent packet handler. The latter is reached through the two methods of the
  interface \<open>sentPacketTracker\<close> in \<open>interfaces.go\<close>; the interface is a record of functions over
  the state behind it, and a call through a nil tracker is a panic.
\<close>

subsection \<open>State and operations\<close>

record 's sentPacketTracker =
  sp_GetLowestPacketNotConfirmedAcked :: "'s \<Rightarrow> PacketNumber"
  sp_ReceivedPacket :: "'s \<Rightarrow> EncryptionLevel \<Rightarrow> 's result"

record receivedPacketHandler =
  initialPackets :: "receivedPacketTracker option"
  handshakePackets :: "receivedPacketTracker option"
  appDataPackets :: receivedPacketTracker
  lowest1RTTPacket :: PacketNumber

definition newReceivedPacketHandler :: receivedPacketHandler where
  "newReceivedPacketHandler =
     \<lparr>initialPackets = Some newReceivedPacketTracker, handshakePackets = Some newReceivedPacketTracker,
      appDataPackets = newReceivedPacketTracker, lowest1RTTPacket = InvalidPacketNumber\<rparr>"

definition handler_ReceivedPacket ::
  "'s sentPacketTracker \<Rightarrow> receivedPacketHandler \<Rightarrow> 's \<Rightarrow> PacketNumber \<Rightarrow> ECN \<Rightarrow> EncryptionLevel \<Rightarrow> time \<Rightarrow> bool
   \<Rightarrow> receivedPacketHandler \<times> 's \<times> unit result" where
  "handler_ReceivedPacket sp h s pn ecn encLevel rcvTime ackEliciting =
     (case sp_ReceivedPacket sp s encLevel of
        Inl e \<Rightarrow> (h, s, Inl e)
      | Inr s \<Rightarrow>
        (case encLevel of
           EncryptionInitial \<Rightarrow>
             (case initialPackets h of
                None \<Rightarrow> (h, s, Inl (Panic ''nil pointer dereference''))
              | Some t \<Rightarrow> let (t, r) = tracker_ReceivedPacket t pn ecn rcvTime ackEliciting
                          in (h\<lparr>initialPackets := Some t\<rparr>, s, r))
         | EncryptionHandshake \<Rightarrow>
             (case handshakePackets h of
                None \<Rightarrow> (h, s, Inr ())
              | Some t \<Rightarrow> let (t, r) = tracker_ReceivedPacket t pn ecn rcvTime ackEliciting
                          in (h\<lparr>handshakePackets := Some t\<rparr>, s, r))
         | Encryption0RTT \<Rightarrow>
             if lowest1RTTPacket h \<noteq> InvalidPacketNumber \<and> pn > lowest1RTTPacket h
             then (h, s, Inl (Err ''received packet number on a 0-RTT packet after receiving on a 1-RTT packet''))
             else let (t, r) = tracker_ReceivedPacket (appDataPackets h) pn ecn rcvTime ackEliciting
                  in (h\<lparr>appDataPackets := t\<rparr>, s, r)
         | Encryption1RTT \<Rightarrow>
             let h = (if lowest1RTTPacket h = InvalidPacketNumber \<or> pn < lowest1RTTPacket h
                      then h\<lparr>lowest1RTTPacket := pn\<rparr> else h);
                 (t, r) = tracker_ReceivedPacket (appDataPackets h) pn ecn rcvTime ackEliciting
             in (case r of
                   Inl e \<Rightarrow> (h\<lparr>appDataPackets := t\<rparr>, s, Inl e)
                 | Inr _ \<Rightarrow>
                     (h\<lparr>appDataPackets := IgnoreBelow t (sp_GetLowestPacketNotConfirmedAcked sp s)\<rparr>, s, Inr ()))
         | _ \<Rightarrow> (h, s, Inl (Panic ''received packet with unknown encryption level''))))"

definition handler_DropPackets :: "receivedPacketHandler \<Rightarrow> EncryptionLevel \<Rightarrow> receivedPacketHandler result" where
  "handler_DropPackets h encLevel =
     (case encLevel of
        EncryptionInitial \<Rightarrow> Inr (h\<lparr>initialPackets := None\<rparr>)
      | EncryptionHandshake \<Rightarrow> Inr (h\<lparr>handshakePackets := None\<rparr>)
      | Encryption0RTT \<Rightarrow> Inr h
      | _ \<Rightarrow> Inl (Panic ''Cannot drop keys for encryption level''))"

definition handler_GetAlarmTimeout :: "receivedPacketHandler \<Rightarrow> time" where
  "handler_GetAlarmTimeout h =
     (let initialAlarm = (case initialPackets h of None \<Rightarrow> 0 | Some t \<Rightarrow> tracker_GetAlarmTimeout t);
          handshakeAlarm = (case handshakePackets h of None \<Rightarrow> 0 | Some t \<Rightarrow> tracker_GetAlarmTimeout t);
          oneRTTAlarm = tracker_GetAlarmTimeout (appDataPackets h)
      in MinNonZeroTime (MinNonZeroTime initialAlarm handshakeAlarm) oneRTTAlarm)"

text \<open>
  For Initial and Handshake the delay of the returned frame is set to zero; the frame is the one the
  tracker keeps, so its copy changes as well.
\<close>

definition zeroDelay ::
  "receivedPacketTracker \<times> AckFrame option \<Rightarrow> receivedPacketTracker \<times> AckFrame option" where
  "zeroDelay r =
     (case r of
        (t, None) \<Rightarrow> (t, None)
      | (t, Some ack) \<Rightarrow> let ack = ack\<lparr>DelayTime := 0\<rparr> in (t\<lparr>lastAck := Some ack\<rparr>, Some ack))"

definition handler_GetAckFrame ::
  "receivedPacketHandler \<Rightarrow> time \<Rightarrow> EncryptionLevel \<Rightarrow> bool \<Rightarrow> receivedPacketHandler \<times> AckFrame option" where
  "handler_GetAckFrame h now encLevel onlyIfQueued =
     (case encLevel of
        EncryptionInitial \<Rightarrow>
          (case initialPackets h of
             None \<Rightarrow> (h, None)
           | Some t \<Rightarrow> let (t, ack) = zeroDelay (tracker_GetAckFrame t now onlyIfQueued)
                       in (h\<lparr>initialPackets := Some t\<rparr>, ack))
      | EncryptionHandshake \<Rightarrow>
          (case handshakePackets h of
             None \<Rightarrow> (h, None)
           | Some t \<Rightarrow> let (t, ack) = zeroDelay (tracker_GetAckFrame t now onlyIfQueued)
                       in (h\<lparr>handshakePackets := Some t\<rparr>, ack))
      | Encryption1RTT \<Rightarrow>
          let (t, ack) = tracker_GetAckFrame (appDataPackets h) now onlyIfQueued
          in (h\<lparr>appDataPackets := t\<rparr>, ack)
      | _ \<Rightarrow> (h, None))"

definition handler_IsPotentiallyDuplicate ::
  "receivedPacketHandler \<Rightarrow> PacketNumber \<Rightarrow> EncryptionLevel \<Rightarrow> bool result" where
  "handler_IsPotentiallyDuplicate h pn encLevel =
     (case encLevel of
        EncryptionInitial \<Rightarrow>
          (case initialPackets h of
             Some t \<Rightarrow> Inr (tracker_IsPotentiallyDuplicate t pn)
           | None \<Rightarrow> Inl (Panic ''unexpected encryption level''))
      | EncryptionHandshake \<Rightarrow>
          (case handshakePackets h of
             Some t \<Rightarrow> Inr (tracker_IsPotentiallyDuplicate t pn)
           | None \<Rightarrow> Inl (Panic ''unexpected encryption level''))
      | Encryption0RTT \<Rightarrow> Inr (tracker_IsPotentiallyDuplicate (appDataPackets h) pn)
      | Encryption1RTT \<Rightarrow> Inr (tracker_IsPotentiallyDuplicate (appDataPackets h) pn)
      | _ \<Rightarrow> Inl (Panic ''unexpected encryption level''))"

text \<open>The packet number space a level belongs to, and the tracker that serves it.\<close>

definition spaceTracker :: "receivedPacketHandler \<Rightarrow> EncryptionLevel \<Rightarrow> receivedPacketTracker option" where
  "spaceTracker h encLevel =
     (case encLevel of
        EncryptionInitial \<Rightarrow> initialPackets h
      | EncryptionHandshake \<Rightarrow> handshakePackets h
      | EncryptionUnset \<Rightarrow> None
      | _ \<Rightarrow> Some (appDataPackets h))"

definition handler_inv :: "receivedPacketHandler \<Rightarrow> bool" where
  "handler_inv h \<longleftrightarrow> (\<forall>l t. spaceTracker h l = Some t \<longrightarrow> tracker_inv t)"

subsection \<open>Lemmas\<close>

lemma handler_inv_iff:
  "handler_inv h \<longleftrightarrow> (\<forall>t. initialPackets h = Some t \<longrightarrow> tracker_inv t)
     \<and> (\<forall>t. handshakePackets h = Some t \<longrightarrow> tracker_inv t) \<and> tracker_inv (appDataPackets h)"
proof -
  have all: "(\<forall>l. P l) \<longleftrightarrow> P EncryptionUnset \<and> P EncryptionInitial \<and> P EncryptionHandshake
    \<and> P Encryption0RTT \<and> P Encryption1RTT" for P by (metis EncryptionLevel.exhaust)
  show ?thesis unfolding handler_inv_def all by (auto simp: spaceTracker_def)
qed

lemma newReceivedPacketHandler_inv: "handler_inv newReceivedPacketHandler"
  by (simp add: handler_inv_iff newReceivedPacketHandler_def newReceivedPacketTracker_inv)

lemma tracker_ReceivedPacket_inv:
  "tracker_inv t \<Longrightarrow> 0 < rcvTime \<Longrightarrow> tracker_inv (fst (tracker_ReceivedPacket t pn ecn rcvTime ae))"
  using tracker_ReceivedPacket_spec [OF _ _ surjective_pairing surjective_pairing] by blast

lemma tracker_ReceivedPacket_new:
  assumes "tracker_inv t" "0 < rcvTime" "\<not> tracker_IsPotentiallyDuplicate t pn"
  shows "snd (tracker_ReceivedPacket t pn ecn rcvTime ae) = Inr ()"
proof -
  obtain hist isNew where rp: "ReceivedPacket (packetHistory t) pn = (hist, isNew)" by fastforce
  have "isNew" using assms ReceivedPacket_spec [OF rp] IsPotentiallyDuplicate_iff [of "packetHistory t" pn]
    by (auto simp: tracker_IsPotentiallyDuplicate_def tracker_inv_def)
  then show ?thesis using tracker_ReceivedPacket_spec [OF assms(1,2) surjective_pairing rp] by simp
qed

lemma handler_ReceivedPacket_inv:
  assumes h: "handler_inv h" and t: "0 < rcvTime"
  shows "handler_inv (fst (handler_ReceivedPacket sp h s pn ecn l rcvTime ae))"
proof (cases "sp_ReceivedPacket sp s l")
  case (Inr s')
  note inv = tracker_ReceivedPacket_inv [OF _ t, where pn = pn and ecn = ecn and ae = ae]
  note simps = handler_ReceivedPacket_def handler_inv_iff Let_def case_prod_beta
  show ?thesis
  proof (cases l)
    case EncryptionInitial
    with Inr h inv show ?thesis by (cases "initialPackets h") (auto simp: simps)
  next
    case EncryptionHandshake
    with Inr h inv show ?thesis by (cases "handshakePackets h") (auto simp: simps)
  next
    case Encryption0RTT
    with Inr h inv [of "appDataPackets h"] show ?thesis by (auto simp: simps)
  next
    case Encryption1RTT
    with Inr h inv [of "appDataPackets h"] show ?thesis
      by (auto simp: simps IgnoreBelow_inv split: sum.splits)
  qed (use Inr h in \<open>auto simp: simps\<close>)
qed (simp add: handler_ReceivedPacket_def h)


lemma IgnoreBelow_simps [simp]:
  "ackQueued (IgnoreBelow t p) = ackQueued t" "ackAlarm (IgnoreBelow t p) = ackAlarm t"
  "hasNewAck (IgnoreBelow t p) = hasNewAck t" "lastAck (IgnoreBelow t p) = lastAck t"
  by (simp_all add: IgnoreBelow_def)

lemma handler_ReceivedPacket_accepts:
  assumes h: "handler_inv h" "0 < rcvTime" and s: "sp_ReceivedPacket sp s l = Inr s'"
    and t: "spaceTracker h l = Some t" "\<not> tracker_IsPotentiallyDuplicate t pn"
    and z: "l = Encryption0RTT \<longrightarrow> lowest1RTTPacket h = InvalidPacketNumber \<or> pn \<le> lowest1RTTPacket h"
  shows "\<exists>h' t'. handler_ReceivedPacket sp h s pn ecn l rcvTime ae = (h', s', Inr ())
    \<and> spaceTracker h' l = Some t' \<and> hasNewAck t' = hasNewAck (fst (tracker_ReceivedPacket t pn ecn rcvTime ae))
    \<and> (\<forall>l'. spaceTracker h l' = spaceTracker h' l' \<or> l' = l \<or> {l, l'} = {Encryption0RTT, Encryption1RTT})"
proof -
  have ti: "tracker_inv t" using h(1) t(1) by (auto simp: handler_inv_def)
  obtain t1 where r: "tracker_ReceivedPacket t pn ecn rcvTime ae = (t1, Inr ())"
    using tracker_ReceivedPacket_new [OF ti h(2) t(2), of ecn ae] by (metis prod.collapse)
  then show ?thesis
    using s t(1) z
    by (cases l) (auto simp: handler_ReceivedPacket_def spaceTracker_def Let_def split: EncryptionLevel.splits)
qed


subsection \<open>Properties\<close>

text \<open>
  C15. In a state that satisfies the invariant, a packet whose number the duplicate check lets
  through is accepted at every level whose packet number space still exists, except a 0-RTT packet
  numbered above the lowest 1-RTT packet. It updates only the tracker of its own space (0-RTT and
  1-RTT share one), keeps the invariant, and leaves an ACK pending if it was ack-eliciting.
\<close>

theorem handler_ReceivedPacket_isolated:
  assumes "handler_inv h" "0 < rcvTime" "sp_ReceivedPacket sp s l = Inr s'"
    and "spaceTracker h l = Some t" "handler_IsPotentiallyDuplicate h pn l = Inr False"
    and "l = Encryption0RTT \<longrightarrow> lowest1RTTPacket h = InvalidPacketNumber \<or> pn \<le> lowest1RTTPacket h"
  shows "\<exists>h' t'. handler_ReceivedPacket sp h s pn ecn l rcvTime ackEliciting = (h', s', Inr ())
    \<and> handler_inv h' \<and> spaceTracker h' l = Some t' \<and> (ackEliciting \<longrightarrow> hasNewAck t')
    \<and> (\<forall>l'. spaceTracker h l' = spaceTracker h' l' \<or> l' = l \<or> {l, l'} = {Encryption0RTT, Encryption1RTT})"
proof -
  have d: "\<not> tracker_IsPotentiallyDuplicate t pn"
    using assms(4,5) by (auto simp: spaceTracker_def handler_IsPotentiallyDuplicate_def split: EncryptionLevel.splits)
  have ti: "tracker_inv t" using assms(1,4) by (auto simp: handler_inv_def)
  have "ackEliciting \<Longrightarrow> hasNewAck (fst (tracker_ReceivedPacket t pn ecn rcvTime ackEliciting))"
    using tracker_ReceivedPacket_spec [OF ti assms(2) surjective_pairing surjective_pairing]
      tracker_ReceivedPacket_new [OF ti assms(2) d] by (metis sum.distinct(1))
  with handler_ReceivedPacket_accepts [OF assms(1-4) d assms(6), of ecn ackEliciting]
    handler_ReceivedPacket_inv [OF assms(1,2), of sp s pn ecn l ackEliciting]
  show ?thesis by (metis fst_conv)
qed

theorem handler_ReceivedPacket_isolated_witness:
  "\<exists>h' t'. handler_ReceivedPacket \<lparr>sp_GetLowestPacketNotConfirmedAcked = id, sp_ReceivedPacket = \<lambda>s l. Inr s\<rparr>
       newReceivedPacketHandler 0 3 ECNNon EncryptionInitial 1000 True = (h', 0, Inr ())
    \<and> spaceTracker h' EncryptionInitial = Some t' \<and> hasNewAck t'"
  using handler_ReceivedPacket_isolated [OF newReceivedPacketHandler_inv, of 1000
      "\<lparr>sp_GetLowestPacketNotConfirmedAcked = id, sp_ReceivedPacket = \<lambda>s l. Inr s\<rparr>" 0 EncryptionInitial 0
      newReceivedPacketTracker 3 ECNNon True]
  by (auto simp: spaceTracker_def newReceivedPacketHandler_def handler_IsPotentiallyDuplicate_def
      tracker_IsPotentiallyDuplicate_def newReceivedPacketTracker_def IsPotentiallyDuplicate_def newReceivedPacketHistory_def)

lemma empty_ranges: "history_inv h \<Longrightarrow> covered (ranges h) = {} \<Longrightarrow> ranges h = []"
  by (cases "ranges h") (auto simp: history_inv_def ordered_append)

text \<open>
  C39. \<open>IgnoreBelow\<close> runs after the packet was registered, with a mark that can lie above it: a peer sends packets,
  gets their ACK, and sends a late ack-eliciting packet together with the acknowledgement of that ACK. Whenever
  the mark moves above everything received in the 1-RTT space, the new packet included, the whole history is
  deleted while an ACK is pending. The next ACK frame has no ranges, and computing its length
  indexes the empty slice.
\<close>

theorem empty_ack_frame_panics:
  assumes "handler_inv h" "0 < rcvTime" "sp_ReceivedPacket sp s Encryption1RTT = Inr s'"
    "handler_IsPotentiallyDuplicate h pn Encryption1RTT = Inr False"
    "ignoreBelow (appDataPackets h) < sp_GetLowestPacketNotConfirmedAcked sp s'" "pn < sp_GetLowestPacketNotConfirmedAcked sp s'"
    "\<forall>q \<in> covered (ranges (packetHistory (appDataPackets h))). q < sp_GetLowestPacketNotConfirmedAcked sp s'"
  shows "\<exists>h1 h2 f. handler_ReceivedPacket sp h s pn ecn Encryption1RTT rcvTime True = (h1, s', Inr ())
    \<and> handler_GetAckFrame h1 now Encryption1RTT False = (h2, Some f)
    \<and> AckRanges f = [] \<and> AckFrame_Length f = Inl (Panic ''index out of range'')"
proof -
  let ?t = "appDataPackets h" and ?m = "sp_GetLowestPacketNotConfirmedAcked sp s'"
  have ti: "tracker_inv ?t" using assms(1) by (simp add: handler_inv_iff)
  have d: "\<not> tracker_IsPotentiallyDuplicate ?t pn" using assms(4) by (simp add: handler_IsPotentiallyDuplicate_def)
  obtain hist new where rp: "ReceivedPacket (packetHistory ?t) pn = (hist, new)" by fastforce
  obtain t1 where r: "tracker_ReceivedPacket ?t pn ecn rcvTime True = (t1, Inr ())"
    using tracker_ReceivedPacket_new [OF ti assms(2) d, of ecn True] by (metis prod.collapse)
  have t1: "tracker_inv t1" "packetHistory t1 = hist" "hasNewAck t1"
    using tracker_ReceivedPacket_spec [OF ti assms(2) r rp] by (auto split: if_splits)
  have hi: "history_inv hist" "covered (ranges hist) \<subseteq> insert pn (covered (ranges (packetHistory ?t)))"
    using ReceivedPacket_spec [OF rp] ti t1 by (auto simp: tracker_inv_def)
  define t2 where "t2 = IgnoreBelow t1 ?m"
  have "ignoreBelow t1 = ignoreBelow ?t" using r
    by (auto simp: tracker_ReceivedPacket_def rp maybeQueueACK_def countECN_def Let_def resultE split: if_splits sum.splits ECN.splits)
  then have p2: "packetHistory t2 = DeleteBelow hist ?m" using assms(5) t1(2) by (simp add: t2_def IgnoreBelow_def)
  have "covered (ranges (DeleteBelow hist ?m)) \<subseteq> covered (ranges hist) \<inter> {?m..}" using DeleteBelow_spec [OF hi(1), of ?m] by auto
  also have "\<dots> = {}" using hi(2) assms(6,7) by fastforce
  finally have "ranges (packetHistory t2) = []" unfolding p2 using empty_ranges DeleteBelow_spec [OF hi(1), of ?m] by blast
  moreover have "hasNewAck t2" using t1(3) by (simp add: t2_def)
  ultimately obtain t3 f where f: "tracker_GetAckFrame t2 now False = (t3, Some f)" "AckRanges f = []"
    by (cases "lastAck t2") (auto simp: tracker_GetAckFrame_def AppendAckRanges_def AckFrame_Reset_def emptyAckFrame_def Let_def)
  obtain h1 where "handler_ReceivedPacket sp h s pn ecn Encryption1RTT rcvTime True = (h1, s', Inr ())" "appDataPackets h1 = t2"
    using r assms(3) by (cases "lowest1RTTPacket h = InvalidPacketNumber \<or> pn < lowest1RTTPacket h")
      (auto simp: handler_ReceivedPacket_def Let_def t2_def)
  with f show ?thesis by (auto simp: handler_GetAckFrame_def AckFrame_Length_def slice_get_def)
qed

text \<open>The witness: packets 6 to 9 were acknowledged, packet 5 arrives when the mark has moved to 10.\<close>

theorem empty_ack_frame_panics_witness:
  "let h = newReceivedPacketHandler\<lparr>appDataPackets := newReceivedPacketTracker\<lparr>packetHistory := \<lparr>ranges = [\<lparr>Start = 6, End = 9\<rparr>], deletedBelow = 0\<rparr>\<rparr>\<rparr>;
       sp = \<lparr>sp_GetLowestPacketNotConfirmedAcked = id, sp_ReceivedPacket = \<lambda>s l. Inr s\<rparr> in
   \<exists>h1 h2 f. handler_ReceivedPacket sp h 10 5 ECNNon Encryption1RTT 1000 True = (h1, 10, Inr ())
     \<and> handler_GetAckFrame h1 2000 Encryption1RTT False = (h2, Some f) \<and> AckFrame_Length f = Inl (Panic ''index out of range'')"
proof -
  let ?hist = "\<lparr>ranges = [\<lparr>Start = 6, End = 9\<rparr>], deletedBelow = 0\<rparr>"
  let ?h = "newReceivedPacketHandler\<lparr>appDataPackets := newReceivedPacketTracker\<lparr>packetHistory := ?hist\<rparr>\<rparr>"
  let ?sp = "\<lparr>sp_GetLowestPacketNotConfirmedAcked = id, sp_ReceivedPacket = \<lambda>s l. Inr s\<rparr>"
  have "history_inv ?hist" by (simp add: history_inv_def MaxNumAckRanges_def)
  then have "tracker_inv (newReceivedPacketTracker\<lparr>packetHistory := ?hist\<rparr>)"
    using newReceivedPacketTracker_inv by (simp add: tracker_inv_def)
  then have "handler_inv ?h" using newReceivedPacketHandler_inv by (simp add: handler_inv_iff)
  from empty_ack_frame_panics [OF this, of 1000 ?sp 10 10 5 ECNNon 2000] show ?thesis
    by (auto simp: handler_IsPotentiallyDuplicate_def tracker_IsPotentiallyDuplicate_def IsPotentiallyDuplicate_def
        newReceivedPacketTracker_def)
qed

end
