(* ===== verification/Sent_History.thy ===== *)
theory Sent_History
  imports Protocol
begin

text \<open>
  The history of sent packets and the packet number generators, from \<open>internal/ackhandler\<close>:
  \<open>packet.go\<close>, \<open>frame.go\<close>, \<open>sent_packet_history.go\<close>, \<open>packet_number_generator.go\<close> and
  \<open>internal/utils/rand.go\<close>. The slice of packet pointers is a list of options with \<open>None\<close> for nil;
  indexing nil and the explicit panics are error values. A frame is any value together with the
  identity of its handler, \<open>None\<close> for a nil handler. The result of \<open>Int31n\<close> is a function argument
  of the generator; \<open>Int31n\<close> itself is modelled on a supply of random words.
\<close>

subsection \<open>Packets\<close>

record 'f Frame =
  frame_Frame :: 'f
  frame_Handler :: "nat option"

record 'f packet =
  SendTime :: "time"
  PacketNumber :: PacketNumber
  StreamFrames :: "'f Frame list"
  Frames :: "'f Frame list"
  pkt_LargestAcked :: PacketNumber
  Length :: ByteCount
  EncryptionLevel :: EncryptionLevel
  IsPathMTUProbePacket :: bool
  includedInBytesInFlight :: bool
  declaredLost :: bool
  skippedPacket :: bool

definition outstanding :: "'f packet \<Rightarrow> bool" where
  "outstanding p \<longleftrightarrow> \<not> declaredLost p \<and> \<not> skippedPacket p \<and> \<not> IsPathMTUProbePacket p"

definition getPacket :: "'f packet" where
  "getPacket =
     \<lparr>SendTime = 0, PacketNumber = 0, StreamFrames = [], Frames = [], pkt_LargestAcked = 0, Length = 0,
      EncryptionLevel = EncryptionUnset, IsPathMTUProbePacket = False, includedInBytesInFlight = False,
      declaredLost = False, skippedPacket = False\<rparr>"

subsection \<open>The history\<close>

record 'f sentPacketHistory =
  packets :: "'f packet option list"
  numOutstanding :: int
  highestPacketNumber :: PacketNumber

definition newSentPacketHistory :: "'f sentPacketHistory" where
  "newSentPacketHistory = \<lparr>packets = [], numOutstanding = 0, highestPacketNumber = InvalidPacketNumber\<rparr>"

definition checkSequentialPacketNumberUse :: "'f sentPacketHistory \<Rightarrow> PacketNumber \<Rightarrow> unit result" where
  "checkSequentialPacketNumberUse h pn =
     (if highestPacketNumber h \<noteq> InvalidPacketNumber \<and> pn \<noteq> highestPacketNumber h + 1
      then Inl (Panic ''non-sequential packet number use'') else Inr ())"

definition SkippedPacket :: "'f sentPacketHistory \<Rightarrow> PacketNumber \<Rightarrow> 'f sentPacketHistory result" where
  "SkippedPacket h pn =
     bindE (checkSequentialPacketNumberUse h pn) (\<lambda>_.
     Inr (h\<lparr>highestPacketNumber := pn,
            packets := packets h @ [Some (getPacket\<lparr>PacketNumber := pn, skippedPacket := True\<rparr>)]\<rparr>))"

definition SentNonAckElicitingPacket ::
  "'f sentPacketHistory \<Rightarrow> PacketNumber \<Rightarrow> 'f sentPacketHistory result" where
  "SentNonAckElicitingPacket h pn =
     bindE (checkSequentialPacketNumberUse h pn) (\<lambda>_.
     let h = h\<lparr>highestPacketNumber := pn\<rparr> in
     Inr (if length (packets h) > 0 then h\<lparr>packets := packets h @ [None]\<rparr> else h))"

definition SentAckElicitingPacket ::
  "'f sentPacketHistory \<Rightarrow> 'f packet \<Rightarrow> 'f sentPacketHistory result" where
  "SentAckElicitingPacket h p =
     bindE (checkSequentialPacketNumberUse h (PacketNumber p)) (\<lambda>_.
     let h = h\<lparr>highestPacketNumber := PacketNumber p, packets := packets h @ [Some p]\<rparr> in
     Inr (if outstanding p then h\<lparr>numOutstanding := numOutstanding h + 1\<rparr> else h))"

text \<open>
  \<open>Iterate\<close> calls a function on every packet that is not nil, in order, until it stops or fails. The
  function may change the state \<open>'s\<close>, the history included; the slice it iterates over is the one at
  the start, as in Go.
\<close>

fun Iterate_loop :: "'f packet option list \<Rightarrow> ('f packet \<Rightarrow> 's \<Rightarrow> ('s \<times> bool) result) \<Rightarrow> 's \<Rightarrow> 's result" where
  "Iterate_loop [] cb s = Inr s"
| "Iterate_loop (None # ps) cb s = Iterate_loop ps cb s"
| "Iterate_loop (Some p # ps) cb s =
     bindE (cb p s) (\<lambda>(s, cont). if \<not> cont then Inr s else Iterate_loop ps cb s)"

definition Iterate :: "'f sentPacketHistory \<Rightarrow> ('f packet \<Rightarrow> 's \<Rightarrow> ('s \<times> bool) result) \<Rightarrow> 's \<Rightarrow> 's result" where
  "Iterate h cb s = Iterate_loop (packets h) cb s"

definition HasOutstandingPackets :: "'f sentPacketHistory \<Rightarrow> bool" where
  "HasOutstandingPackets h \<longleftrightarrow> numOutstanding h > 0"

fun firstOutstanding_loop :: "'f packet option list \<Rightarrow> 'f packet option" where
  "firstOutstanding_loop [] = None"
| "firstOutstanding_loop (None # ps) = firstOutstanding_loop ps"
| "firstOutstanding_loop (Some p # ps) = (if outstanding p then Some p else firstOutstanding_loop ps)"

definition FirstOutstanding :: "'f sentPacketHistory \<Rightarrow> 'f packet option" where
  "FirstOutstanding h = (if \<not> HasOutstandingPackets h then None else firstOutstanding_loop (packets h))"

definition history_Len :: "'f sentPacketHistory \<Rightarrow> int" where
  "history_Len h = int (length (packets h))"

definition getIndex :: "'f sentPacketHistory \<Rightarrow> PacketNumber \<Rightarrow> nat option result" where
  "getIndex h p =
     (case packets h of
        [] \<Rightarrow> Inr None
      | None # _ \<Rightarrow> Inl (Panic ''nil pointer dereference'')
      | Some p0 # _ \<Rightarrow>
          let first = PacketNumber p0 in
          if p < first then Inr None
          else let index = p - first in
            if index > int (length (packets h)) - 1 then Inr None else Inr (Some (nat index)))"

fun cleanupStart_loop :: "'f packet option list \<Rightarrow> 'f packet option list" where
  "cleanupStart_loop [] = []"
| "cleanupStart_loop (Some p # ps) = Some p # ps"
| "cleanupStart_loop (None # ps) = cleanupStart_loop ps"

definition cleanupStart :: "'f sentPacketHistory \<Rightarrow> 'f sentPacketHistory" where
  "cleanupStart h = h\<lparr>packets := cleanupStart_loop (packets h)\<rparr>"

text \<open>The loop of \<open>Remove\<close> that clears skipped packets directly before the index.\<close>

fun clearSkipped :: "'f packet option list \<Rightarrow> nat \<Rightarrow> 'f packet option list \<times> nat" where
  "clearSkipped ps 0 = (ps, 0)"
| "clearSkipped ps (Suc idx) =
     (case ps ! idx of
        None \<Rightarrow> (ps, idx)
      | Some p \<Rightarrow> if \<not> skippedPacket p then (ps, idx) else clearSkipped (ps[idx := None]) idx)"

text \<open>Both \<open>Remove\<close> and \<open>DeclareLost\<close> start by counting the packet out and clearing its entry.\<close>

definition clearEntry :: "'f sentPacketHistory \<Rightarrow> nat \<Rightarrow> 'f sentPacketHistory result" where
  "clearEntry h idx =
     bindE (slice_get (packets h) idx) (\<lambda>e.
     case e of
       None \<Rightarrow> Inl (Panic ''nil pointer dereference'')
     | Some p \<Rightarrow>
         let h = (if outstanding p then h\<lparr>numOutstanding := numOutstanding h - 1\<rparr> else h) in
         if outstanding p \<and> numOutstanding h < 0 then Inl (Panic ''negative number of outstanding packets'')
         else Inr (h\<lparr>packets := (packets h)[idx := None]\<rparr>))"

definition Remove :: "'f sentPacketHistory \<Rightarrow> PacketNumber \<Rightarrow> 'f sentPacketHistory result" where
  "Remove h pn =
     bindE (getIndex h pn) (\<lambda>r.
     case r of
       None \<Rightarrow> Inl (Err ''packet not found in sent packet history'')
     | Some idx \<Rightarrow>
         bindE (clearEntry h idx) (\<lambda>h.
         let (ps, idx) = clearSkipped (packets h) idx;
             h = h\<lparr>packets := ps\<rparr>;
             h = (if idx = 0 then cleanupStart h else h)
         in (case packets h of
               None # _ \<Rightarrow> Inl (Panic ''remove failed'')
             | _ \<Rightarrow> Inr h)))"

definition DeclareLost :: "'f sentPacketHistory \<Rightarrow> PacketNumber \<Rightarrow> 'f sentPacketHistory result" where
  "DeclareLost h pn =
     bindE (getIndex h pn) (\<lambda>r.
     case r of
       None \<Rightarrow> Inr h
     | Some idx \<Rightarrow>
         bindE (clearEntry h idx) (\<lambda>h. Inr (if idx = 0 then cleanupStart h else h)))"

definition LowestPacketNumber :: "'f sentPacketHistory \<Rightarrow> PacketNumber result" where
  "LowestPacketNumber h =
     (case packets h of
        [] \<Rightarrow> Inr InvalidPacketNumber
      | None # _ \<Rightarrow> Inl (Panic ''nil pointer dereference'')
      | Some p # _ \<Rightarrow> Inr (PacketNumber p))"

subsection \<open>Packet number generators\<close>

text \<open>
  \<open>Int31\<close> masks the sign bit of the next random word; \<open>Int31n\<close> rejects values that would bias the
  result. The supply is a list, and the result is \<open>None\<close> only when the supply runs out.
\<close>

definition Int31 :: "32 word \<Rightarrow> int" where
  "Int31 w = uint (w AND NOT (push_bit 31 1))"

fun Int31n_reject :: "int \<Rightarrow> 32 word list \<Rightarrow> (int \<times> 32 word list) option" where
  "Int31n_reject mx [] = None"
| "Int31n_reject mx (w # ws) = (if Int31 w > mx then Int31n_reject mx ws else Some (Int31 w, ws))"

definition Int31n :: "int \<Rightarrow> 32 word list \<Rightarrow> (int \<times> 32 word list) option" where
  "Int31n n ws =
     (if n AND (n - 1) = 0 then
        (case ws of [] \<Rightarrow> None | w # ws \<Rightarrow> Some (Int31 w AND (n - 1), ws))
      else
        let mx = push_bit 31 1 - 1 - (push_bit 31 1 :: int) mod n in
        map_option (\<lambda>(v, ws). (trem v n, ws)) (Int31n_reject mx ws))"

record sequentialPacketNumberGenerator =
  seq_next :: PacketNumber

record skippingPacketNumberGenerator =
  period :: PacketNumber
  maxPeriod :: PacketNumber
  skip_next :: PacketNumber
  nextToSkip :: PacketNumber

definition seq_Peek :: "sequentialPacketNumberGenerator \<Rightarrow> PacketNumber" where
  "seq_Peek p = seq_next p"

definition seq_Pop ::
  "sequentialPacketNumberGenerator \<Rightarrow> sequentialPacketNumberGenerator \<times> bool \<times> PacketNumber" where
  "seq_Pop p = (p\<lparr>seq_next := seq_next p + 1\<rparr>, False, seq_next p)"

definition generateNewSkip ::
  "(int \<Rightarrow> int) \<Rightarrow> skippingPacketNumberGenerator \<Rightarrow> skippingPacketNumberGenerator" where
  "generateNewSkip rnd p =
     (let p = p\<lparr>nextToSkip := skip_next p + 3 + rnd (2 * period p)\<rparr>
      in p\<lparr>period := min (2 * period p) (maxPeriod p)\<rparr>)"

definition skip_Peek :: "skippingPacketNumberGenerator \<Rightarrow> PacketNumber" where
  "skip_Peek p = (if skip_next p = nextToSkip p then skip_next p + 1 else skip_next p)"

definition skip_Pop ::
  "(int \<Rightarrow> int) \<Rightarrow> skippingPacketNumberGenerator \<Rightarrow> skippingPacketNumberGenerator \<times> bool \<times> PacketNumber" where
  "skip_Pop rnd p =
     (let next = skip_next p in
      if skip_next p = nextToSkip p then
        (generateNewSkip rnd (p\<lparr>skip_next := skip_next p + 2\<rparr>), True, next + 1)
      else (p\<lparr>skip_next := skip_next p + 1\<rparr>, False, next))"

text \<open>A value of the interface type is one of the two implementations.\<close>

datatype packetNumberGenerator =
  Sequential sequentialPacketNumberGenerator
| Skipping skippingPacketNumberGenerator

definition newSequentialPacketNumberGenerator :: "PacketNumber \<Rightarrow> packetNumberGenerator" where
  "newSequentialPacketNumberGenerator initial = Sequential \<lparr>seq_next = initial\<rparr>"

definition newSkippingPacketNumberGenerator ::
  "(int \<Rightarrow> int) \<Rightarrow> PacketNumber \<Rightarrow> PacketNumber \<Rightarrow> PacketNumber \<Rightarrow> packetNumberGenerator" where
  "newSkippingPacketNumberGenerator rnd initial initialPeriod maximalPeriod =
     Skipping (generateNewSkip rnd
       \<lparr>period = initialPeriod, maxPeriod = maximalPeriod, skip_next = initial, nextToSkip = 0\<rparr>)"

fun pns_Peek :: "packetNumberGenerator \<Rightarrow> PacketNumber" where
  "pns_Peek (Sequential g) = seq_Peek g"
| "pns_Peek (Skipping g) = skip_Peek g"

fun pns_Pop :: "(int \<Rightarrow> int) \<Rightarrow> packetNumberGenerator \<Rightarrow> packetNumberGenerator \<times> bool \<times> PacketNumber" where
  "pns_Pop rnd (Sequential g) = (let (g, r) = seq_Pop g in (Sequential g, r))"
| "pns_Pop rnd (Skipping g) = (let (g, r) = skip_Pop rnd g in (Skipping g, r))"

subsection \<open>Abstraction and invariants\<close>

text \<open>The packets the history tracks, by packet number.\<close>

definition lookup :: "'f sentPacketHistory \<Rightarrow> PacketNumber \<Rightarrow> 'f packet option" where
  "lookup h pn =
     (case packets h of
        Some p0 # _ \<Rightarrow>
          if PacketNumber p0 \<le> pn \<and> pn < PacketNumber p0 + int (length (packets h))
          then packets h ! nat (pn - PacketNumber p0) else None
      | _ \<Rightarrow> None)"

fun numbered :: "PacketNumber \<Rightarrow> 'f packet option list \<Rightarrow> bool" where
  "numbered n [] = True"
| "numbered n (e # ps) = ((\<forall>p. e = Some p \<longrightarrow> PacketNumber p = n) \<and> numbered (n + 1) ps)"

definition countOutstanding :: "'f packet option list \<Rightarrow> nat" where
  "countOutstanding ps = length (filter (\<lambda>e. case e of Some p \<Rightarrow> outstanding p | None \<Rightarrow> False) ps)"

text \<open>
  The first entry is a packet, entry \<open>i\<close> has the packet number of the first plus \<open>i\<close>, the last number
  used is the highest, and the counter counts the outstanding packets.
\<close>

definition sent_inv :: "'f sentPacketHistory \<Rightarrow> bool" where
  "sent_inv h \<longleftrightarrow>
     (packets h \<noteq> [] \<longrightarrow> hd (packets h) \<noteq> None
        \<and> numbered (highestPacketNumber h - int (length (packets h)) + 1) (packets h)
        \<and> 0 \<le> highestPacketNumber h - int (length (packets h)) + 1)
     \<and> numOutstanding h = int (countOutstanding (packets h)) \<and> -1 \<le> highestPacketNumber h"

definition fairRnd :: "(int \<Rightarrow> int) \<Rightarrow> bool" where
  "fairRnd rnd \<longleftrightarrow> (\<forall>n > 0. 0 \<le> rnd n \<and> rnd n < n)"

text \<open>The next number a generator has not handed out, and its invariant.\<close>

fun pns_next :: "packetNumberGenerator \<Rightarrow> PacketNumber" where
  "pns_next (Sequential g) = seq_next g"
| "pns_next (Skipping g) = skip_next g"

fun pns_inv :: "packetNumberGenerator \<Rightarrow> bool" where
  "pns_inv (Sequential g) = True"
| "pns_inv (Skipping g) = (0 < period g \<and> 0 < maxPeriod g \<and> skip_next g \<le> nextToSkip g)"

text \<open>Drawing several packet numbers; each draw has its own source of randomness.\<close>

fun popAll :: "((int \<Rightarrow> int) \<Rightarrow> 'g \<Rightarrow> 'g \<times> bool \<times> PacketNumber) \<Rightarrow> (int \<Rightarrow> int) list \<Rightarrow> 'g \<Rightarrow> 'g \<times> (bool \<times> PacketNumber) list" where
  "popAll pop [] g = (g, [])"
| "popAll pop (rnd # rnds) g =
     (let (g, r) = pop rnd g; (g, rs) = popAll pop rnds g in (g, r # rs))"

text \<open>
  Drawing a packet number and recording the packet, the way \<open>PopPacketNumber\<close> and \<open>SentPacket\<close> use the
  generator and the history.
\<close>

definition drawAndSend ::
  "((int \<Rightarrow> int) \<Rightarrow> 'g \<Rightarrow> 'g \<times> bool \<times> PacketNumber) \<Rightarrow> (int \<Rightarrow> int) \<Rightarrow> 'g \<Rightarrow> 'f sentPacketHistory \<Rightarrow> 'f packet
   \<Rightarrow> ('g \<times> 'f sentPacketHistory) result" where
  "drawAndSend pop rnd g h p =
     (let (g, skipped, pn) = pop rnd g in
      bindE (if skipped then SkippedPacket h (pn - 1) else Inr h) (\<lambda>h.
      bindE (SentAckElicitingPacket h (p\<lparr>PacketNumber := pn\<rparr>)) (\<lambda>h. Inr (g, h))))"

subsection \<open>Lemmas on the history\<close>

lemma numbered_nth: "numbered n ps \<longleftrightarrow> (\<forall>i < length ps. \<forall>p. ps ! i = Some p \<longrightarrow> PacketNumber p = n + int i)"
proof (induction ps arbitrary: n)
  case (Cons e ps)
  show ?case unfolding numbered.simps Cons.IH
    by (auto simp: All_less_Suc2 algebra_simps)
qed simp

lemma numbered_append: "numbered n (ps @ qs) \<longleftrightarrow> numbered n ps \<and> numbered (n + int (length ps)) qs"
  by (induction ps arbitrary: n) (auto simp: algebra_simps)

lemma numbered_update_None: "numbered n ps \<Longrightarrow> numbered n (ps[i := None])"
  unfolding numbered_nth by (metis length_list_update nth_list_update_eq nth_list_update_neq option.distinct(1))

lemma countOutstanding_simps [simp]:
  "countOutstanding [] = 0" "countOutstanding (None # ps) = countOutstanding ps"
  "countOutstanding (Some p # ps) = (if outstanding p then Suc (countOutstanding ps) else countOutstanding ps)"
  "countOutstanding (ps @ qs) = countOutstanding ps + countOutstanding qs"
  by (auto simp: countOutstanding_def)

lemma countOutstanding_update:
  "i < length ps \<Longrightarrow> ps ! i = Some p \<Longrightarrow>
   countOutstanding ps = countOutstanding (ps[i := None]) + (if outstanding p then 1 else 0)"
proof (induction ps arbitrary: i)
  case (Cons e ps)
  then show ?case by (cases i; cases e) auto
qed simp

lemma cleanupStart_loop_drop:
  "\<exists>k \<le> length ps. cleanupStart_loop ps = drop k ps \<and> (\<forall>i < k. ps ! i = None)
    \<and> (k < length ps \<longrightarrow> ps ! k \<noteq> None)"
proof (induction ps rule: cleanupStart_loop.induct)
  case (3 ps)
  then obtain k where "k \<le> length ps" "cleanupStart_loop ps = drop k ps" "\<forall>i < k. ps ! i = None"
    "k < length ps \<longrightarrow> ps ! k \<noteq> None" by blast
  then show ?case by (intro exI [of _ "Suc k"]) (auto simp: less_Suc_eq_0_disj)
qed (auto intro: exI [of _ 0])

lemma countOutstanding_cleanup [simp]: "countOutstanding (cleanupStart_loop ps) = countOutstanding ps"
  by (induction ps rule: cleanupStart_loop.induct) auto

lemma sent_inv_first:
  assumes "sent_inv h" "packets h \<noteq> []"
  obtains p0 ps where "packets h = Some p0 # ps"
    "PacketNumber p0 = highestPacketNumber h - int (length (packets h)) + 1"
    "numbered (PacketNumber p0) (packets h)" "0 \<le> PacketNumber p0"
  using assms by (cases "packets h") (auto simp: sent_inv_def)

lemma sent_inv_intro:
  assumes "packets h = [] \<or> (\<exists>p0 ps. packets h = Some p0 # ps \<and> numbered n (packets h) \<and> 0 \<le> n
      \<and> highestPacketNumber h = n + int (length (packets h)) - 1)"
    "numOutstanding h = int (countOutstanding (packets h))" "-1 \<le> highestPacketNumber h"
  shows "sent_inv h"
  using assms by (auto simp: sent_inv_def)

lemma lookup_nth:
  assumes "sent_inv h" "packets h = Some p0 # ps"
  shows "lookup h pn = (if PacketNumber p0 \<le> pn \<and> pn \<le> highestPacketNumber h
    then packets h ! nat (pn - PacketNumber p0) else None)"
  using assms by (auto simp: lookup_def sent_inv_def)

lemma lookup_PacketNumber:
  assumes "sent_inv h" "lookup h pn = Some p"
  shows "PacketNumber p = pn" "0 \<le> pn" "pn \<le> highestPacketNumber h"
proof -
  have "packets h \<noteq> []" using assms(2) by (auto simp: lookup_def)
  with assms(1) obtain p0 ps where s: "packets h = Some p0 # ps"
    "PacketNumber p0 = highestPacketNumber h - int (length (packets h)) + 1"
    "numbered (PacketNumber p0) (packets h)" "0 \<le> PacketNumber p0" by (rule sent_inv_first)
  have l: "PacketNumber p0 \<le> pn" "pn \<le> highestPacketNumber h" "packets h ! nat (pn - PacketNumber p0) = Some p"
    using assms lookup_nth [OF assms(1) s(1), of pn] by (auto split: if_splits)
  then show "0 \<le> pn" "pn \<le> highestPacketNumber h" using s(4) by auto
  have "nat (pn - PacketNumber p0) < length (packets h)" using l s(2) by auto
  from s(3) [unfolded numbered_nth, rule_format, OF this l(3)] l(1) show "PacketNumber p = pn" by simp
qed

lemma getIndex_lookup:
  assumes i: "sent_inv h" and l: "lookup h pn = Some p"
  obtains k where "getIndex h pn = Inr (Some k)" "k < length (packets h)" "packets h ! k = Some p"
    "pn = highestPacketNumber h - int (length (packets h)) + 1 + int k"
proof -
  have "packets h \<noteq> []" using l by (auto simp: lookup_def)
  with i obtain p0 ps where s: "packets h = Some p0 # ps"
    "PacketNumber p0 = highestPacketNumber h - int (length (packets h)) + 1"
    "numbered (PacketNumber p0) (packets h)" "0 \<le> PacketNumber p0" by (rule sent_inv_first)
  have r: "PacketNumber p0 \<le> pn" "pn \<le> highestPacketNumber h" "packets h ! nat (pn - PacketNumber p0) = Some p"
    using i l lookup_nth [OF i s(1), of pn] by (auto split: if_splits)
  show thesis
    by (rule that [of "nat (pn - PacketNumber p0)"]) (use r s(2) in \<open>auto simp: getIndex_def s(1) Let_def\<close>)
qed

lemma drop_numbered: "numbered n ps \<Longrightarrow> k \<le> length ps \<Longrightarrow> numbered (n + int k) (drop k ps)"
  by (metis append_take_drop_id length_take min.absorb2 numbered_append)

lemma lookup_index:
  assumes "sent_inv h"
  defines "m \<equiv> highestPacketNumber h - int (length (packets h)) + 1"
  shows "lookup h q = (if m \<le> q \<and> q \<le> highestPacketNumber h then packets h ! nat (q - m) else None)"
proof (cases "packets h = []")
  case False
  with assms(1) obtain p0 ps where "packets h = Some p0 # ps" "PacketNumber p0 = m"
    unfolding m_def by (rule sent_inv_first)
  with lookup_nth [OF assms(1)] show ?thesis by simp
qed (auto simp: lookup_def m_def)

text \<open>
  Clearing entries and then dropping the leading nil entries keeps the invariant, and changes the
  tracked packets exactly at the cleared entries.
\<close>

lemma cleanup_inv:
  assumes m: "m = highestPacketNumber h - int (length (packets h)) + 1" "0 \<le> m" "-1 \<le> highestPacketNumber h"
    and nn: "numbered m (packets h)" and n: "numOutstanding h = int (countOutstanding (packets h))"
  shows "sent_inv (cleanupStart h)"
proof -
  obtain k where k: "k \<le> length (packets h)" "cleanupStart_loop (packets h) = drop k (packets h)"
    "k < length (packets h) \<longrightarrow> packets h ! k \<noteq> None" using cleanupStart_loop_drop by blast
  have cnt: "countOutstanding (drop k (packets h)) = countOutstanding (packets h)"
    using k(2) countOutstanding_cleanup by metis
  show ?thesis
  proof (cases "k < length (packets h)")
    case True
    then have "hd (drop k (packets h)) \<noteq> None" using k(3) by (simp add: hd_drop_conv_nth)
    moreover have "numbered (m + int k) (drop k (packets h))" using drop_numbered [OF nn k(1)] .
    moreover have "m + int k = highestPacketNumber h - int (length (drop k (packets h))) + 1" using m(1) k(1) by simp
    ultimately show ?thesis using m(2,3) n cnt by (simp add: sent_inv_def cleanupStart_def k(2) del: length_drop)
  next
    case False
    then show ?thesis using n cnt m(3) k(1) by (simp add: sent_inv_def cleanupStart_def k(2))
  qed
qed

lemma cleanup_lookup:
  assumes m: "m = highestPacketNumber h - int (length (packets h)) + 1" and i: "sent_inv (cleanupStart h)"
  shows "lookup (cleanupStart h) q =
    (if m \<le> q \<and> q \<le> highestPacketNumber h then packets h ! nat (q - m) else None)"
proof -
  obtain k where k: "k \<le> length (packets h)" "cleanupStart_loop (packets h) = drop k (packets h)"
    "\<forall>j < k. packets h ! j = None" using cleanupStart_loop_drop by blast
  have l: "lookup (cleanupStart h) q = (if m + int k \<le> q \<and> q \<le> highestPacketNumber h
      then drop k (packets h) ! nat (q - (m + int k)) else None)"
  proof -
    have "packets (cleanupStart h) = drop k (packets h)" "highestPacketNumber (cleanupStart h) = highestPacketNumber h"
      by (simp_all add: cleanupStart_def k(2))
    moreover from this have "highestPacketNumber (cleanupStart h) - int (length (packets (cleanupStart h))) + 1 = m + int k"
      using k(1) m by simp
    ultimately show ?thesis using lookup_index [OF i, of q] by (simp del: length_drop nth_drop)
  qed
  consider "m + int k \<le> q" | "m \<le> q" "q < m + int k" | "q < m" by linarith
  then show ?thesis
  proof cases
    case 1
    then have "k + nat (q - (m + int k)) = nat (q - m)" by linarith
    with 1 l k(1) show ?thesis by (simp add: nth_drop)
  next
    case 2
    then have "nat (q - m) < k" by linarith
    with 2 l k(3) show ?thesis by simp
  qed (use l in simp)
qed

lemma cleanup_spec:
  assumes i: "sent_inv h" and l: "length ps = length (packets h)" and ne: "packets h \<noteq> []"
    and e: "\<And>j. j < length ps \<Longrightarrow> ps ! j = packets h ! j \<or> ps ! j = None"
    and n: "n = int (countOutstanding ps)"
  defines "m \<equiv> highestPacketNumber h - int (length (packets h)) + 1"
    and "h' \<equiv> cleanupStart (h\<lparr>packets := ps, numOutstanding := n\<rparr>)"
  shows "sent_inv h'"
    "lookup h' q = (if m \<le> q \<and> q \<le> highestPacketNumber h then ps ! nat (q - m) else None)"
proof -
  have m: "0 \<le> m" "-1 \<le> highestPacketNumber h" "numbered m (packets h)"
    using i ne by (auto simp: sent_inv_def m_def)
  then have "numbered m ps" using e l unfolding numbered_nth by (metis option.distinct(1))
  then show inv: "sent_inv h'"
    unfolding h'_def using m n l by (intro cleanup_inv [of m]) (auto simp: m_def)
  show "lookup h' q = (if m \<le> q \<and> q \<le> highestPacketNumber h then ps ! nat (q - m) else None)"
    using cleanup_lookup [of m "h\<lparr>packets := ps, numOutstanding := n\<rparr>" q] inv l by (simp add: h'_def m_def)
qed

lemma clearSkipped_spec:
  assumes "idx \<le> length ps"
  shows "length (fst (clearSkipped ps idx)) = length ps \<and> countOutstanding (fst (clearSkipped ps idx)) = countOutstanding ps
    \<and> (\<forall>j < length ps. fst (clearSkipped ps idx) ! j = ps ! j
        \<or> (j < idx \<and> fst (clearSkipped ps idx) ! j = None \<and> (\<exists>p. ps ! j = Some p \<and> skippedPacket p)))
    \<and> (snd (clearSkipped ps idx) \<noteq> 0 \<longrightarrow> fst (clearSkipped ps idx) ! 0 = ps ! 0)"
  using assms
proof (induction ps idx rule: clearSkipped.induct)
  case (2 ps idx)
  show ?case
  proof (cases "ps ! idx")
    case (Some p)
    show ?thesis
    proof (cases "skippedPacket p")
      case True
      let ?r = "clearSkipped (ps[idx := None]) idx"
      have IH: "length (fst ?r) = length ps" "countOutstanding (fst ?r) = countOutstanding (ps[idx := None])"
        "\<And>j. j < length ps \<Longrightarrow> fst ?r ! j = ps[idx := None] ! j
          \<or> (j < idx \<and> fst ?r ! j = None \<and> (\<exists>p. ps[idx := None] ! j = Some p \<and> skippedPacket p))"
        "snd ?r \<noteq> 0 \<longrightarrow> fst ?r ! 0 = ps[idx := None] ! 0"
        using "2.IH" [OF Some] True "2.prems" by auto
      have c: "countOutstanding (ps[idx := None]) = countOutstanding ps"
        using countOutstanding_update [of idx ps p] Some True "2.prems" by (simp add: outstanding_def)
      have el: "fst ?r ! j = ps ! j \<or> (j < Suc idx \<and> fst ?r ! j = None \<and> (\<exists>p. ps ! j = Some p \<and> skippedPacket p))"
        if "j < length ps" for j
        using IH(3) [OF that] that Some True by (cases "j = idx") auto
      have "snd ?r \<noteq> 0 \<Longrightarrow> idx \<noteq> 0" by (cases idx) auto
      with IH c el Some True show ?thesis by auto
    qed (use Some in auto)
  qed auto
qed simp

lemma cleanupStart_not_nil: "cleanupStart_loop ps \<noteq> None # qs"
  by (induction ps rule: cleanupStart_loop.induct) auto

lemma clearEntry_spec:
  assumes i: "sent_inv h" and k: "k < length (packets h)" "packets h ! k = Some p"
  shows "\<exists>n. clearEntry h k = Inr (h\<lparr>packets := (packets h)[k := None], numOutstanding := n\<rparr>)
    \<and> n = int (countOutstanding ((packets h)[k := None]))"
  using i k countOutstanding_update [OF k] by (auto simp: clearEntry_def sent_inv_def Let_def)

text \<open>
  Removing a tracked packet: it and possibly skipped packet numbers before it are forgotten, nothing
  else changes, and no panic is reached.
\<close>

lemma Remove_spec:
  assumes i: "sent_inv h" and l: "lookup h pn = Some p"
  shows "\<exists>h'. Remove h pn = Inr h' \<and> sent_inv h' \<and> highestPacketNumber h' = highestPacketNumber h
    \<and> lookup h' pn = None
    \<and> (\<forall>q. q \<noteq> pn \<longrightarrow> lookup h' q = lookup h q
        \<or> (q < pn \<and> lookup h' q = None \<and> (\<exists>r. lookup h q = Some r \<and> skippedPacket r)))"
proof -
  obtain k where k: "getIndex h pn = Inr (Some k)" "k < length (packets h)" "packets h ! k = Some p"
    "pn = highestPacketNumber h - int (length (packets h)) + 1 + int k" using getIndex_lookup [OF i l] .
  let ?m = "highestPacketNumber h - int (length (packets h)) + 1"
  obtain n where n: "clearEntry h k = Inr (h\<lparr>packets := (packets h)[k := None], numOutstanding := n\<rparr>)"
    "n = int (countOutstanding ((packets h)[k := None]))" using clearEntry_spec [OF i k(2,3)] by blast
  obtain ps j where cs: "clearSkipped ((packets h)[k := None]) k = (ps, j)" by fastforce
  have c: "length ps = length (packets h)" "countOutstanding ps = countOutstanding ((packets h)[k := None])"
    "\<And>j. j < length ps \<Longrightarrow> ps ! j = (packets h)[k := None] ! j
      \<or> (j < k \<and> ps ! j = None \<and> (\<exists>p. (packets h)[k := None] ! j = Some p \<and> skippedPacket p))"
    "j \<noteq> 0 \<Longrightarrow> ps ! 0 = (packets h)[k := None] ! 0"
    using clearSkipped_spec [of k "(packets h)[k := None]"] k(2) cs by auto
  let ?h' = "cleanupStart (h\<lparr>packets := ps, numOutstanding := n\<rparr>)"
  have ne: "packets h \<noteq> []" using k(2) by auto
  have el: "ps ! j = packets h ! j \<or> ps ! j = None" if "j < length ps" for j
    using c(3) [OF that] k(2) by (cases "j = k") auto
  note cl = cleanup_spec [OF i c(1) ne el n(2) [folded c(2)]]
  have "\<exists>q qs. ps = Some q # qs" if "j \<noteq> 0"
  proof -
    have "k \<noteq> 0" using that cs by (cases k) auto
    then have "ps ! 0 = hd (packets h)" using c(4) [OF that] ne by (simp add: hd_conv_nth)
    then show ?thesis using i ne c(1) by (cases ps) (auto simp: sent_inv_def)
  qed
  note start = this
  have r: "Remove h pn = Inr ?h'"
  proof (cases "j = 0")
    case True
    with k(1) n(1) cs cleanupStart_not_nil [of ps] show ?thesis
      by (auto simp: Remove_def cleanupStart_def Let_def split: list.split option.split)
  next
    case False
    with start obtain q qs where "ps = Some q # qs" by blast
    with False k(1) n(1) cs show ?thesis by (simp add: Remove_def cleanupStart_def Let_def)
  qed
  have idx: "lookup h q = (if ?m \<le> q \<and> q \<le> highestPacketNumber h then packets h ! nat (q - ?m) else None)" for q
    by (rule lookup_index [OF i])
  have pk: "ps ! k = None" using c(3) [of k] c(1) k(2) by auto
  have "lookup ?h' q = lookup h q \<or> (q < pn \<and> lookup ?h' q = None \<and> (\<exists>r. lookup h q = Some r \<and> skippedPacket r))"
    if "q \<noteq> pn" for q
  proof (cases "?m \<le> q \<and> q \<le> highestPacketNumber h")
    case True
    then have "nat (q - ?m) < length ps" "nat (q - ?m) \<noteq> k" using that k(4) c(1) by linarith+
    with c(3) [of "nat (q - ?m)"] True show ?thesis using k(4) by (auto simp: cl(2) idx)
  qed (auto simp: cl(2) idx)
  moreover have "lookup ?h' pn = None" using cl(2) [of pn] k(2,4) pk by simp
  ultimately show ?thesis using r cl(1) by (auto simp: cleanupStart_def)
qed

lemma DeclareLost_spec:
  assumes i: "sent_inv h" and l: "lookup h pn = Some p"
  shows "\<exists>h'. DeclareLost h pn = Inr h' \<and> sent_inv h' \<and> highestPacketNumber h' = highestPacketNumber h
    \<and> lookup h' = (lookup h)(pn := None)"
proof -
  obtain k where k: "getIndex h pn = Inr (Some k)" "k < length (packets h)" "packets h ! k = Some p"
    "pn = highestPacketNumber h - int (length (packets h)) + 1 + int k" using getIndex_lookup [OF i l] .
  let ?m = "highestPacketNumber h - int (length (packets h)) + 1" and ?ps = "(packets h)[k := None]"
  obtain n where n: "clearEntry h k = Inr (h\<lparr>packets := ?ps, numOutstanding := n\<rparr>)"
    "n = int (countOutstanding ?ps)" using clearEntry_spec [OF i k(2,3)] by blast
  let ?h' = "cleanupStart (h\<lparr>packets := ?ps, numOutstanding := n\<rparr>)"
  have ne: "packets h \<noteq> []" using k(2) by auto
  have el: "?ps ! j = packets h ! j \<or> ?ps ! j = None" if "j < length ?ps" for j
    using that by (cases "j = k") auto
  have cl: "sent_inv ?h'" "\<And>q. lookup ?h' q = (if ?m \<le> q \<and> q \<le> highestPacketNumber h then ?ps ! nat (q - ?m) else None)"
    using cleanup_spec [OF i length_list_update ne _ n(2)] el by auto
  have "k \<noteq> 0 \<Longrightarrow> \<exists>q qs. ?ps = Some q # qs"
    using i ne by (cases "packets h"; cases k) (auto simp: sent_inv_def)
  then have "k \<noteq> 0 \<Longrightarrow> cleanupStart (h\<lparr>packets := ?ps, numOutstanding := n\<rparr>) = h\<lparr>packets := ?ps, numOutstanding := n\<rparr>"
    by (auto simp: cleanupStart_def)
  then have "DeclareLost h pn = Inr ?h'" using k(1) n(1) by (auto simp: DeclareLost_def)
  moreover have "lookup ?h' q = ((lookup h)(pn := None)) q" for q
  proof (cases "?m \<le> q \<and> q \<le> highestPacketNumber h")
    case True
    then have "nat (q - ?m) = k \<longleftrightarrow> q = pn" using k(4) by linarith
    with True show ?thesis using k(2) by (auto simp: cl(2) lookup_index [OF i] nth_list_update)
  qed (auto simp: cl(2) lookup_index [OF i])
  ultimately show ?thesis using cl(1) by (auto simp: cleanupStart_def)
qed

lemma append_entry_spec:
  assumes i: "sent_inv h" and pn: "pn = highestPacketNumber h + 1 \<or> highestPacketNumber h = -1" "0 \<le> pn"
    and e: "\<And>p. e = Some p \<Longrightarrow> PacketNumber p = pn" "packets h = [] \<Longrightarrow> e \<noteq> None"
    and n: "n = numOutstanding h + int (countOutstanding [e])"
  defines "h' \<equiv> h\<lparr>highestPacketNumber := pn, packets := packets h @ [e], numOutstanding := n\<rparr>"
  shows "sent_inv h' \<and> lookup h' = (lookup h)(pn := e)"
proof -
  have ne: "packets h \<noteq> [] \<Longrightarrow> pn = highestPacketNumber h + 1"
    using i pn by (cases "packets h") (auto simp: sent_inv_def)
  have inv: "sent_inv h'"
    using i e pn(2) n ne by (cases "packets h = []") (auto simp: sent_inv_def h'_def numbered_append algebra_simps)
  moreover have "lookup h' q = ((lookup h)(pn := e)) q" for q
  proof (cases "packets h = []")
    case True
    then show ?thesis using lookup_index [OF inv, of q] lookup_index [OF i, of q] by (auto simp: h'_def)
  next
    case False
    then show ?thesis using ne i lookup_index [OF inv, of q] lookup_index [OF i, of q]
      by (auto simp: h'_def nth_append)
  qed
  ultimately show ?thesis by auto
qed

lemma Sent_ops_spec:
  assumes i: "sent_inv h" and pn: "pn = highestPacketNumber h + 1 \<or> highestPacketNumber h = -1" "0 \<le> pn"
  shows "\<exists>h'. SkippedPacket h pn = Inr h' \<and> sent_inv h' \<and> highestPacketNumber h' = pn
      \<and> lookup h' = (lookup h)(pn \<mapsto> getPacket\<lparr>PacketNumber := pn, skippedPacket := True\<rparr>)"
    and "\<exists>h'. SentNonAckElicitingPacket h pn = Inr h' \<and> sent_inv h' \<and> highestPacketNumber h' = pn \<and> lookup h' = lookup h"
    and "PacketNumber p = pn \<Longrightarrow> \<exists>h'. SentAckElicitingPacket h p = Inr h' \<and> sent_inv h' \<and> highestPacketNumber h' = pn
      \<and> lookup h' = (lookup h)(pn \<mapsto> p)"
proof -
  have c: "checkSequentialPacketNumberUse h pn = Inr ()"
    using pn by (auto simp: checkSequentialPacketNumberUse_def InvalidPacketNumber_def)
  have new: "lookup h pn = None"
    using i pn(2) lookup_PacketNumber [OF i, of pn] pn(1) by (cases "lookup h pn") auto
  note app = append_entry_spec [OF i pn]
  show "\<exists>h'. SkippedPacket h pn = Inr h' \<and> sent_inv h' \<and> highestPacketNumber h' = pn
      \<and> lookup h' = (lookup h)(pn \<mapsto> getPacket\<lparr>PacketNumber := pn, skippedPacket := True\<rparr>)"
    using app [of "Some (getPacket\<lparr>PacketNumber := pn, skippedPacket := True\<rparr>)" "numOutstanding h"] c
    by (simp add: SkippedPacket_def outstanding_def)
  show "\<exists>h'. SentNonAckElicitingPacket h pn = Inr h' \<and> sent_inv h' \<and> highestPacketNumber h' = pn \<and> lookup h' = lookup h"
  proof (cases "packets h = []")
    case True
    then show ?thesis using c i pn(2) by (auto simp: SentNonAckElicitingPacket_def sent_inv_def lookup_def)
  next
    case False
    then show ?thesis using app [of None "numOutstanding h"] c new
      by (auto simp: SentNonAckElicitingPacket_def Let_def)
  qed
  show "\<exists>h'. SentAckElicitingPacket h p = Inr h' \<and> sent_inv h' \<and> highestPacketNumber h' = pn
      \<and> lookup h' = (lookup h)(pn \<mapsto> p)" if "PacketNumber p = pn"
    using app [of "Some p" "numOutstanding h + int (countOutstanding [Some p])"] c that
    by (auto simp: SentAckElicitingPacket_def Let_def)
qed

lemma countOutstanding_pos: "0 < countOutstanding ps \<longleftrightarrow> (\<exists>p. Some p \<in> set ps \<and> outstanding p)"
  by (induction ps) (auto split: if_splits option.splits simp: countOutstanding_def)

lemma set_packets_lookup:
  assumes "sent_inv h"
  shows "Some p \<in> set (packets h) \<longleftrightarrow> (\<exists>q. lookup h q = Some p)"
proof
  assume "Some p \<in> set (packets h)"
  then obtain k where "k < length (packets h)" "packets h ! k = Some p" by (auto simp: in_set_conv_nth)
  then have "lookup h (highestPacketNumber h - int (length (packets h)) + 1 + int k) = Some p"
    by (simp add: lookup_index [OF assms])
  then show "\<exists>q. lookup h q = Some p" ..
next
  assume "\<exists>q. lookup h q = Some p"
  then obtain q where "lookup h q = Some p" ..
  with assms obtain k where "k < length (packets h)" "packets h ! k = Some p" by (rule getIndex_lookup)
  then show "Some p \<in> set (packets h)" by (metis nth_mem)
qed

lemma HasOutstandingPackets_iff:
  "sent_inv h \<Longrightarrow> HasOutstandingPackets h \<longleftrightarrow> (\<exists>q p. lookup h q = Some p \<and> outstanding p)"
  using set_packets_lookup [of h] countOutstanding_pos [of "packets h"]
  by (auto simp: HasOutstandingPackets_def sent_inv_def)

subsection \<open>Packet number generators\<close>

text \<open>
  The contract of the interface \<open>packetNumberGenerator\<close>: \<open>Pop\<close> returns the number that \<open>Peek\<close> showed,
  which is the next unused one or, if one is skipped, the one after it; and it never skips two
  numbers in a row.
\<close>

locale packet_number_generator =
  fixes gen_inv :: "'g \<Rightarrow> bool" and next_number :: "'g \<Rightarrow> PacketNumber"
    and peek :: "'g \<Rightarrow> PacketNumber" and pop :: "(int \<Rightarrow> int) \<Rightarrow> 'g \<Rightarrow> 'g \<times> bool \<times> PacketNumber"
  assumes pop_step: "fairRnd rnd \<Longrightarrow> gen_inv g \<Longrightarrow> pop rnd g = (g', skipped, pn) \<Longrightarrow>
    gen_inv g' \<and> pn = peek g \<and> pn = next_number g + (if skipped then 1 else 0) \<and> next_number g' = pn + 1
    \<and> (skipped \<longrightarrow> peek g' = next_number g')"
begin

lemma popAll_increasing:
  assumes "list_all fairRnd rnds" "gen_inv g" "popAll pop rnds g = (g', rs)"
  shows "gen_inv g' \<and> length rs = length rnds \<and> (\<forall>r \<in> set rs. next_number g \<le> snd r)
    \<and> sorted_wrt (<) (map snd rs)
    \<and> (\<forall>i. Suc i < length rs \<longrightarrow> snd (rs ! Suc i) - snd (rs ! i) \<in> {1, 2} \<and> \<not> (fst (rs ! i) \<and> fst (rs ! Suc i)))
    \<and> (rs \<noteq> [] \<longrightarrow> snd (hd rs) = peek g \<and> (fst (hd rs) \<longleftrightarrow> peek g \<noteq> next_number g))"
  using assms
proof (induction rnds arbitrary: g rs)
  case (Cons rnd rnds)
  obtain g1 sk pn where p: "pop rnd g = (g1, sk, pn)" by (cases "pop rnd g")
  obtain rs1 where r: "popAll pop rnds g1 = (g', rs1)" "rs = (sk, pn) # rs1"
    using Cons.prems(3) p by (auto split: prod.splits)
  have s: "gen_inv g1" "pn = peek g" "pn = next_number g + (if sk then 1 else 0)" "next_number g1 = pn + 1"
    "sk \<longrightarrow> peek g1 = next_number g1"
    using pop_step [OF _ Cons.prems(2) p] Cons.prems(1) by auto
  have IH: "gen_inv g'" "length rs1 = length rnds" "\<forall>r \<in> set rs1. next_number g1 \<le> snd r" "sorted_wrt (<) (map snd rs1)"
    "\<forall>i. Suc i < length rs1 \<longrightarrow> snd (rs1 ! Suc i) - snd (rs1 ! i) \<in> {1, 2} \<and> \<not> (fst (rs1 ! i) \<and> fst (rs1 ! Suc i))"
    "rs1 \<noteq> [] \<longrightarrow> snd (hd rs1) = peek g1 \<and> (fst (hd rs1) \<longleftrightarrow> peek g1 \<noteq> next_number g1)"
    using Cons.IH [OF _ s(1) r(1)] Cons.prems(1) by auto
  have pk: "rnds \<noteq> [] \<Longrightarrow> peek g1 - next_number g1 \<in> {0, 1}"
  proof -
    assume "rnds \<noteq> []"
    then obtain rnd' rest where "rnds = rnd' # rest" by (cases rnds) auto
    with Cons.prems(1) pop_step [OF _ s(1), of rnd'] show ?thesis
      by (cases "pop rnd' g1") (auto split: if_splits)
  qed
  have adj: "snd (rs ! Suc i) - snd (rs ! i) \<in> {1, 2} \<and> \<not> (fst (rs ! i) \<and> fst (rs ! Suc i))"
    if "Suc i < length rs" for i
  proof (cases i)
    case 0
    then have "rs1 \<noteq> []" "rnds \<noteq> []" using that r(2) IH(2) by auto
    then show ?thesis using 0 r(2) IH(6) pk s(4,5) by (auto simp: hd_conv_nth)
  next
    case (Suc k)
    then show ?thesis using that r(2) IH(5) by auto
  qed
  have up: "\<forall>r \<in> set rs1. pn < snd r" using IH(3) s(4) by auto
  have "next_number g \<le> pn" using s(3) by simp
  with up have "\<forall>r \<in> set rs. next_number g \<le> snd r" using r(2) by auto
  moreover have "sorted_wrt (<) (map snd rs)" using up IH(4) r(2) by auto
  moreover have "fst (hd rs) \<longleftrightarrow> peek g \<noteq> next_number g" "snd (hd rs) = peek g" "length rs = length (rnd # rnds)"
    using s(2,3) r(2) IH(2) by (simp_all split: if_splits)
  ultimately show ?case using IH(1) adj by blast
qed simp

lemma drawAndSend_sequential:
  assumes "fairRnd rnd" "gen_inv g" "sent_inv h" "highestPacketNumber h + 1 = next_number g" "0 \<le> next_number g"
  shows "\<exists>g' h'. drawAndSend pop rnd g h p = Inr (g', h') \<and> gen_inv g' \<and> sent_inv h'
    \<and> highestPacketNumber h' + 1 = next_number g' \<and> highestPacketNumber h' = peek g
    \<and> lookup h' (peek g) = Some (p\<lparr>PacketNumber := peek g\<rparr>)"
proof -
  obtain g' sk pn where p: "pop rnd g = (g', sk, pn)" by (cases "pop rnd g")
  note s = pop_step [OF assms(1,2) p]
  show ?thesis
  proof (cases sk)
    case True
    obtain h1 where h1: "SkippedPacket h (pn - 1) = Inr h1" "sent_inv h1" "highestPacketNumber h1 = pn - 1"
      using Sent_ops_spec(1) [OF assms(3), of "pn - 1"] s True assms(4,5) by auto
    then show ?thesis using Sent_ops_spec(3) [OF h1(2), of pn "p\<lparr>PacketNumber := pn\<rparr>"] s True assms(5) p
      by (auto simp: drawAndSend_def)
  next
    case False
    then show ?thesis using Sent_ops_spec(3) [OF assms(3), of pn "p\<lparr>PacketNumber := pn\<rparr>"] s assms(4,5) p
      by (auto simp: drawAndSend_def)
  qed
qed

end

interpretation seqgen: packet_number_generator "\<lambda>_. True" seq_next seq_Peek "\<lambda>_. seq_Pop"
  by unfold_locales (auto simp: seq_Peek_def seq_Pop_def)

lemma skip_Pop_step:
  assumes r: "fairRnd rnd" and g: "0 < period g" "0 < maxPeriod g" "skip_next g \<le> nextToSkip g"
    and p: "skip_Pop rnd g = (g', skipped, pn)"
  shows "0 < period g' \<and> 0 < maxPeriod g' \<and> skip_next g' \<le> nextToSkip g' \<and> pn = skip_Peek g
    \<and> pn = skip_next g + (if skipped then 1 else 0) \<and> skip_next g' = pn + 1
    \<and> (skipped \<longrightarrow> skip_Peek g' = skip_next g')"
proof -
  have "0 \<le> rnd (2 * period g)" using r g(1) by (simp add: fairRnd_def)
  with g p show ?thesis
    by (auto simp: skip_Pop_def skip_Peek_def generateNewSkip_def Let_def split: if_splits)
qed

interpretation skipgen: packet_number_generator "\<lambda>g. pns_inv (Skipping g)" skip_next skip_Peek skip_Pop
proof
  fix rnd g g' skipped pn
  assume "fairRnd rnd" "pns_inv (Skipping g)" "skip_Pop rnd g = (g', skipped, pn)"
  with skip_Pop_step [of rnd g g' skipped pn]
  show "pns_inv (Skipping g') \<and> pn = skip_Peek g \<and> pn = skip_next g + (if skipped then 1 else 0)
      \<and> skip_next g' = pn + 1 \<and> (skipped \<longrightarrow> skip_Peek g' = skip_next g')" by simp
qed

interpretation pnsgen: packet_number_generator pns_inv pns_next pns_Peek pns_Pop
proof
  fix rnd g g' skipped pn
  assume "fairRnd rnd" "pns_inv g" "pns_Pop rnd g = (g', skipped, pn)"
  then show "pns_inv g' \<and> pn = pns_Peek g \<and> pn = pns_next g + (if skipped then 1 else 0)
      \<and> pns_next g' = pn + 1 \<and> (skipped \<longrightarrow> pns_Peek g' = pns_next g')"
  proof (cases g)
    case (Sequential q)
    with \<open>pns_Pop rnd g = (g', skipped, pn)\<close> show ?thesis by (auto simp: seq_Pop_def seq_Peek_def)
  next
    case (Skipping q)
    with \<open>pns_Pop rnd g = (g', skipped, pn)\<close> obtain q' where "skip_Pop rnd q = (q', skipped, pn)" "g' = Skipping q'"
      by (auto split: prod.splits)
    with skip_Pop_step [OF \<open>fairRnd rnd\<close> _ _ _ this(1)] \<open>pns_inv g\<close> Skipping show ?thesis by simp
  qed
qed

lemma newSkipping_inv:
  assumes "fairRnd rnd" "0 < initialPeriod" "0 < mp"
  shows "pns_inv (newSkippingPacketNumberGenerator rnd initial initialPeriod mp)
   \<and> pns_next (newSkippingPacketNumberGenerator rnd initial initialPeriod mp) = initial
   \<and> pns_Peek (newSkippingPacketNumberGenerator rnd initial initialPeriod mp) = initial"
proof -
  have "0 \<le> rnd (2 * initialPeriod)" using assms by (simp add: fairRnd_def)
  with assms show ?thesis
    by (simp add: newSkippingPacketNumberGenerator_def generateNewSkip_def skip_Peek_def Let_def)
qed

subsection \<open>Random numbers\<close>

lemma Int31_range: "0 \<le> Int31 w" "Int31 w < 2 ^ 31"
proof -
  have "NOT (push_bit 31 1) = (mask 31 :: 32 word)" by (simp add: mask_eq_exp_minus_1)
  then have "uint (w AND NOT (push_bit 31 1)) = take_bit 31 (uint w)"
    by (simp only: unsigned_take_bit_eq flip: take_bit_eq_mask)
  then show "0 \<le> Int31 w" "Int31 w < 2 ^ 31" using take_bit_int_less_exp [of 31 "uint w"]
    by (simp_all only: Int31_def take_bit_nonnegative)
qed

lemma Int31n_reject_spec:
  "Int31n_reject mx ws = Some (v, ws') \<Longrightarrow> 0 \<le> v \<and> v \<le> mx \<and> v < 2 ^ 31"
proof (induction ws)
  case (Cons w ws)
  then show ?case using Int31_range [of w] by (auto split: if_splits)
qed simp

lemma Int31n_reject_total: "\<exists>w \<in> set ws. Int31 w \<le> mx \<Longrightarrow> Int31n_reject mx ws \<noteq> None"
  by (induction ws) auto

lemma Int31n_range:
  assumes "0 < n" "Int31n n ws = Some (v, ws')"
  shows "0 \<le> v \<and> v < n"
proof (cases "n AND (n - 1) = 0")
  case True
  with assms obtain w where "v = Int31 w AND (n - 1)" by (auto simp: Int31n_def split: list.splits)
  moreover have "0 \<le> Int31 w AND (n - 1)" using assms(1) by simp
  moreover have "Int31 w AND (n - 1) \<le> n - 1" using assms(1) by (simp add: AND_upper2)
  ultimately show ?thesis by simp
next
  case False
  with assms obtain u where u: "v = trem u n" "0 \<le> u"
    by (auto simp: Int31n_def Let_def dest: Int31n_reject_spec)
  then have "v = u mod n" using assms(1) by (simp add: trem_def tdiv_nonneg minus_mult_div_eq_mod)
  then show ?thesis using assms(1) by simp
qed

subsection \<open>Properties\<close>

lemma newSentPacketHistory_inv: "sent_inv newSentPacketHistory"
  by (simp add: sent_inv_def newSentPacketHistory_def InvalidPacketNumber_def)

text \<open>
  C16. The slice of packet pointers implements a finite map from packet numbers to packets. For a
  tracked packet neither \<open>DeclareLost\<close> nor \<open>Remove\<close> panics: the first forgets exactly this packet, the
  second also may forget skipped numbers before it, and both keep the invariant, in particular that
  the counter equals the number of outstanding packets.
\<close>

theorem sentPacketHistory_correct:
  assumes "sent_inv h" "lookup h pn = Some p"
  shows "(\<exists>h'. DeclareLost h pn = Inr h' \<and> sent_inv h' \<and> lookup h' = (lookup h)(pn := None))
    \<and> (\<exists>h'. Remove h pn = Inr h' \<and> sent_inv h' \<and> lookup h' pn = None
        \<and> (\<forall>q. q \<noteq> pn \<longrightarrow> lookup h' q = lookup h q
            \<or> (q < pn \<and> lookup h' q = None \<and> (\<exists>r. lookup h q = Some r \<and> skippedPacket r))))
    \<and> (HasOutstandingPackets h \<longleftrightarrow> (\<exists>q p. lookup h q = Some p \<and> outstanding p))"
  using DeclareLost_spec [OF assms] Remove_spec [OF assms] HasOutstandingPackets_iff [OF assms(1)] by blast

theorem sentPacketHistory_correct_witness:
  "\<exists>h'. Remove \<lparr>packets = [Some (getPacket\<lparr>PacketNumber := 4\<rparr> :: nat packet), Some (getPacket\<lparr>PacketNumber := 5, skippedPacket := True\<rparr>),
       Some (getPacket\<lparr>PacketNumber := 6\<rparr>)], numOutstanding = 2, highestPacketNumber = 6\<rparr> 6 = Inr h'
     \<and> sent_inv h' \<and> lookup h' 6 = None"
proof -
  let ?h = "\<lparr>packets = [Some (getPacket\<lparr>PacketNumber := 4\<rparr> :: nat packet), Some (getPacket\<lparr>PacketNumber := 5, skippedPacket := True\<rparr>),
       Some (getPacket\<lparr>PacketNumber := 6\<rparr>)], numOutstanding = 2, highestPacketNumber = 6\<rparr>"
  have "sent_inv ?h" by (simp add: sent_inv_def outstanding_def getPacket_def)
  moreover have "lookup ?h 6 = Some (getPacket\<lparr>PacketNumber := 6\<rparr>)" by (simp add: lookup_def)
  ultimately show ?thesis using sentPacketHistory_correct [of ?h 6] by blast
qed

text \<open>
  The skipping generator starts with the initial packet number, hands out strictly increasing
  numbers with steps of one or two, and never reports two skipped numbers in a row.
\<close>

theorem skipping_generator_correct:
  assumes "list_all fairRnd rnds" "fairRnd rnd0" "0 < initialPeriod" "0 < mp"
    and "popAll pns_Pop rnds (newSkippingPacketNumberGenerator rnd0 initial initialPeriod mp) = (g', rs)"
  shows "length rs = length rnds \<and> sorted_wrt (<) (map snd rs) \<and> (rs \<noteq> [] \<longrightarrow> snd (hd rs) = initial)
    \<and> (\<forall>i. Suc i < length rs \<longrightarrow> snd (rs ! Suc i) - snd (rs ! i) \<in> {1, 2} \<and> \<not> (fst (rs ! i) \<and> fst (rs ! Suc i)))"
  using pnsgen.popAll_increasing [OF assms(1) _ assms(5)] newSkipping_inv [OF assms(2-4), of initial] by simp

theorem skipping_generator_correct_witness:
  "length (snd (popAll pns_Pop [\<lambda>n. 0, \<lambda>n. 0, \<lambda>n. 0, \<lambda>n. n - 1] (newSkippingPacketNumberGenerator (\<lambda>n. 0) 7 1 4))) = 4"
  using skipping_generator_correct [of "[\<lambda>n. 0, \<lambda>n. 0, \<lambda>n. 0, \<lambda>n. n - 1]" "\<lambda>n. 0" 1 4 7, OF _ _ _ _ surjective_pairing]
  by (simp add: fairRnd_def)

text \<open>
  C17. Drawing a packet number and recording the packet under it never violates the sequential use that
  the history checks, also when a number is skipped, and the packet is then tracked.
\<close>

theorem packet_numbers_sequential:
  assumes "fairRnd rnd" "pns_inv g" "sent_inv h" "highestPacketNumber h + 1 = pns_next g" "0 \<le> pns_next g"
  shows "\<exists>g' h'. drawAndSend pns_Pop rnd g h p = Inr (g', h') \<and> pns_inv g' \<and> sent_inv h'
    \<and> highestPacketNumber h' + 1 = pns_next g'
    \<and> lookup h' (pns_Peek g) = Some (p\<lparr>PacketNumber := pns_Peek g\<rparr>)"
  using pnsgen.drawAndSend_sequential [OF assms] by blast

theorem packet_numbers_sequential_witness:
  "\<exists>g' h'. drawAndSend pns_Pop (\<lambda>n. 0) (newSequentialPacketNumberGenerator 0) newSentPacketHistory (getPacket :: nat packet) = Inr (g', h')
     \<and> sent_inv h'"
  using packet_numbers_sequential [of "\<lambda>n. 0" "newSequentialPacketNumberGenerator 0" "newSentPacketHistory :: nat sentPacketHistory" "getPacket"]
    newSentPacketHistory_inv [where 'a = nat]
  by (auto simp: fairRnd_def newSequentialPacketNumberGenerator_def newSentPacketHistory_def InvalidPacketNumber_def)

text \<open>
  \<open>Int31n\<close> returns a number below its argument; it consumes random words until one is accepted, so
  it returns for every supply that holds an acceptable word.
\<close>

theorem Int31n_correct:
  assumes "0 < n" "\<exists>w \<in> set ws. Int31 w \<le> 2 ^ 31 - 1 - 2 ^ 31 mod n"
  shows "\<exists>v ws'. Int31n n ws = Some (v, ws') \<and> 0 \<le> v \<and> v < n"
proof -
  have "Int31n n ws \<noteq> None"
    using assms(2) Int31n_reject_total [of ws "2 ^ 31 - 1 - 2 ^ 31 mod n"]
    by (auto simp: Int31n_def Let_def push_bit_eq_mult split: list.splits)
  then show ?thesis using Int31n_range [OF assms(1)] by (cases "Int31n n ws") auto
qed

theorem Int31n_correct_witness: "\<exists>v ws'. Int31n 512 [7] = Some (v, ws') \<and> 0 \<le> v \<and> v < 512"
  by (rule Int31n_correct) (simp_all add: Int31_def)

end
