(* ===== verification/Rtt_Stats.thy ===== *)
theory Rtt_Stats
  imports Floats Protocol
begin

text \<open>
  Round-trip time statistics, from \<open>internal/utils/rtt_stats.go\<close>. The smoothed values are computed in
  \<open>float32\<close> on microseconds, as in the source; all durations involved are not negative. The constants
  0.125, 0.875, 0.25 and 0.75 are exact.
\<close>

subsection \<open>State and operations\<close>

record RTTStats =
  hasMeasurement :: bool
  minRTT :: duration
  latestRTT :: duration
  smoothedRTT :: duration
  meanDeviation :: duration
  rtt_maxAckDelay :: duration

definition rttAlpha :: flt where "rttAlpha = (1, 3)"
definition oneMinusAlpha :: flt where "oneMinusAlpha = (7, 3)"
definition rttBeta :: flt where "rttBeta = (1, 2)"
definition oneMinusBeta :: flt where "oneMinusBeta = (3, 2)"
definition defaultInitialRTT :: duration where "defaultInitialRTT = 100 * Millisecond"

definition NewRTTStats :: RTTStats where
  "NewRTTStats = \<lparr>hasMeasurement = False, minRTT = 0, latestRTT = 0, smoothedRTT = 0,
     meanDeviation = 0, rtt_maxAckDelay = 0\<rparr>"

definition PTO :: "RTTStats \<Rightarrow> bool \<Rightarrow> duration" where
  "PTO r includeMaxAckDelay =
     (if smoothedRTT r = 0 then 2 * defaultInitialRTT
      else let pto = smoothedRTT r + max (4 * meanDeviation r) TimerGranularity
           in if includeMaxAckDelay then pto + rtt_maxAckDelay r else pto)"

definition smoothDeviation :: "duration \<Rightarrow> duration \<Rightarrow> duration" where
  "smoothDeviation dev d =
     flt_trunc (flt_add 24 (flt_mul 24 oneMinusBeta (float32 (tdiv dev Microsecond)))
       (flt_mul 24 rttBeta (float32 (tdiv (AbsDuration d) Microsecond)))) * Microsecond"

definition smoothRTT :: "duration \<Rightarrow> duration \<Rightarrow> duration" where
  "smoothRTT srtt sample =
     flt_trunc (flt_add 24 (flt_mul 24 (float32 (tdiv srtt Microsecond)) oneMinusAlpha)
       (flt_mul 24 (float32 (tdiv sample Microsecond)) rttAlpha)) * Microsecond"

definition UpdateRTT :: "RTTStats \<Rightarrow> duration \<Rightarrow> duration \<Rightarrow> RTTStats" where
  "UpdateRTT r sendDelta ackDelay =
     (if sendDelta = InfDuration \<or> sendDelta \<le> 0 then r
      else
        let r = (if minRTT r = 0 \<or> minRTT r > sendDelta then r\<lparr>minRTT := sendDelta\<rparr> else r);
            sample = (if sendDelta - minRTT r \<ge> ackDelay then sendDelta - ackDelay else sendDelta);
            r = r\<lparr>latestRTT := sample\<rparr>
        in if \<not> hasMeasurement r then
             r\<lparr>hasMeasurement := True, smoothedRTT := sample, meanDeviation := tdiv sample 2\<rparr>
           else
             let r = r\<lparr>meanDeviation := smoothDeviation (meanDeviation r) (smoothedRTT r - sample)\<rparr>
             in r\<lparr>smoothedRTT := smoothRTT (smoothedRTT r) sample\<rparr>)"

definition SetMaxAckDelay :: "RTTStats \<Rightarrow> duration \<Rightarrow> RTTStats" where
  "SetMaxAckDelay r mad = r\<lparr>rtt_maxAckDelay := mad\<rparr>"

definition SetInitialRTT :: "RTTStats \<Rightarrow> duration \<Rightarrow> RTTStats" where
  "SetInitialRTT r t = (if hasMeasurement r then r else r\<lparr>smoothedRTT := t, latestRTT := t\<rparr>)"

definition rtt_OnConnectionMigration :: "RTTStats \<Rightarrow> RTTStats" where
  "rtt_OnConnectionMigration r = r\<lparr>latestRTT := 0, minRTT := 0, smoothedRTT := 0, meanDeviation := 0\<rparr>"

definition ExpireSmoothedMetrics :: "RTTStats \<Rightarrow> RTTStats" where
  "ExpireSmoothedMetrics r =
     (let r = r\<lparr>meanDeviation := max (meanDeviation r) (AbsDuration (smoothedRTT r - latestRTT r))\<rparr>
      in r\<lparr>smoothedRTT := max (smoothedRTT r) (latestRTT r)\<rparr>)"

text \<open>No duration is negative, and a sample that was taken is not below the minimum.\<close>

definition rtt_inv :: "RTTStats \<Rightarrow> bool" where
  "rtt_inv r \<longleftrightarrow> 0 \<le> minRTT r \<and> 0 \<le> latestRTT r \<and> 0 \<le> smoothedRTT r \<and> 0 \<le> meanDeviation r
     \<and> 0 \<le> rtt_maxAckDelay r"

subsection \<open>Lemmas\<close>

lemma flt_weighted:
  assumes "0 \<le> x" "0 \<le> y" "int a * x + int b * y < 2 ^ 24" "0 < a" "0 < b"
  shows "flt_trunc (flt_add 24 (flt_mul 24 (float32 x) (a, s)) (flt_mul 24 (float32 y) (b, s)))
      = (int a * x + int b * y) div 2 ^ s"
    and "flt_mul 24 (a, s) (float32 x) = flt_mul 24 (float32 x) (a, s)"
proof -
  define m n where "m = nat x" and "n = nat y"
  have xy: "x = int m" "y = int n" using assms(1,2) by (simp_all add: m_def n_def)
  have sum: "a * m + b * n < 2 ^ 24"
  proof -
    have "int (a * m + b * n) < int (2 ^ 24)" using assms(3) xy by simp
    then show ?thesis by (simp only: of_nat_less_iff)
  qed
  have "m \<le> a * m" "n \<le> b * n" using assms(4,5) by auto
  with sum have b: "m < 2 ^ 24" "n < 2 ^ 24" "a * m < 2 ^ 24" "b * n < 2 ^ 24" by linarith+
  have mul: "flt_mul 24 (float32 x) (a, s) = (a * m, s)" "flt_mul 24 (float32 y) (b, s) = (b * n, s)"
    using b by (simp_all add: flt_mul_def flt_of_def xy round_sig_exact mult.commute)
  have "flt_add 24 (a * m, s) (b * n, s) = ((a * m + b * n) * 2 ^ s, s + s)"
    using round_sig_shift [OF sum, of s] by (simp add: flt_add_def algebra_simps)
  moreover have "(a * m + b * n) * 2 ^ s div 2 ^ (s + s) = (a * m + b * n) div 2 ^ s"
    by (simp add: power_add)
  ultimately have "flt_trunc (flt_add 24 (a * m, s) (b * n, s)) = int ((a * m + b * n) div 2 ^ s)"
    by (simp add: flt_trunc_def)
  then show "flt_trunc (flt_add 24 (flt_mul 24 (float32 x) (a, s)) (flt_mul 24 (float32 y) (b, s)))
      = (int a * x + int b * y) div 2 ^ s"
    unfolding mul by (simp add: xy zdiv_int)
  show "flt_mul 24 (a, s) (float32 x) = flt_mul 24 (float32 x) (a, s)"
    by (simp add: flt_mul_def mult.commute)
qed

lemma smoothRTT_exact:
  assumes "0 \<le> srtt" "0 \<le> sample" "7 * (srtt div 1000) + sample div 1000 < 2 ^ 24"
  shows "smoothRTT srtt sample = (7 * (srtt div 1000) + sample div 1000) div 8 * 1000"
  using assms flt_weighted(1) [of "srtt div 1000" "sample div 1000" 7 1 3]
  by (simp add: smoothRTT_def oneMinusAlpha_def rttAlpha_def tdiv_nonneg)

lemma smoothDeviation_exact:
  assumes "0 \<le> dev" "3 * (dev div 1000) + \<bar>d\<bar> div 1000 < 2 ^ 24"
  shows "smoothDeviation dev d = (3 * (dev div 1000) + \<bar>d\<bar> div 1000) div 4 * 1000"
proof -
  have "AbsDuration d = \<bar>d\<bar>" by (simp add: AbsDuration_def)
  with assms flt_weighted(1) [of "dev div 1000" "\<bar>d\<bar> div 1000" 3 1 2]
    flt_weighted(2) [of "dev div 1000" "\<bar>d\<bar> div 1000" 3 1 2] flt_weighted(2) [of "\<bar>d\<bar> div 1000" "dev div 1000" 1 3 2]
  show ?thesis by (simp add: smoothDeviation_def oneMinusBeta_def rttBeta_def tdiv_nonneg flt_mul_def mult.commute)
qed

lemma smooth_nonneg: "0 \<le> smoothRTT a b" "0 \<le> smoothDeviation a b"
  by (simp_all add: smoothRTT_def smoothDeviation_def flt_trunc_nonneg)

lemma NewRTTStats_inv: "rtt_inv NewRTTStats"
  by (simp add: rtt_inv_def NewRTTStats_def)

lemma UpdateRTT_inv:
  assumes "rtt_inv r" "0 \<le> ackDelay"
  shows "rtt_inv (UpdateRTT r sendDelta ackDelay)"
proof -
  have "0 \<le> tdiv x 2" if "0 \<le> x" for x using that by (simp add: tdiv_nonneg)
  with assms show ?thesis by (simp add: UpdateRTT_def rtt_inv_def Let_def smooth_nonneg)
qed

lemma PTO_pos: "rtt_inv r \<Longrightarrow> 0 < PTO r b"
  by (auto simp: PTO_def rtt_inv_def Let_def defaultInitialRTT_def TimerGranularity_def)

text \<open>
  C18. For round-trip times below two seconds the single-precision update of the smoothed RTT and its
  deviation loses nothing: it is the integer formula of RFC 9002 on microseconds. The minimum is the
  least raw sample, the ACK delay is subtracted unless the result would fall below the minimum, and
  no value becomes negative.
\<close>

theorem UpdateRTT_exact:
  assumes "rtt_inv r" "hasMeasurement r" "0 < sendDelta" "0 \<le> ackDelay"
    and "sendDelta < 2000 * Millisecond" "smoothedRTT r < 2000 * Millisecond" "meanDeviation r < 2000 * Millisecond"
  shows "let sample = latestRTT (UpdateRTT r sendDelta ackDelay);
             least = (if minRTT r = 0 then sendDelta else min (minRTT r) sendDelta) in
    minRTT (UpdateRTT r sendDelta ackDelay) = least
    \<and> sample = (if ackDelay \<le> sendDelta - least then sendDelta - ackDelay else sendDelta) \<and> least \<le> sample
    \<and> smoothedRTT (UpdateRTT r sendDelta ackDelay)
      = (7 * (smoothedRTT r div Microsecond) + sample div Microsecond) div 8 * Microsecond
    \<and> meanDeviation (UpdateRTT r sendDelta ackDelay)
      = (3 * (meanDeviation r div Microsecond) + \<bar>smoothedRTT r - sample\<bar> div Microsecond) div 4 * Microsecond
    \<and> rtt_inv (UpdateRTT r sendDelta ackDelay)"
proof -
  define least where "least = (if minRTT r = 0 then sendDelta else min (minRTT r) sendDelta)"
  define sample where "sample = (if ackDelay \<le> sendDelta - least then sendDelta - ackDelay else sendDelta)"
  have r: "0 \<le> minRTT r" "0 \<le> smoothedRTT r" "0 \<le> meanDeviation r" using assms(1) by (auto simp: rtt_inv_def)
  have s: "0 \<le> sample" "sample \<le> sendDelta" "least \<le> sample" using assms(3,4) r(1) by (auto simp: sample_def least_def)
  have u: "UpdateRTT r sendDelta ackDelay = r\<lparr>minRTT := least, latestRTT := sample,
      meanDeviation := smoothDeviation (meanDeviation r) (smoothedRTT r - sample), smoothedRTT := smoothRTT (smoothedRTT r) sample\<rparr>"
    using assms(2-5) r(1) by (auto simp: UpdateRTT_def Let_def least_def sample_def InfDuration_def min_def)
  have "smoothRTT (smoothedRTT r) sample = (7 * (smoothedRTT r div 1000) + sample div 1000) div 8 * 1000"
    using assms(5,6) r s by (intro smoothRTT_exact) auto
  moreover have "smoothDeviation (meanDeviation r) (smoothedRTT r - sample)
      = (3 * (meanDeviation r div 1000) + \<bar>smoothedRTT r - sample\<bar> div 1000) div 4 * 1000"
    using assms(5-7) r s by (intro smoothDeviation_exact) auto
  moreover have f: "minRTT (UpdateRTT r sendDelta ackDelay) = least" "latestRTT (UpdateRTT r sendDelta ackDelay) = sample"
    "smoothedRTT (UpdateRTT r sendDelta ackDelay) = smoothRTT (smoothedRTT r) sample"
    "meanDeviation (UpdateRTT r sendDelta ackDelay) = smoothDeviation (meanDeviation r) (smoothedRTT r - sample)"
    by (simp_all add: u)
  ultimately show ?thesis using UpdateRTT_inv [OF assms(1,4), of sendDelta] s(3) sample_def
    unfolding Let_def f least_def [symmetric] by blast
qed

theorem UpdateRTT_exact_witness:
  "smoothedRTT (UpdateRTT \<lparr>hasMeasurement = True, minRTT = 9000000, latestRTT = 9000000, smoothedRTT = 10000000,
      meanDeviation = 1000000, rtt_maxAckDelay = 0\<rparr> 18000000 0) = 11000000"
  using UpdateRTT_exact [of "\<lparr>hasMeasurement = True, minRTT = 9000000, latestRTT = 9000000, smoothedRTT = 10000000,
      meanDeviation = 1000000, rtt_maxAckDelay = 0\<rparr>" 18000000 0]
  by (simp add: rtt_inv_def Let_def)

end
