(* ===== verification/Congestion.thy ===== *)
theory Congestion
  imports Rtt_Stats
begin

text \<open>
  Congestion control, from \<open>internal/congestion\<close>: hybrid slow start, the pacer, the Cubic window
  function and the sender that combines them, with the Reno mode that the sent packet handler uses.
  The round-trip statistics that the source shares by pointer are an argument, as is the bandwidth
  that the pacer obtains through its closure. Bandwidths are 64-bit words; byte counts wrap where the
  pacer and Cubic multiply. Tracing is left out. The cube root of the standard library, truncated to an
  integer, is the integer cube root on the arguments that occur (below \<open>2 ^ 45\<close>).
\<close>

subsection \<open>Hybrid slow start\<close>

definition hybridStartLowWindow :: ByteCount where "hybridStartLowWindow = 16"
definition hybridStartMinSamples :: "32 word" where "hybridStartMinSamples = 8"
definition hybridStartDelayFactorExp :: nat where "hybridStartDelayFactorExp = 3"
definition hybridStartDelayMinThresholdUs :: int where "hybridStartDelayMinThresholdUs = 4000"
definition hybridStartDelayMaxThresholdUs :: int where "hybridStartDelayMaxThresholdUs = 16000"

record HybridSlowStart =
  endPacketNumber :: PacketNumber
  lastSentPacketNumber :: PacketNumber
  started :: bool
  currentMinRTT :: duration
  rttSampleCount :: "32 word"
  hystartFound :: bool

definition zeroHybridSlowStart :: HybridSlowStart where
  "zeroHybridSlowStart = \<lparr>endPacketNumber = 0, lastSentPacketNumber = 0, started = False,
     currentMinRTT = 0, rttSampleCount = 0, hystartFound = False\<rparr>"

definition StartReceiveRound :: "HybridSlowStart \<Rightarrow> PacketNumber \<Rightarrow> HybridSlowStart" where
  "StartReceiveRound s lastSent =
     s\<lparr>endPacketNumber := lastSent, currentMinRTT := 0, rttSampleCount := 0, started := True\<rparr>"

definition IsEndOfRound :: "HybridSlowStart \<Rightarrow> PacketNumber \<Rightarrow> bool" where
  "IsEndOfRound s ack \<longleftrightarrow> endPacketNumber s < ack"

definition ShouldExitSlowStart ::
  "HybridSlowStart \<Rightarrow> duration \<Rightarrow> duration \<Rightarrow> ByteCount \<Rightarrow> HybridSlowStart \<times> bool" where
  "ShouldExitSlowStart s latest min_rtt cwnd =
     (let s = (if \<not> started s then StartReceiveRound s (lastSentPacketNumber s) else s) in
      if hystartFound s then (s, True)
      else
        let s = s\<lparr>rttSampleCount := rttSampleCount s + 1\<rparr>;
            s = (if rttSampleCount s \<le> hybridStartMinSamples \<and> (currentMinRTT s = 0 \<or> currentMinRTT s > latest)
                 then s\<lparr>currentMinRTT := latest\<rparr> else s);
            s = (if rttSampleCount s = hybridStartMinSamples then
                   let minRTTincreaseThresholdUs = drop_bit hybridStartDelayFactorExp (tdiv min_rtt Microsecond);
                       minRTTincreaseThresholdUs = min minRTTincreaseThresholdUs hybridStartDelayMaxThresholdUs;
                       minRTTincreaseThreshold = max minRTTincreaseThresholdUs hybridStartDelayMinThresholdUs * Microsecond
                   in if currentMinRTT s > min_rtt + minRTTincreaseThreshold then s\<lparr>hystartFound := True\<rparr> else s
                 else s)
        in (s, cwnd \<ge> hybridStartLowWindow \<and> hystartFound s))"

definition hss_OnPacketSent :: "HybridSlowStart \<Rightarrow> PacketNumber \<Rightarrow> HybridSlowStart" where
  "hss_OnPacketSent s packetNumber = s\<lparr>lastSentPacketNumber := packetNumber\<rparr>"

definition hss_OnPacketAcked :: "HybridSlowStart \<Rightarrow> PacketNumber \<Rightarrow> HybridSlowStart" where
  "hss_OnPacketAcked s ackedPacketNumber =
     (if IsEndOfRound s ackedPacketNumber then s\<lparr>started := False\<rparr> else s)"

definition hss_Restart :: "HybridSlowStart \<Rightarrow> HybridSlowStart" where
  "hss_Restart s = s\<lparr>started := False, hystartFound := False\<rparr>"

subsection \<open>Pacer\<close>

type_synonym Bandwidth = u64

definition infBandwidth :: Bandwidth where "infBandwidth = - 1"
definition BytesPerSecond :: Bandwidth where "BytesPerSecond = 8"

definition BandwidthFromDelta :: "ByteCount \<Rightarrow> duration \<Rightarrow> Bandwidth" where
  "BandwidthFromDelta bytes d = uint64_of bytes * uint64_of Second div uint64_of d * BytesPerSecond"

definition maxBurstSizePackets :: int where "maxBurstSizePackets = 10"
definition initialMaxDatagramSize :: ByteCount where "initialMaxDatagramSize = InitialPacketSizeIPv4"

record pacer =
  budgetAtLastSent :: ByteCount
  pacer_maxDatagramSize :: ByteCount
  lastSentTime :: "time"

definition adjustedBandwidth :: "Bandwidth \<Rightarrow> u64" where
  "adjustedBandwidth bandwidth = (bandwidth div BytesPerSecond) * 5 div 4"

definition maxBurstSize :: "pacer \<Rightarrow> u64 \<Rightarrow> ByteCount" where
  "maxBurstSize p bw =
     max (tdiv (int64_of (uint64_of (MinPacingDelay + TimerGranularity) * bw)) 1000000000)
       (maxBurstSizePackets * pacer_maxDatagramSize p)"

definition newPacer :: "Bandwidth \<Rightarrow> pacer" where
  "newPacer bandwidth =
     (let p = \<lparr>budgetAtLastSent = 0, pacer_maxDatagramSize = initialMaxDatagramSize, lastSentTime = 0\<rparr>
      in p\<lparr>budgetAtLastSent := maxBurstSize p (adjustedBandwidth bandwidth)\<rparr>)"

definition Budget :: "pacer \<Rightarrow> u64 \<Rightarrow> time \<Rightarrow> ByteCount" where
  "Budget p bw now =
     (if time_IsZero (lastSentTime p) then maxBurstSize p bw
      else
        let budget = wrap64 (budgetAtLastSent p
              + tdiv (wrap64 (int64_of bw * time_Sub now (lastSentTime p))) 1000000000);
            budget = (if budget < 0 then MaxByteCount else budget)
        in min (maxBurstSize p bw) budget)"

definition pacer_SentPacket :: "pacer \<Rightarrow> u64 \<Rightarrow> time \<Rightarrow> ByteCount \<Rightarrow> pacer" where
  "pacer_SentPacket p bw sendTime size' =
     (let budget = Budget p bw sendTime;
          p = (if size' > budget then p\<lparr>budgetAtLastSent := 0\<rparr> else p\<lparr>budgetAtLastSent := budget - size'\<rparr>)
      in p\<lparr>lastSentTime := sendTime\<rparr>)"

text \<open>
  The float64 quotient is rounded after the product, as in the source. A bandwidth of zero gives an
  infinite quotient, whose conversion to an integer is the least integer on amd64.
\<close>

definition pacingDelay :: "ByteCount \<Rightarrow> u64 \<Rightarrow> duration" where
  "pacingDelay missing bw =
     (if bw = 0 then MinInt64
      else flt_ceil (flt_div 53 (flt_mul 53 (float64 missing) (1000000000, 0)) (float64 (uint bw))))"

definition pacer_TimeUntilSend :: "pacer \<Rightarrow> u64 \<Rightarrow> time" where
  "pacer_TimeUntilSend p bw =
     (if budgetAtLastSent p \<ge> pacer_maxDatagramSize p then 0
      else time_Add (lastSentTime p)
             (max MinPacingDelay (pacingDelay (pacer_maxDatagramSize p - budgetAtLastSent p) bw)))"

definition pacer_SetMaxDatagramSize :: "pacer \<Rightarrow> ByteCount \<Rightarrow> pacer" where
  "pacer_SetMaxDatagramSize p s = p\<lparr>pacer_maxDatagramSize := s\<rparr>"

subsection \<open>Cubic\<close>

definition cubeScale :: nat where "cubeScale = 40"
definition cubeCongestionWindowScale :: int where "cubeCongestionWindowScale = 410"
definition cubic_maxDatagramSize :: ByteCount where "cubic_maxDatagramSize = InitialPacketSizeIPv4"
definition cubeFactor :: ByteCount where
  "cubeFactor = push_bit cubeScale 1 div cubeCongestionWindowScale div cubic_maxDatagramSize"
definition defaultNumConnections :: int where "defaultNumConnections = 1"
definition cubic_beta_const :: flt where "cubic_beta_const = (11744051, 24)"
definition betaLastMax_const :: flt where "betaLastMax_const = (7130317, 23)"

record Cubic =
  numConnections :: int
  epoch :: "time"
  lastMaxCongestionWindow :: ByteCount
  ackedBytesCount :: ByteCount
  estimatedTCPcongestionWindow :: ByteCount
  originPointCongestionWindow :: ByteCount
  timeToOriginPoint :: "32 word"
  lastTargetCongestionWindow :: ByteCount

definition cubic_Reset :: "Cubic \<Rightarrow> Cubic" where
  "cubic_Reset c = c\<lparr>epoch := 0, lastMaxCongestionWindow := 0, ackedBytesCount := 0,
     estimatedTCPcongestionWindow := 0, originPointCongestionWindow := 0, timeToOriginPoint := 0,
     lastTargetCongestionWindow := 0\<rparr>"

definition NewCubic :: Cubic where
  "NewCubic = cubic_Reset \<lparr>numConnections = defaultNumConnections, epoch = 0, lastMaxCongestionWindow = 0,
     ackedBytesCount = 0, estimatedTCPcongestionWindow = 0, originPointCongestionWindow = 0,
     timeToOriginPoint = 0, lastTargetCongestionWindow = 0\<rparr>"

definition cubic_beta :: "Cubic \<Rightarrow> flt" where
  "cubic_beta c = (let n = float32 (numConnections c)
     in flt_div 24 (flt_add 24 (flt_sub 24 n (float32 1)) cubic_beta_const) n)"

definition cubic_betaLastMax :: "Cubic \<Rightarrow> flt" where
  "cubic_betaLastMax c = (let n = float32 (numConnections c)
     in flt_div 24 (flt_add 24 (flt_sub 24 n (float32 1)) betaLastMax_const) n)"

definition cubic_alpha :: "Cubic \<Rightarrow> flt" where
  "cubic_alpha c =
     (let b = cubic_beta c; n = float32 (numConnections c)
      in flt_div 24 (flt_mul 24 (flt_mul 24 (flt_mul 24 (float32 3) n) n) (flt_sub 24 (float32 1) b))
           (flt_add 24 (float32 1) b))"

definition cubic_OnApplicationLimited :: "Cubic \<Rightarrow> Cubic" where
  "cubic_OnApplicationLimited c = c\<lparr>epoch := 0\<rparr>"

definition CongestionWindowAfterPacketLoss :: "Cubic \<Rightarrow> ByteCount \<Rightarrow> Cubic \<times> ByteCount" where
  "CongestionWindowAfterPacketLoss c currentCongestionWindow =
     (let c = (if currentCongestionWindow + cubic_maxDatagramSize < lastMaxCongestionWindow c
               then c\<lparr>lastMaxCongestionWindow :=
                 flt_trunc (flt_mul 24 (cubic_betaLastMax c) (float32 currentCongestionWindow))\<rparr>
               else c\<lparr>lastMaxCongestionWindow := currentCongestionWindow\<rparr>);
          c = c\<lparr>epoch := 0\<rparr>
      in (c, flt_trunc (flt_mul 24 (float32 currentCongestionWindow) (cubic_beta c))))"

text \<open>The integer cube root by bisection between \<open>lo\<close> and \<open>hi\<close>.\<close>

function icbrt_search :: "nat \<Rightarrow> nat \<Rightarrow> nat \<Rightarrow> nat" where
  "icbrt_search n lo hi =
     (if lo + 1 < hi then
        let mid = (lo + hi) div 2
        in if mid ^ 3 \<le> n then icbrt_search n mid hi else icbrt_search n lo mid
      else lo)"
  by pat_completeness auto
termination
  by (relation "measure (\<lambda>(n, lo, hi). hi - lo)") auto

definition icbrt :: "int \<Rightarrow> int" where
  "icbrt n = int (icbrt_search (nat n) 0 (nat n + 1))"

definition CongestionWindowAfterAck ::
  "Cubic \<Rightarrow> ByteCount \<Rightarrow> ByteCount \<Rightarrow> duration \<Rightarrow> time \<Rightarrow> Cubic \<times> ByteCount" where
  "CongestionWindowAfterAck c ackedBytes currentCongestionWindow delayMin eventTime =
     (let c = c\<lparr>ackedBytesCount := ackedBytesCount c + ackedBytes\<rparr>;
          c = (if time_IsZero (epoch c) then
                 let c = c\<lparr>epoch := eventTime, ackedBytesCount := ackedBytes,
                           estimatedTCPcongestionWindow := currentCongestionWindow\<rparr>
                 in if lastMaxCongestionWindow c \<le> currentCongestionWindow
                    then c\<lparr>timeToOriginPoint := 0, originPointCongestionWindow := currentCongestionWindow\<rparr>
                    else c\<lparr>timeToOriginPoint :=
                             word_of_int (icbrt (cubeFactor * (lastMaxCongestionWindow c - currentCongestionWindow))),
                           originPointCongestionWindow := lastMaxCongestionWindow c\<rparr>
               else c);
          elapsedTime = tdiv (wrap64 (push_bit 10
            (tdiv (time_Sub (time_Add eventTime delayMin) (epoch c)) Microsecond))) (1000 * 1000);
          offset = uint (timeToOriginPoint c) - elapsedTime;
          offset = (if offset < 0 then - offset else offset);
          deltaCongestionWindow = drop_bit cubeScale
            (wrap64 (wrap64 (cubeCongestionWindowScale * offset * offset * offset) * cubic_maxDatagramSize));
          targetCongestionWindow = (if elapsedTime > uint (timeToOriginPoint c)
            then originPointCongestionWindow c + deltaCongestionWindow
            else originPointCongestionWindow c - deltaCongestionWindow);
          targetCongestionWindow = min targetCongestionWindow (currentCongestionWindow + tdiv (ackedBytesCount c) 2);
          c = c\<lparr>estimatedTCPcongestionWindow := estimatedTCPcongestionWindow c
                + flt_trunc (flt_div 24 (flt_mul 24 (flt_mul 24 (float32 (ackedBytesCount c)) (cubic_alpha c))
                    (float32 cubic_maxDatagramSize)) (float32 (estimatedTCPcongestionWindow c)))\<rparr>;
          c = c\<lparr>ackedBytesCount := 0, lastTargetCongestionWindow := targetCongestionWindow\<rparr>;
          targetCongestionWindow = (if targetCongestionWindow < estimatedTCPcongestionWindow c
            then estimatedTCPcongestionWindow c else targetCongestionWindow)
      in (c, targetCongestionWindow))"

definition SetNumConnections :: "Cubic \<Rightarrow> int \<Rightarrow> Cubic" where
  "SetNumConnections c n = c\<lparr>numConnections := n\<rparr>"

fun withinBudget :: "pacer \<Rightarrow> u64 \<Rightarrow> (time \<times> ByteCount) list \<Rightarrow> bool" where
  "withinBudget p bw [] \<longleftrightarrow> True"
| "withinBudget p bw ((t, n) # xs) \<longleftrightarrow>
     0 \<le> n \<and> n \<le> Budget p bw t \<and> withinBudget (pacer_SentPacket p bw t n) bw xs"

subsection \<open>The pacer\<close>

lemma Budget_refill:
  assumes "0 < lastSentTime p" "0 \<le> budgetAtLastSent p" "lastSentTime p \<le> now" "0 < uint bw"
    "uint bw * (now - lastSentTime p) \<le> MaxInt64" "budgetAtLastSent p \<le> MaxInt64"
  defines "earned \<equiv> uint bw * (now - lastSentTime p) div 1000000000"
  shows "Budget p bw now = min (maxBurstSize p bw)
           (if budgetAtLastSent p + earned \<le> MaxInt64 then budgetAtLastSent p + earned else MaxByteCount)"
    (is "?l = ?r")
proof (cases "now = lastSentTime p")
  case True
  with assms show ?thesis by (simp add: Budget_def time_IsZero_def time_Sub_def earned_def)
next
  case False
  define dt where "dt = now - lastSentTime p"
  have dt: "0 < dt" using False assms(3) by (simp add: dt_def)
  have prod: "uint bw * dt \<le> MaxInt64" using assms(5) by (simp add: dt_def)
  have "uint bw * 1 \<le> uint bw * dt" "1 * dt \<le> uint bw * dt"
    using dt assms(4) by (intro mult_left_mono mult_right_mono; simp)+
  with prod have le: "uint bw \<le> MaxInt64" "dt \<le> MaxInt64" by linarith+
  then have bw: "int64_of bw = uint bw" by (intro int64_of_uint) simp
  have sub: "time_Sub now (lastSentTime p) = dt" using dt le(2) by (simp add: time_Sub_def flip: dt_def)
  have nn: "0 \<le> uint bw * dt" using dt by simp
  have t: "tdiv (wrap64 (int64_of bw * time_Sub now (lastSentTime p))) 1000000000 = earned"
    using nn prod by (simp add: bw sub earned_def flip: dt_def)
  have earned: "0 \<le> earned" "earned \<le> MaxInt64" 
    using nn prod by (simp_all add: earned_def pos_imp_zdiv_nonneg_iff flip: dt_def)
  show ?thesis
  proof (cases "budgetAtLastSent p + earned \<le> MaxInt64")
    case True
    with earned assms show ?thesis by (simp add: Budget_def time_IsZero_def t)
  next
    case False
    define y where "y = budgetAtLastSent p + earned - 2 ^ 63"
    have y: "budgetAtLastSent p + earned + 2 ^ 63 = y + 2 ^ 64" by (simp add: y_def)
    have "0 \<le> y" "y < 2 ^ 63" using False earned assms(6) by (simp_all add: y_def)
    then have "wrap64 (budgetAtLastSent p + earned) < 0" unfolding wrap64_def y by simp
    with False assms show ?thesis by (simp add: Budget_def time_IsZero_def t)
  qed
qed

lemma pacingDelay_earns:
  assumes "0 < missing" "missing \<le> 65535" "0 < uint bw" "uint bw < 2 ^ 53"
  shows "missing * 1000000000 \<le> pacingDelay missing bw * uint bw"
proof -
  have "round_sig 53 (nat missing) = nat missing" using assms by (intro round_sig_exact) (simp add: nat_less_iff)
  moreover have "round_sig 53 (nat missing * 1000000000) = nat missing * 1000000000"
    using assms by (intro round_sig_exact) (simp add: nat_less_iff)
  moreover have "round_sig 53 (nat (uint bw)) = nat (uint bw)" 
    using assms by (intro round_sig_exact) (simp add: nat_less_iff del: nat_uint_eq)
  moreover have "bw \<noteq> 0" using assms by auto
  ultimately have "pacingDelay missing bw = flt_ceil (flt_div 53 (nat missing * 1000000000, 0) (nat (uint bw), 0))"
    by (simp add: pacingDelay_def flt_mul_def flt_of_def)
  moreover have "nat missing * 1000000000 < 2 ^ 53" "0 < nat (uint bw)" using assms by (simp_all del: nat_uint_eq)
  ultimately have "int (nat missing * 1000000000) \<le> pacingDelay missing bw * int (nat (uint bw))"
    by (simp only: flt_ceil_div_ge)
  with assms show ?thesis by simp
qed

text \<open>
  C19. The pacer keeps its promise: at the time that \<open>TimeUntilSend\<close> announces, or later, the budget allows a
  full-sized packet, although the waiting time is computed in floating point. This holds for bandwidths
  below 2^53 bytes per second and as long as bandwidth times elapsed nanoseconds fits 63 bits; before the
  first round-trip sample the bandwidth is infinite and the product wraps around.
\<close>

theorem pacer_wakes_up_in_time:
  assumes "0 < lastSentTime p" "0 \<le> budgetAtLastSent p" "0 < uint bw" "uint bw < 2 ^ 53"
    "0 < pacer_maxDatagramSize p" "pacer_maxDatagramSize p \<le> 65535" "budgetAtLastSent p \<le> MaxInt64"
    "pacer_TimeUntilSend p bw \<le> now" "lastSentTime p \<le> now"
    "uint bw * (now - lastSentTime p) \<le> MaxInt64"
  shows "pacer_maxDatagramSize p \<le> Budget p bw now"
proof -
  define earned where "earned = uint bw * (now - lastSentTime p) div 1000000000"
  have burst: "pacer_maxDatagramSize p \<le> maxBurstSize p bw"
    using assms(5) by (simp add: maxBurstSize_def maxBurstSizePackets_def)
  have "pacer_maxDatagramSize p \<le> budgetAtLastSent p + earned"
  proof (cases "pacer_maxDatagramSize p \<le> budgetAtLastSent p")
    case True
    then show ?thesis using assms(9) by (simp add: earned_def pos_imp_zdiv_nonneg_iff add_increasing2)
  next
    case False
    define missing where "missing = pacer_maxDatagramSize p - budgetAtLastSent p"
    have "missing * 1000000000 \<le> pacingDelay missing bw * uint bw"
      using False assms by (intro pacingDelay_earns) (auto simp: missing_def)
    also have "\<dots> \<le> (now - lastSentTime p) * uint bw"
      using False assms(8) by (intro mult_right_mono) (simp_all add: pacer_TimeUntilSend_def time_Add_def missing_def)
    finally have "missing * 1000000000 div 1000000000 \<le> earned"
      unfolding earned_def by (intro zdiv_mono1) (simp_all add: mult.commute)
    then show ?thesis by (simp add: missing_def)
  qed
  then show ?thesis using assms(1,2,3,7,9,10) assms(6) burst 
    by (simp add: Budget_refill MaxByteCount_def flip: earned_def)
qed

text \<open>
  C21. Token bucket conformance: packets sent within the budget at non-decreasing times never exceed
  the budget at the start plus what the bandwidth earns until the end of the interval.
\<close>

theorem pacer_rate_limited:
  assumes "withinBudget p bw sends" "sorted (lastSentTime p # map fst sends)" "\<forall>x\<in>set sends. fst x \<le> end"
    "lastSentTime p \<le> end" "0 < lastSentTime p" "0 \<le> budgetAtLastSent p" "0 < uint bw"
    "budgetAtLastSent p * 1000000000 + uint bw * (end - lastSentTime p) \<le> MaxInt64"
  shows "(\<Sum>x\<leftarrow>sends. snd x) * 1000000000
           \<le> budgetAtLastSent p * 1000000000 + uint bw * (end - lastSentTime p)"
  using assms
proof (induction sends arbitrary: p)
  case (Cons x sends)
  obtain t n where x: "x = (t, n)" by (cases x)
  define q where "q = pacer_SentPacket p bw t n"
  have n: "0 \<le> n" "n \<le> Budget p bw t" using Cons.prems(1) by (simp_all add: x)
  have q: "budgetAtLastSent q = Budget p bw t - n" "lastSentTime q = t"
    using n by (simp_all add: q_def pacer_SentPacket_def Let_def)
  have t: "lastSentTime p \<le> t" "t \<le> end" using Cons.prems(2,3) by (simp_all add: x)
  define a where "a = uint bw * (t - lastSentTime p)"
  have split: "uint bw * (end - lastSentTime p) = a + uint bw * (end - t)"
    by (simp add: a_def algebra_simps)
  have nn: "0 \<le> a" "0 \<le> uint bw * (end - t)" using t Cons.prems(7) by (simp_all add: a_def)
  have le: "a \<le> MaxInt64" "budgetAtLastSent p \<le> MaxInt64" "budgetAtLastSent p + a div 1000000000 \<le> MaxInt64"
    using nn Cons.prems(6,8) unfolding split by auto
  have "Budget p bw t \<le> budgetAtLastSent p + a div 1000000000"
    using Cons.prems(5,6,7) t le by (simp add: Budget_refill flip: a_def)
  then have b: "budgetAtLastSent q * 1000000000 + n * 1000000000 \<le> budgetAtLastSent p * 1000000000 + a"
    unfolding q using div_mult_mod_eq [of a 1000000000] pos_mod_sign [of 1000000000 a]
    by (simp add: left_diff_distrib)
  have "(\<Sum>x\<leftarrow>sends. snd x) * 1000000000 \<le> budgetAtLastSent q * 1000000000 + uint bw * (end - t)"
  proof (rule Cons.IH [of q, unfolded q(2)])
    show "withinBudget q bw sends" using Cons.prems(1) by (simp add: x q_def)
    show "budgetAtLastSent q * 1000000000 + uint bw * (end - t) \<le> MaxInt64"
      using b n(1) Cons.prems(8) unfolding split by linarith
  qed (use Cons.prems t n q in \<open>auto simp: x\<close>)
  with b show ?case unfolding split by (simp add: x algebra_simps)
qed simp

lemma adjusted_infBandwidth: "adjustedBandwidth infBandwidth = 2882303761517117438"
  by (simp add: adjustedBandwidth_def infBandwidth_def BytesPerSecond_def) 

text \<open>
  C20. The pacer earns nothing before the first round-trip sample. The bandwidth is infinite then, the product of the
  adjusted bandwidth with the elapsed time wraps around 64 bits, and after any multiple of 32 nanoseconds
  below half a second the budget is what it was when the last packet was sent.
\<close>

theorem pacer_starved_before_rtt:
  assumes "lastSentTime p \<noteq> 0" "0 < k" "k < 15625000" "0 \<le> budgetAtLastSent p" "budgetAtLastSent p < 2 ^ 62"
  shows "Budget p (adjustedBandwidth infBandwidth) (lastSentTime p + 32 * k) =
    min (maxBurstSize p (adjustedBandwidth infBandwidth)) (budgetAtLastSent p)"
proof -
  have i: "int64_of (adjustedBandwidth infBandwidth) = 5 * 2 ^ 59 - 2"
    unfolding adjusted_infBandwidth by (simp add: int64_of_def)
  have "(5 * 2 ^ 59 - 2) * (32 * k) + 2 ^ 63 = (5 * k) * 2 ^ 64 + (2 ^ 63 - 64 * k)" by (simp add: algebra_simps)
  then have "((5 * 2 ^ 59 - 2) * (32 * k) + 2 ^ 63) mod 2 ^ 64 = (2 ^ 63 - 64 * k) mod 2 ^ 64" by (simp only: mod_mult_self3)
  then have "wrap64 ((5 * 2 ^ 59 - 2) * (32 * k)) = - 64 * k"
    using assms(2,3) unfolding wrap64_def by (simp add: mod_pos_pos_trivial)
  then show ?thesis using assms by (simp add: Budget_def i time_Sub_def time_IsZero_def tdiv_def)
qed

theorem pacer_starved_before_rtt_witness:
  "Budget \<lparr>budgetAtLastSent = 0, pacer_maxDatagramSize = 1252, lastSentTime = 5\<rparr> (adjustedBandwidth infBandwidth) (5 + 32 * 31250)
     = min (maxBurstSize \<lparr>budgetAtLastSent = 0, pacer_maxDatagramSize = 1252, lastSentTime = 5\<rparr> (adjustedBandwidth infBandwidth)) 0"
  using pacer_starved_before_rtt [of "\<lparr>budgetAtLastSent = 0, pacer_maxDatagramSize = 1252, lastSentTime = 5\<rparr>" 31250] by simp

theorem pacer_wakes_up_in_time_witness:
  "pacer_maxDatagramSize \<lparr>budgetAtLastSent = 100, pacer_maxDatagramSize = 1252, lastSentTime = 5\<rparr>
     \<le> Budget \<lparr>budgetAtLastSent = 100, pacer_maxDatagramSize = 1252, lastSentTime = 5\<rparr> 1000000 1152005"
  by (rule pacer_wakes_up_in_time)
    (simp_all add: pacer_TimeUntilSend_def pacingDelay_def time_Add_def MinPacingDelay_def flt_ceil_def flt_div_def
      flt_mul_def flt_of_def round_sig_def Let_def)

theorem pacer_rate_limited_witness:
  "(\<Sum>x\<leftarrow>[(5 :: time, 1200), (1200005, 1200)]. snd x) * 1000000000
     \<le> budgetAtLastSent \<lparr>budgetAtLastSent = 1200, pacer_maxDatagramSize = 1252, lastSentTime = 5\<rparr> * 1000000000
       + uint (1000000 :: u64) * (1300005 - lastSentTime \<lparr>budgetAtLastSent = 1200, pacer_maxDatagramSize = 1252, lastSentTime = 5\<rparr>)"
  by (rule pacer_rate_limited) code_simp+

end
