(* ===== verification/Cubic_Sender.thy ===== *)
theory Cubic_Sender
  imports Congestion
begin

text \<open>
  The congestion controller \<open>cubicSender\<close> of \<open>internal/congestion/cubic_sender.go\<close>: window growth in
  slow start and congestion avoidance, the reaction to loss, and the pacing interface.
\<close>

subsection \<open>State and operations\<close>

definition maxBurstPackets :: int where "maxBurstPackets = 3"
definition renoBeta :: flt where "renoBeta = (3152519739159347, 52)"
definition minCongestionWindowPackets :: int where "minCongestionWindowPackets = 2"
definition initialCongestionWindowPackets :: int where "initialCongestionWindowPackets = 32"

record cubicSender =
  hybridSlowStart :: HybridSlowStart
  cubic :: Cubic
  cs_pacer :: pacer
  reno :: bool
  largestSentPacketNumber :: PacketNumber
  largestAckedPacketNumber :: PacketNumber
  largestSentAtLastCutback :: PacketNumber
  lastCutbackExitedSlowstart :: bool
  congestionWindow :: ByteCount
  slowStartThreshold :: ByteCount
  numAckedPackets :: u64
  initialCongestionWindow :: ByteCount
  initialMaxCongestionWindow :: ByteCount
  maxDatagramSize :: ByteCount

definition BandwidthEstimate :: "cubicSender \<Rightarrow> RTTStats \<Rightarrow> Bandwidth" where
  "BandwidthEstimate c r =
     (if smoothedRTT r = 0 then infBandwidth else BandwidthFromDelta (congestionWindow c) (smoothedRTT r))"

definition sender_bandwidth :: "cubicSender \<Rightarrow> RTTStats \<Rightarrow> u64" where
  "sender_bandwidth c r = adjustedBandwidth (BandwidthEstimate c r)"

definition newCubicSender :: "RTTStats \<Rightarrow> bool \<Rightarrow> ByteCount \<Rightarrow> ByteCount \<Rightarrow> ByteCount \<Rightarrow> cubicSender" where
  "newCubicSender r isReno mds initialCwnd initialMaxCwnd =
     (let c = \<lparr>hybridSlowStart = zeroHybridSlowStart, cubic = NewCubic,
               cs_pacer = \<lparr>budgetAtLastSent = 0, pacer_maxDatagramSize = 0, lastSentTime = 0\<rparr>, reno = isReno,
               largestSentPacketNumber = InvalidPacketNumber, largestAckedPacketNumber = InvalidPacketNumber,
               largestSentAtLastCutback = InvalidPacketNumber, lastCutbackExitedSlowstart = False,
               congestionWindow = initialCwnd, slowStartThreshold = MaxByteCount, numAckedPackets = 0,
               initialCongestionWindow = initialCwnd, initialMaxCongestionWindow = initialMaxCwnd,
               maxDatagramSize = mds\<rparr>
      in c\<lparr>cs_pacer := newPacer (BandwidthEstimate c r)\<rparr>)"

definition NewCubicSender :: "RTTStats \<Rightarrow> ByteCount \<Rightarrow> bool \<Rightarrow> cubicSender" where
  "NewCubicSender r mds isReno =
     newCubicSender r isReno mds (initialCongestionWindowPackets * mds) (MaxCongestionWindowPackets * mds)"

definition TimeUntilSend :: "cubicSender \<Rightarrow> RTTStats \<Rightarrow> time" where
  "TimeUntilSend c r = pacer_TimeUntilSend (cs_pacer c) (sender_bandwidth c r)"

definition HasPacingBudget :: "cubicSender \<Rightarrow> RTTStats \<Rightarrow> time \<Rightarrow> bool" where
  "HasPacingBudget c r now \<longleftrightarrow> Budget (cs_pacer c) (sender_bandwidth c r) now \<ge> maxDatagramSize c"

definition maxCongestionWindow :: "cubicSender \<Rightarrow> ByteCount" where
  "maxCongestionWindow c = maxDatagramSize c * MaxCongestionWindowPackets"

definition minCongestionWindow :: "cubicSender \<Rightarrow> ByteCount" where
  "minCongestionWindow c = maxDatagramSize c * minCongestionWindowPackets"

definition GetCongestionWindow :: "cubicSender \<Rightarrow> ByteCount" where
  "GetCongestionWindow c = congestionWindow c"

definition CanSend :: "cubicSender \<Rightarrow> ByteCount \<Rightarrow> bool" where
  "CanSend c bytesInFlight \<longleftrightarrow> bytesInFlight < GetCongestionWindow c"

definition InRecovery :: "cubicSender \<Rightarrow> bool" where
  "InRecovery c \<longleftrightarrow> largestAckedPacketNumber c \<noteq> InvalidPacketNumber
     \<and> largestAckedPacketNumber c \<le> largestSentAtLastCutback c"

definition InSlowStart :: "cubicSender \<Rightarrow> bool" where
  "InSlowStart c \<longleftrightarrow> GetCongestionWindow c < slowStartThreshold c"

definition OnPacketSent :: "cubicSender \<Rightarrow> RTTStats \<Rightarrow> time \<Rightarrow> PacketNumber \<Rightarrow> ByteCount \<Rightarrow> bool \<Rightarrow> cubicSender" where
  "OnPacketSent c r sentTime packetNumber bytes isRetransmittable =
     (let c = c\<lparr>cs_pacer := pacer_SentPacket (cs_pacer c) (sender_bandwidth c r) sentTime bytes\<rparr> in
      if \<not> isRetransmittable then c
      else c\<lparr>largestSentPacketNumber := packetNumber,
             hybridSlowStart := hss_OnPacketSent (hybridSlowStart c) packetNumber\<rparr>)"

definition MaybeExitSlowStart :: "cubicSender \<Rightarrow> RTTStats \<Rightarrow> cubicSender" where
  "MaybeExitSlowStart c r =
     (if InSlowStart c then
        let (hs, exit) = ShouldExitSlowStart (hybridSlowStart c) (latestRTT r) (minRTT r)
              (tdiv (GetCongestionWindow c) (maxDatagramSize c));
            c = c\<lparr>hybridSlowStart := hs\<rparr>
        in if exit then c\<lparr>slowStartThreshold := congestionWindow c\<rparr> else c
      else c)"

definition isCwndLimited :: "cubicSender \<Rightarrow> ByteCount \<Rightarrow> bool" where
  "isCwndLimited c bytesInFlight =
     (let cwnd = GetCongestionWindow c in
      if bytesInFlight \<ge> cwnd then True
      else
        let availableBytes = cwnd - bytesInFlight;
            slowStartLimited = (InSlowStart c \<and> bytesInFlight > tdiv cwnd 2)
        in slowStartLimited \<or> availableBytes \<le> maxBurstPackets * maxDatagramSize c)"

definition maybeIncreaseCwnd :: "cubicSender \<Rightarrow> RTTStats \<Rightarrow> ByteCount \<Rightarrow> ByteCount \<Rightarrow> time \<Rightarrow> cubicSender" where
  "maybeIncreaseCwnd c r ackedBytes priorInFlight eventTime =
     (if \<not> isCwndLimited c priorInFlight then c\<lparr>cubic := cubic_OnApplicationLimited (cubic c)\<rparr>
      else if congestionWindow c \<ge> maxCongestionWindow c then c
      else if InSlowStart c then c\<lparr>congestionWindow := congestionWindow c + maxDatagramSize c\<rparr>
      else if reno c then
        let c = c\<lparr>numAckedPackets := numAckedPackets c + 1\<rparr> in
        if numAckedPackets c \<ge> uint64_of (tdiv (congestionWindow c) (maxDatagramSize c))
        then c\<lparr>congestionWindow := congestionWindow c + maxDatagramSize c, numAckedPackets := 0\<rparr>
        else c
      else
        let (q, w) = CongestionWindowAfterAck (cubic c) ackedBytes (congestionWindow c) (minRTT r) eventTime
        in c\<lparr>cubic := q, congestionWindow := min (maxCongestionWindow c) w\<rparr>)"

definition OnPacketAcked ::
  "cubicSender \<Rightarrow> RTTStats \<Rightarrow> PacketNumber \<Rightarrow> ByteCount \<Rightarrow> ByteCount \<Rightarrow> time \<Rightarrow> cubicSender" where
  "OnPacketAcked c r ackedPacketNumber ackedBytes priorInFlight eventTime =
     (let c = c\<lparr>largestAckedPacketNumber := max ackedPacketNumber (largestAckedPacketNumber c)\<rparr> in
      if InRecovery c then c
      else
        let c = maybeIncreaseCwnd c r ackedBytes priorInFlight eventTime in
        if InSlowStart c
        then c\<lparr>hybridSlowStart := hss_OnPacketAcked (hybridSlowStart c) ackedPacketNumber\<rparr>
        else c)"

definition OnCongestionEvent :: "cubicSender \<Rightarrow> PacketNumber \<Rightarrow> cubicSender" where
  "OnCongestionEvent c packetNumber =
     (if packetNumber \<le> largestSentAtLastCutback c then c
      else
        let c = c\<lparr>lastCutbackExitedSlowstart := InSlowStart c\<rparr>;
            c = (if reno c
                 then c\<lparr>congestionWindow := flt_trunc (flt_mul 53 (float64 (congestionWindow c)) renoBeta)\<rparr>
                 else let (q, w) = CongestionWindowAfterPacketLoss (cubic c) (congestionWindow c)
                      in c\<lparr>cubic := q, congestionWindow := w\<rparr>);
            c = (if congestionWindow c < minCongestionWindow c
                 then c\<lparr>congestionWindow := minCongestionWindow c\<rparr> else c)
        in c\<lparr>slowStartThreshold := congestionWindow c,
             largestSentAtLastCutback := largestSentPacketNumber c, numAckedPackets := 0\<rparr>)"

definition OnRetransmissionTimeout :: "cubicSender \<Rightarrow> bool \<Rightarrow> cubicSender" where
  "OnRetransmissionTimeout c packetsRetransmitted =
     (let c = c\<lparr>largestSentAtLastCutback := InvalidPacketNumber\<rparr> in
      if \<not> packetsRetransmitted then c
      else
        let c = c\<lparr>hybridSlowStart := hss_Restart (hybridSlowStart c), cubic := cubic_Reset (cubic c),
                  slowStartThreshold := tdiv (congestionWindow c) 2\<rparr>
        in c\<lparr>congestionWindow := minCongestionWindow c\<rparr>)"

definition OnConnectionMigration :: "cubicSender \<Rightarrow> cubicSender" where
  "OnConnectionMigration c =
     c\<lparr>hybridSlowStart := hss_Restart (hybridSlowStart c), largestSentPacketNumber := InvalidPacketNumber,
       largestAckedPacketNumber := InvalidPacketNumber, largestSentAtLastCutback := InvalidPacketNumber,
       lastCutbackExitedSlowstart := False, cubic := cubic_Reset (cubic c), numAckedPackets := 0,
       congestionWindow := initialCongestionWindow c, slowStartThreshold := initialMaxCongestionWindow c\<rparr>"

definition SetMaxDatagramSize :: "cubicSender \<Rightarrow> ByteCount \<Rightarrow> cubicSender result" where
  "SetMaxDatagramSize c s =
     (if s < maxDatagramSize c then Inl (Panic ''congestion BUG: decreased max datagram size'')
      else
        let cwndIsMinCwnd = (congestionWindow c = minCongestionWindow c);
            c = c\<lparr>maxDatagramSize := s\<rparr>;
            c = (if cwndIsMinCwnd then c\<lparr>congestionWindow := minCongestionWindow c\<rparr> else c)
        in Inr (c\<lparr>cs_pacer := pacer_SetMaxDatagramSize (cs_pacer c) s\<rparr>))"

subsection \<open>Reachable states\<close>

text \<open>
  The controller as a transition system, started by \<open>NewCubicSender\<close> in Reno mode with a positive
  datagram size that stays below a jumbo frame.
\<close>

inductive cs_reachable :: "ByteCount \<Rightarrow> cubicSender \<Rightarrow> bool" for mds0 where
  new: "0 < mds0 \<Longrightarrow> mds0 \<le> 65535 \<Longrightarrow> cs_reachable mds0 (NewCubicSender r mds0 True)"
| sent: "cs_reachable mds0 c \<Longrightarrow> cs_reachable mds0 (OnPacketSent c r t pn bytes retransmittable)"
| acked: "cs_reachable mds0 c \<Longrightarrow> cs_reachable mds0 (OnPacketAcked c r pn bytes inFlight t)"
| exitSlowStart: "cs_reachable mds0 c \<Longrightarrow> cs_reachable mds0 (MaybeExitSlowStart c r)"
| congestion: "cs_reachable mds0 c \<Longrightarrow> cs_reachable mds0 (OnCongestionEvent c pn)"
| timeout: "cs_reachable mds0 c \<Longrightarrow> cs_reachable mds0 (OnRetransmissionTimeout c retransmitted)"
| migrated: "cs_reachable mds0 c \<Longrightarrow> cs_reachable mds0 (OnConnectionMigration c)"
| datagramSize: "cs_reachable mds0 c \<Longrightarrow> SetMaxDatagramSize c s = Inr c' \<Longrightarrow> s \<le> 65535 \<Longrightarrow> cs_reachable mds0 c'"

text \<open>
  The window stays between two datagrams of the initial size and one datagram above the maximum.
\<close>

definition cwnd_inv :: "ByteCount \<Rightarrow> cubicSender \<Rightarrow> bool" where
  "cwnd_inv mds0 c \<longleftrightarrow> reno c \<and> 0 < mds0 \<and> mds0 \<le> maxDatagramSize c \<and> maxDatagramSize c \<le> 65535
     \<and> 2 * mds0 \<le> congestionWindow c \<and> congestionWindow c < maxCongestionWindow c + maxDatagramSize c
     \<and> initialCongestionWindow c = 32 * mds0"

subsection \<open>The window invariant\<close>

lemma OnPacketSent_frame [simp]:
  "congestionWindow (OnPacketSent c r t pn b a) = congestionWindow c"
  "maxDatagramSize (OnPacketSent c r t pn b a) = maxDatagramSize c"
  "reno (OnPacketSent c r t pn b a) = reno c"
  "initialCongestionWindow (OnPacketSent c r t pn b a) = initialCongestionWindow c"
  by (simp_all add: OnPacketSent_def Let_def)

lemma MaybeExitSlowStart_frame [simp]:
  "congestionWindow (MaybeExitSlowStart c r) = congestionWindow c"
  "maxDatagramSize (MaybeExitSlowStart c r) = maxDatagramSize c"
  "reno (MaybeExitSlowStart c r) = reno c"
  "initialCongestionWindow (MaybeExitSlowStart c r) = initialCongestionWindow c"
  by (simp_all add: MaybeExitSlowStart_def Let_def split: prod.splits)

text \<open>In Reno mode an acknowledged packet grows the window by at most one datagram, below the maximum.\<close>

lemma maybeIncreaseCwnd_cases:
  assumes "reno c"
  obtains "congestionWindow (maybeIncreaseCwnd c r ab pf t) = congestionWindow c"
  | "congestionWindow c < maxCongestionWindow c"
    "congestionWindow (maybeIncreaseCwnd c r ab pf t) = congestionWindow c + maxDatagramSize c"
  using assms by (fastforce simp: maybeIncreaseCwnd_def Let_def split: if_splits)

lemma maybeIncreaseCwnd_frame [simp]:
  "maxDatagramSize (maybeIncreaseCwnd c r ab pf t) = maxDatagramSize c"
  "reno (maybeIncreaseCwnd c r ab pf t) = reno c"
  "initialCongestionWindow (maybeIncreaseCwnd c r ab pf t) = initialCongestionWindow c"
  by (simp_all add: maybeIncreaseCwnd_def Let_def split: prod.splits)

lemma OnPacketAcked_frame [simp]:
  "maxDatagramSize (OnPacketAcked c r pn ab pf t) = maxDatagramSize c"
  "reno (OnPacketAcked c r pn ab pf t) = reno c"
  "initialCongestionWindow (OnPacketAcked c r pn ab pf t) = initialCongestionWindow c"
  by (simp_all add: OnPacketAcked_def Let_def)

lemma OnPacketAcked_cases:
  assumes "reno c"
  obtains "congestionWindow (OnPacketAcked c r pn ab pf t) = congestionWindow c"
  | "congestionWindow c < maxCongestionWindow c"
    "congestionWindow (OnPacketAcked c r pn ab pf t) = congestionWindow c + maxDatagramSize c"
proof -
  define d where "d = c\<lparr>largestAckedPacketNumber := max pn (largestAckedPacketNumber c)\<rparr>"
  have "congestionWindow (OnPacketAcked c r pn ab pf t)
          \<in> {congestionWindow d, congestionWindow (maybeIncreaseCwnd d r ab pf t)}"
    by (simp add: OnPacketAcked_def Let_def d_def)
  moreover have "reno d" using assms by (simp add: d_def)
  ultimately show ?thesis
    using that by (elim maybeIncreaseCwnd_cases [of d r ab pf t]) (auto simp: d_def maxCongestionWindow_def)
qed

lemma OnCongestionEvent_frame [simp]:
  "maxDatagramSize (OnCongestionEvent c pn) = maxDatagramSize c"
  "reno (OnCongestionEvent c pn) = reno c"
  "initialCongestionWindow (OnCongestionEvent c pn) = initialCongestionWindow c"
  by (simp_all add: OnCongestionEvent_def Let_def split: prod.splits)

lemma OnCongestionEvent_reno:
  assumes "reno c" "largestSentAtLastCutback c < pn"
  shows "congestionWindow (OnCongestionEvent c pn)
           = max (minCongestionWindow c) (flt_trunc (flt_mul 53 (float64 (congestionWindow c)) renoBeta))"
  using assms by (simp add: OnCongestionEvent_def Let_def minCongestionWindow_def)

lemma renoBeta_shrinks:
  assumes "0 \<le> w" "w < 2 ^ 53"
  shows "flt_trunc (flt_mul 53 (float64 w) renoBeta) \<le> w"
  unfolding renoBeta_def by (rule flt_trunc_mul_le) (use assms in auto)

lemma SetMaxDatagramSize_cases:
  assumes "SetMaxDatagramSize c s = Inr c'"
  shows "maxDatagramSize c \<le> s" "maxDatagramSize c' = s" "reno c' = reno c"
    "initialCongestionWindow c' = initialCongestionWindow c"
    "congestionWindow c' = (if congestionWindow c = minCongestionWindow c then 2 * s else congestionWindow c)"
  using assms by (auto simp: SetMaxDatagramSize_def Let_def minCongestionWindow_def
      minCongestionWindowPackets_def split: if_splits)

lemmas cwnd_consts = maxCongestionWindow_def MaxCongestionWindowPackets_def minCongestionWindow_def
  minCongestionWindowPackets_def initialCongestionWindowPackets_def

lemma cwnd_inv_acked:
  assumes "cwnd_inv mds0 c"
  shows "cwnd_inv mds0 (OnPacketAcked c r pn ab pf t)"
  by (rule OnPacketAcked_cases [of c r pn ab pf t]) (use assms in \<open>auto simp: cwnd_inv_def cwnd_consts\<close>)

lemma cwnd_inv_congestion:
  assumes "cwnd_inv mds0 c"
  shows "cwnd_inv mds0 (OnCongestionEvent c pn)"
proof (cases "largestSentAtLastCutback c < pn")
  case True
  have "flt_trunc (flt_mul 53 (float64 (congestionWindow c)) renoBeta) \<le> congestionWindow c"
    using assms by (intro renoBeta_shrinks) (auto simp: cwnd_inv_def cwnd_consts)
  with assms True show ?thesis by (auto simp: cwnd_inv_def cwnd_consts OnCongestionEvent_reno)
qed (use assms in \<open>simp add: OnCongestionEvent_def\<close>)

lemma cwnd_inv_reachable: "cs_reachable mds0 c \<Longrightarrow> cwnd_inv mds0 c"
proof (induction rule: cs_reachable.induct)
  case (new r)
  then show ?case by (simp add: cwnd_inv_def cwnd_consts NewCubicSender_def newCubicSender_def Let_def)
next
  case (sent c r t pn bytes retransmittable)
  then show ?case by (simp add: cwnd_inv_def cwnd_consts)
next
  case (acked c r pn bytes inFlight t)
  then show ?case by (simp add: cwnd_inv_acked)
next
  case (exitSlowStart c r)
  then show ?case by (simp add: cwnd_inv_def cwnd_consts)
next
  case (congestion c pn)
  then show ?case by (simp add: cwnd_inv_congestion)
next
  case (timeout c retransmitted)
  then show ?case by (auto simp: cwnd_inv_def cwnd_consts OnRetransmissionTimeout_def Let_def)
next
  case (migrated c)
  then show ?case by (auto simp: cwnd_inv_def cwnd_consts OnConnectionMigration_def)
next
  case (datagramSize c s c')
  note s = SetMaxDatagramSize_cases [OF datagramSize(2)]
  with datagramSize show ?case by (auto simp: cwnd_inv_def cwnd_consts)
qed

subsection \<open>Properties\<close>

text \<open>
  C22. In every state the controller can reach, whatever is sent, acknowledged and lost, the congestion
  window is at least two datagrams of the initial size and less than one datagram above its maximum of
  10000 datagrams of the current size.
\<close>

theorem cwnd_bounded:
  assumes "cs_reachable mds0 c"
  shows "2 * mds0 \<le> GetCongestionWindow c \<and> GetCongestionWindow c < maxCongestionWindow c + maxDatagramSize c"
  using cwnd_inv_reachable [OF assms] by (simp add: cwnd_inv_def GetCongestionWindow_def)

theorem cwnd_bounded_witness:
  "2 * 1252 \<le> GetCongestionWindow (OnCongestionEvent (NewCubicSender NewRTTStats 1252 True) 3)
   \<and> GetCongestionWindow (OnCongestionEvent (NewCubicSender NewRTTStats 1252 True) 3)
       < maxCongestionWindow (OnCongestionEvent (NewCubicSender NewRTTStats 1252 True) 3)
         + maxDatagramSize (OnCongestionEvent (NewCubicSender NewRTTStats 1252 True) 3)"
  by (rule cwnd_bounded) (intro cs_reachable.intros; simp)

text \<open>
  C23. One reduction per round trip: a loss outside of recovery sets window and slow start threshold to
  seven tenths of the window (in float64, truncated) but at least two datagrams; afterwards, the loss
  of any packet already sent then changes nothing, and acknowledgements of such packets do not grow the
  window.
\<close>

theorem one_cutback_per_recovery:
  assumes "cwnd_inv mds0 c" "largestSentAtLastCutback c < pn"
    "2 * maxDatagramSize c \<le> congestionWindow c"
  defines "d \<equiv> OnCongestionEvent c pn"
  assumes "pn' \<le> largestSentPacketNumber c" "0 \<le> pn'" "largestAckedPacketNumber c \<le> pn'"
  shows "congestionWindow d = max (2 * maxDatagramSize c) (flt_trunc (flt_mul 53 (float64 (congestionWindow c)) renoBeta))
    \<and> congestionWindow d \<le> congestionWindow c
    \<and> \<not> InSlowStart d
    \<and> OnCongestionEvent d pn' = d
    \<and> congestionWindow (OnPacketAcked d r pn' bytes inFlight now) = congestionWindow d"
proof -
  have w: "congestionWindow d = max (2 * maxDatagramSize c) (flt_trunc (flt_mul 53 (float64 (congestionWindow c)) renoBeta))"
    using assms by (simp add: OnCongestionEvent_reno cwnd_inv_def cwnd_consts)
  have "flt_trunc (flt_mul 53 (float64 (congestionWindow c)) renoBeta) \<le> congestionWindow c"
    using assms by (intro renoBeta_shrinks) (auto simp: cwnd_inv_def cwnd_consts)
  moreover have "largestSentAtLastCutback d = largestSentPacketNumber c" "largestAckedPacketNumber d = largestAckedPacketNumber c"
    "slowStartThreshold d = congestionWindow d"
    using assms by (auto simp: d_def OnCongestionEvent_def Let_def split: prod.splits)
  ultimately show ?thesis using w assms(3,5-)
    by (auto simp: InSlowStart_def GetCongestionWindow_def OnCongestionEvent_def OnPacketAcked_def InRecovery_def
        InvalidPacketNumber_def Let_def)
qed

theorem one_cutback_per_recovery_witness:
  "let c = NewCubicSender NewRTTStats 1252 True\<lparr>largestSentPacketNumber := 9\<rparr>; d = OnCongestionEvent c 3
   in congestionWindow d = max (2 * maxDatagramSize c) (flt_trunc (flt_mul 53 (float64 (congestionWindow c)) renoBeta))
    \<and> congestionWindow d \<le> congestionWindow c
    \<and> \<not> InSlowStart d
    \<and> OnCongestionEvent d 5 = d
    \<and> congestionWindow (OnPacketAcked d NewRTTStats 5 100 40064 7) = congestionWindow d"
  unfolding Let_def
  by (rule one_cutback_per_recovery [of 1252])
    (simp_all add: cwnd_inv_def cwnd_consts NewCubicSender_def newCubicSender_def Let_def InvalidPacketNumber_def)

end
