(* ===== verification/Ecn.thy ===== *)
theory Ecn
  imports Sent_History
begin

text \<open>
  Validation of explicit congestion notification on a path, from \<open>internal/ackhandler/ecn.go\<close>. The
  counters of testing packets are 8-bit words as in the source. Tracing and logging are left out.
\<close>

subsection \<open>State and operations\<close>

datatype ecnState = ecnStateInitial | ecnStateTesting | ecnStateUnknown | ecnStateCapable | ecnStateFailed

definition numECNTestingPackets :: int where "numECNTestingPackets = 10"

record ecnTracker =
  ecn_state :: ecnState
  numSentTesting :: byte
  numLostTesting :: byte
  firstTestingPacket :: PacketNumber
  lastTestingPacket :: PacketNumber
  firstCapablePacket :: PacketNumber
  numSentECT0 :: int
  numSentECT1 :: int
  numAckedECT0 :: int
  numAckedECT1 :: int
  numAckedECNCE :: int

definition newECNTracker :: ecnTracker where
  "newECNTracker =
     \<lparr>ecn_state = ecnStateInitial, numSentTesting = 0, numLostTesting = 0,
      firstTestingPacket = InvalidPacketNumber, lastTestingPacket = InvalidPacketNumber,
      firstCapablePacket = InvalidPacketNumber, numSentECT0 = 0, numSentECT1 = 0,
      numAckedECT0 = 0, numAckedECT1 = 0, numAckedECNCE = 0\<rparr>"

text \<open>The part of \<open>SentPacket\<close> after the marking was counted.\<close>

definition ecn_recordSent :: "ecnTracker \<Rightarrow> PacketNumber \<Rightarrow> ecnTracker" where
  "ecn_recordSent e pn =
     (let e = (if ecn_state e = ecnStateCapable \<and> firstCapablePacket e = InvalidPacketNumber
               then e\<lparr>firstCapablePacket := pn\<rparr> else e) in
      if ecn_state e \<noteq> ecnStateTesting then e
      else
        let e = e\<lparr>numSentTesting := numSentTesting e + 1\<rparr>;
            e = (if firstTestingPacket e = InvalidPacketNumber then e\<lparr>firstTestingPacket := pn\<rparr> else e)
        in if numSentECT0 e + numSentECT1 e \<ge> numECNTestingPackets
           then e\<lparr>ecn_state := ecnStateUnknown, lastTestingPacket := pn\<rparr> else e)"

definition ecn_SentPacket :: "ecnTracker \<Rightarrow> PacketNumber \<Rightarrow> ECN \<Rightarrow> ecnTracker result" where
  "ecn_SentPacket e pn ecn =
     (case ecn of
        ECNNon \<Rightarrow> Inr e
      | ECT0 \<Rightarrow> Inr (ecn_recordSent (e\<lparr>numSentECT0 := numSentECT0 e + 1\<rparr>) pn)
      | ECT1 \<Rightarrow> Inr (ecn_recordSent (e\<lparr>numSentECT1 := numSentECT1 e + 1\<rparr>) pn)
      | ECNUnsupported \<Rightarrow>
          if ecn_state e \<noteq> ecnStateFailed then Inl (Panic ''didn't expect ECN to be unsupported'')
          else Inr (ecn_recordSent e pn)
      | _ \<Rightarrow> Inl (Panic ''sent packet with unexpected ECN marking''))"

definition Mode :: "ecnTracker \<Rightarrow> ecnTracker \<times> ECN" where
  "Mode e =
     (case ecn_state e of
        ecnStateInitial \<Rightarrow> (e\<lparr>ecn_state := ecnStateTesting\<rparr>, ECT0)
      | ecnStateTesting \<Rightarrow> (e, ECT0)
      | ecnStateCapable \<Rightarrow> (e, ECT0)
      | ecnStateUnknown \<Rightarrow> (e, ECNNon)
      | ecnStateFailed \<Rightarrow> (e, ECNNon))"

definition isTestingPacket :: "ecnTracker \<Rightarrow> PacketNumber \<Rightarrow> bool" where
  "isTestingPacket e pn =
     (if firstTestingPacket e = InvalidPacketNumber then False
      else pn \<ge> firstTestingPacket e \<and> (pn \<le> lastTestingPacket e \<or> lastTestingPacket e = InvalidPacketNumber))"

definition ecnMarking :: "ecnTracker \<Rightarrow> PacketNumber \<Rightarrow> ECN" where
  "ecnMarking e pn =
     (if pn < firstTestingPacket e \<or> firstTestingPacket e = InvalidPacketNumber then ECNNon
      else if pn < lastTestingPacket e \<or> lastTestingPacket e = InvalidPacketNumber then ECT0
      else if pn < firstCapablePacket e \<or> firstCapablePacket e = InvalidPacketNumber then ECNNon
      else ECT0)"

definition failIfMangled :: "ecnTracker \<Rightarrow> ecnTracker" where
  "failIfMangled e =
     (let acked = numAckedECNCE e + uint (numLostTesting e) in
      if numSentECT0 e + numSentECT1 e > acked then e else e\<lparr>ecn_state := ecnStateFailed\<rparr>)"

definition LostPacket :: "ecnTracker \<Rightarrow> PacketNumber \<Rightarrow> ecnTracker" where
  "LostPacket e pn =
     (if ecn_state e \<noteq> ecnStateTesting \<and> ecn_state e \<noteq> ecnStateUnknown then e
      else if \<not> isTestingPacket e pn then e
      else
        let e = e\<lparr>numLostTesting := numLostTesting e + 1\<rparr> in
        if ecn_state e \<noteq> ecnStateUnknown then e
        else if numLostTesting e \<ge> numSentTesting e then e\<lparr>ecn_state := ecnStateFailed\<rparr>
        else failIfMangled e)"

definition countMarked :: "ecnTracker \<Rightarrow> ECN \<Rightarrow> 'f packet list \<Rightarrow> int" where
  "countMarked e ecn ps = int (length (filter (\<lambda>p. ecnMarking e (PacketNumber p) = ecn) ps))"

text \<open>The last part of \<open>HandleNewlyAcked\<close>, after the counters were updated.\<close>

definition ecn_confirm :: "ecnTracker \<Rightarrow> 'f packet list \<Rightarrow> int \<Rightarrow> int \<Rightarrow> int \<Rightarrow> ecnTracker \<times> bool" where
  "ecn_confirm e ps newECT0 newECT1 newECNCE =
     (let e = (if ecn_state e = ecnStateUnknown then failIfMangled e else e) in
      if ecn_state e = ecnStateFailed then (e, False)
      else
        let e = (if ecn_state e = ecnStateTesting \<or> ecn_state e = ecnStateUnknown then
                   let ackedTestingPacket = list_ex (\<lambda>p. isTestingPacket e (PacketNumber p)) ps
                   in if ackedTestingPacket \<and> (newECT0 > 0 \<or> newECT1 > 0)
                      then e\<lparr>ecn_state := ecnStateCapable\<rparr> else e
                 else e)
        in (e, ecn_state e = ecnStateCapable \<and> newECNCE > 0))"

definition HandleNewlyAcked :: "ecnTracker \<Rightarrow> 'f packet list \<Rightarrow> int \<Rightarrow> int \<Rightarrow> int \<Rightarrow> ecnTracker \<times> bool" where
  "HandleNewlyAcked e ps ect0 ect1 ecnce =
     (let failed = e\<lparr>ecn_state := ecnStateFailed\<rparr> in
      if ecn_state e = ecnStateFailed then (e, False)
      else if ect0 > numSentECT0 e \<or> ect1 > numSentECT1 e then (failed, False)
      else
        let ackedECT0 = countMarked e ECT0 ps; ackedECT1 = countMarked e ECT1 ps in
        if (ackedECT0 > 0 \<or> ackedECT1 > 0) \<and> ect0 = 0 \<and> ect1 = 0 \<and> ecnce = 0 then (failed, False)
        else
          let newECT0 = ect0 - numAckedECT0 e; newECT1 = ect1 - numAckedECT1 e;
              newECNCE = ecnce - numAckedECNCE e in
          if newECT0 < 0 \<or> newECT1 < 0 \<or> newECNCE < 0 then (failed, False)
          else if newECT0 + newECNCE < ackedECT0 then (failed, False)
          else if newECT1 + newECNCE < ackedECT1 then (failed, False)
          else ecn_confirm (e\<lparr>numAckedECT0 := ect0, numAckedECT1 := ect1, numAckedECNCE := ecnce\<rparr>)
                 ps newECT0 newECT1 newECNCE)"

subsection \<open>Reachable states\<close>

text \<open>
  Packets are sent with the marking that \<open>Mode\<close> returns. Losses and acknowledgements may come in any
  order and with any counters.
\<close>

inductive ecn_reachable :: "ecnTracker \<Rightarrow> bool" where
  new: "ecn_reachable newECNTracker"
| send: "ecn_reachable e \<Longrightarrow> Mode e = (e', ecn) \<Longrightarrow> 0 \<le> pn \<Longrightarrow> ecn_SentPacket e' pn ecn = Inr e'' \<Longrightarrow> ecn_reachable e''"
| lost: "ecn_reachable e \<Longrightarrow> ecn_reachable (LostPacket e pn)"
| acked: "ecn_reachable e \<Longrightarrow> ecn_reachable (fst (HandleNewlyAcked e (ps :: nat packet list) ect0 ect1 ecnce))"

definition ecn_inv :: "ecnTracker \<Rightarrow> bool" where
  "ecn_inv e \<longleftrightarrow> numSentECT1 e = 0 \<and> 0 \<le> numSentECT0 e
     \<and> (ecn_state e \<in> {ecnStateInitial, ecnStateTesting, ecnStateUnknown} \<longrightarrow> firstCapablePacket e = InvalidPacketNumber)
     \<and> (ecn_state e = ecnStateInitial \<longrightarrow> numSentECT0 e = 0)
     \<and> (ecn_state e \<in> {ecnStateInitial, ecnStateTesting} \<longrightarrow> uint (numSentTesting e) = numSentECT0 e \<and> numSentECT0 e < 10
          \<and> lastTestingPacket e = InvalidPacketNumber)
     \<and> (ecn_state e = ecnStateUnknown \<longrightarrow> numSentECT0 e = 10 \<and> numSentTesting e = 10
          \<and> 0 \<le> lastTestingPacket e)"

text \<open>Sending packets with the given numbers, each with the marking that \<open>Mode\<close> returns.\<close>

fun sendMarked :: "ecnTracker \<Rightarrow> PacketNumber list \<Rightarrow> ecnTracker result" where
  "sendMarked e [] = Inr e"
| "sendMarked e (pn # pns) =
     (let (e, ecn) = Mode e in bindE (ecn_SentPacket e pn ecn) (\<lambda>e. sendMarked e pns))"

subsection \<open>The invariant\<close>

lemma ecn_recordSent_frame [simp]:
  "numSentECT0 (ecn_recordSent e pn) = numSentECT0 e" "numSentECT1 (ecn_recordSent e pn) = numSentECT1 e"
  by (simp_all add: ecn_recordSent_def Let_def)

lemma ecn_inv_sent:
  assumes "ecn_inv e" "ecn_state e \<in> {ecnStateTesting, ecnStateCapable}" "0 \<le> pn"
  shows "ecn_inv (ecn_recordSent (e\<lparr>numSentECT0 := numSentECT0 e + 1\<rparr>) pn)"
proof (cases "ecn_state e = ecnStateTesting")
  case True
  with assms have n: "uint (numSentTesting e) = numSentECT0 e" "numSentECT0 e < 10" "0 \<le> numSentECT0 e" by (auto simp: ecn_inv_def)
  have u: "uint (numSentTesting e + 1) = numSentECT0 e + 1" using n by (simp add: uint_word_ariths)
  moreover have "numSentECT0 e = 9 \<Longrightarrow> numSentTesting e + 1 = 10" using u by (simp add: word_uint_eq_iff)
  ultimately show ?thesis using assms True
    by (auto simp: ecn_inv_def ecn_recordSent_def Let_def numECNTestingPackets_def InvalidPacketNumber_def)
qed (use assms in \<open>auto simp: ecn_inv_def ecn_recordSent_def Let_def\<close>)

lemma ecn_inv_Mode:
  assumes "ecn_inv e" "Mode e = (e', ecn)"
  shows "ecn_inv e'" "ecn = ECT0 \<and> ecn_state e' \<in> {ecnStateTesting, ecnStateCapable} \<or> ecn = ECNNon \<and> e' = e"
  using assms by (auto simp: Mode_def ecn_inv_def split: ecnState.splits)

lemma ecn_inv_failIfMangled: "ecn_inv e \<Longrightarrow> ecn_inv (failIfMangled e)"
  by (auto simp: failIfMangled_def ecn_inv_def Let_def)

lemma ecn_inv_failed: "ecn_inv e \<Longrightarrow> ecn_inv (e\<lparr>ecn_state := ecnStateFailed\<rparr>)"
  by (auto simp: ecn_inv_def)

lemma ecn_inv_LostPacket: "ecn_inv e \<Longrightarrow> ecn_inv (LostPacket e pn)"
proof -
  assume i: "ecn_inv e"
  define d where "d = e\<lparr>numLostTesting := numLostTesting e + 1\<rparr>"
  have "ecn_inv d" using i by (simp add: d_def ecn_inv_def)
  then show ?thesis using i
    by (simp add: LostPacket_def ecn_inv_failIfMangled ecn_inv_failed Let_def flip: d_def)
qed

lemma ecn_inv_confirm:
  assumes "ecn_inv e"
  shows "ecn_inv (fst (ecn_confirm e ps n0 n1 nce))"
proof -
  define d where "d = (if ecn_state e = ecnStateUnknown then failIfMangled e else e)"
  have "ecn_inv d" using assms by (simp add: d_def ecn_inv_failIfMangled)
  then have "ecn_inv d" "ecn_inv (d\<lparr>ecn_state := ecnStateCapable\<rparr>)" by (auto simp: ecn_inv_def)
  then show ?thesis by (simp add: ecn_confirm_def Let_def flip: d_def)
qed

lemma ecn_inv_acked: "ecn_inv e \<Longrightarrow> ecn_inv (fst (HandleNewlyAcked e ps ect0 ect1 ecnce))"
proof -
  assume i: "ecn_inv e"
  define d where "d = e\<lparr>numAckedECT0 := ect0, numAckedECT1 := ect1, numAckedECNCE := ecnce\<rparr>"
  have "ecn_inv d" using i by (simp add: d_def ecn_inv_def)
  then show ?thesis using i ecn_inv_failed [OF i]
    by (simp add: HandleNewlyAcked_def ecn_inv_confirm Let_def flip: d_def)
qed

lemma send_total:
  assumes "ecn_inv e" "Mode e = (e', ecn)" "0 \<le> pn"
  shows "\<exists>e''. ecn_SentPacket e' pn ecn = Inr e'' \<and> ecn_inv e''"
  using ecn_inv_Mode [OF assms(1,2)] ecn_inv_sent [of e' pn] assms by (auto simp: ecn_SentPacket_def)

lemma ecn_reachable_inv: "ecn_reachable e \<Longrightarrow> ecn_inv e"
proof (induction rule: ecn_reachable.induct)
  case new
  then show ?case by (simp add: ecn_inv_def newECNTracker_def)
next
  case (send e e' ecn pn e'')
  then show ?case using send_total by fastforce
qed (simp_all add: ecn_inv_LostPacket ecn_inv_acked)

lemma sendMarked_reachable:
  "ecn_reachable e \<Longrightarrow> list_all (\<lambda>pn. 0 \<le> pn) pns \<Longrightarrow> sendMarked e pns = Inr e' \<Longrightarrow> ecn_reachable e'"
  by (induction pns arbitrary: e) (auto simp: resultE split: prod.splits intro: ecn_reachable.send)

lemma HandleNewlyAcked_congested:
  assumes "HandleNewlyAcked e ps ect0 ect1 ecnce = (e', True)"
  shows "ecn_state e' = ecnStateCapable \<and> numAckedECNCE e < ecnce \<and> ect0 \<le> numSentECT0 e
    \<and> countMarked e ECT0 ps \<le> (ect0 - numAckedECT0 e) + (ecnce - numAckedECNCE e)"
  using assms by (auto simp: HandleNewlyAcked_def ecn_confirm_def Let_def split: if_splits)

subsection \<open>Properties\<close>

text \<open>
  C36. ECN validation in every reachable state: sending with the announced marking never panics, at most
  ten packets are marked before the path is validated, a failed validation is final and stops the
  marking, and congestion is reported only on a validated path whose CE count increased by
  counters that cover the acknowledged packets.
\<close>

theorem ecn_validation_sound:
  assumes "ecn_reachable e" "0 \<le> pn"
  shows "(\<exists>e'. ecn_SentPacket (fst (Mode e)) pn (snd (Mode e)) = Inr e')
    \<and> (ecn_state e \<in> {ecnStateInitial, ecnStateTesting, ecnStateUnknown} \<longrightarrow> numSentECT0 e + numSentECT1 e \<le> 10)
    \<and> (ecn_state e = ecnStateFailed \<longrightarrow> Mode e = (e, ECNNon) \<and> LostPacket e q = e \<and> HandleNewlyAcked e ps ect0 ect1 ecnce = (e, False))
    \<and> (snd (HandleNewlyAcked e ps ect0 ect1 ecnce) \<longrightarrow>
         ecn_state (fst (HandleNewlyAcked e ps ect0 ect1 ecnce)) = ecnStateCapable \<and> numAckedECNCE e < ecnce
         \<and> ect0 \<le> numSentECT0 e \<and> countMarked e ECT0 ps \<le> (ect0 - numAckedECT0 e) + (ecnce - numAckedECNCE e))"
proof -
  have i: "ecn_inv e" using assms(1) by (rule ecn_reachable_inv)
  have "\<exists>e'. ecn_SentPacket (fst (Mode e)) pn (snd (Mode e)) = Inr e'"
    using send_total [OF i, of "fst (Mode e)" "snd (Mode e)" pn] assms(2) by auto
  moreover have "ecn_state e \<in> {ecnStateInitial, ecnStateTesting, ecnStateUnknown} \<longrightarrow> numSentECT0 e + numSentECT1 e \<le> 10"
    using i by (auto simp: ecn_inv_def)
  moreover have "ecn_state e = ecnStateFailed \<longrightarrow> Mode e = (e, ECNNon) \<and> LostPacket e q = e \<and> HandleNewlyAcked e ps ect0 ect1 ecnce = (e, False)"
    by (simp add: Mode_def LostPacket_def HandleNewlyAcked_def)
  ultimately show ?thesis using HandleNewlyAcked_congested [of e ps ect0 ect1 ecnce "fst (HandleNewlyAcked e ps ect0 ect1 ecnce)"]
    by (metis prod.collapse)
qed

theorem ecn_validation_sound_witness:
  "\<exists>e'. ecn_SentPacket (fst (Mode newECNTracker)) 7 (snd (Mode newECNTracker)) = Inr e'"
  using ecn_validation_sound [OF ecn_reachable.new, of 7 0 "[] :: nat packet list" 0 0 0] by simp

text \<open>
  C37. The last testing packet is sent with ECT(0), but \<open>ecnMarking\<close> reports it as not marked: its
  acknowledgement is left out of the count that detects bleaching.
\<close>

theorem last_testing_packet_unmarked:
  assumes "ecn_reachable e" "ecn_state e = ecnStateUnknown"
  shows "ecnMarking e (lastTestingPacket e) = ECNNon"
  using ecn_reachable_inv [OF assms(1)] assms(2) by (auto simp: ecnMarking_def ecn_inv_def InvalidPacketNumber_def)

theorem last_testing_packet_unmarked_witness:
  "\<exists>e. sendMarked newECNTracker [0, 1, 2, 3, 4, 5, 6, 7, 8, 9] = Inr e \<and> lastTestingPacket e = 9
     \<and> ecnMarking e (lastTestingPacket e) = ECNNon"
proof -
  obtain e where e: "sendMarked newECNTracker [0, 1, 2, 3, 4, 5, 6, 7, 8, 9] = Inr e"
    "lastTestingPacket e = 9" "ecn_state e = ecnStateUnknown"
    by (simp add: newECNTracker_def Mode_def ecn_SentPacket_def ecn_recordSent_def numECNTestingPackets_def
        InvalidPacketNumber_def)
  have "ecn_reachable e" using e(1) by (rule sendMarked_reachable [OF ecn_reachable.new, rotated]) simp
  then show ?thesis using last_testing_packet_unmarked [of e] e by blast
qed

end
