(* ===== verification/Sent_Handler.thy ===== *)
theory Sent_Handler
  imports Ecn Cubic_Sender Ack_Frame
begin

text \<open>
  The sent packet handler, from \<open>internal/ackhandler/sent_packet_handler.go\<close>: loss detection, probe
  timeouts, bytes in flight, the amplification limit and the calls into congestion control, round-trip
  statistics and ECN validation. The clock is an argument. An operation that can panic returns an
  error value; the Go error of an operation that also changes the state is the inner result. The
  callbacks of the frame handlers are recorded in the order in which they are made. Packets that were
  acknowledged or declared lost leave the history before they are changed, so packets are values.
  Tracing, logging and the scratch buffer of acknowledged packets are left out.
\<close>

subsection \<open>State\<close>

definition timeThreshold :: flt where "timeThreshold = (9, 3)"
definition packetThreshold :: PacketNumber where "packetThreshold = 3"
definition amplificationFactor :: ByteCount where "amplificationFactor = 3"
definition minRTTAfterRetry :: duration where "minRTTAfterRetry = 5 * Millisecond"
definition maxPTODuration :: duration where "maxPTODuration = 60 * Second"

datatype SendMode =
    SendNone | SendAck | SendPTOInitial | SendPTOHandshake | SendPTOAppData | SendPacingLimited | SendAny

datatype 'f FrameHandlerCall = OnAcked nat 'f | OnLost nat 'f

record 'f packetNumberSpace =
  history :: "'f sentPacketHistory"
  pns :: packetNumberGenerator
  lossTime :: "time"
  lastAckElicitingPacketTime :: "time"
  largestAcked :: PacketNumber
  largestSent :: PacketNumber

definition newPacketNumberSpace :: "(int \<Rightarrow> int) \<Rightarrow> PacketNumber \<Rightarrow> bool \<Rightarrow> 'f packetNumberSpace" where
  "newPacketNumberSpace rnd initialPN skipPNs =
     \<lparr>history = newSentPacketHistory,
      pns = (if skipPNs then newSkippingPacketNumberGenerator rnd initialPN SkipPacketInitialPeriod SkipPacketMaxPeriod
             else newSequentialPacketNumberGenerator initialPN),
      lossTime = 0, lastAckElicitingPacketTime = 0,
      largestAcked = InvalidPacketNumber, largestSent = InvalidPacketNumber\<rparr>"

record 'f sentPacketHandler =
  sph_initialPackets :: "'f packetNumberSpace option"
  sph_handshakePackets :: "'f packetNumberSpace option"
  sph_appDataPackets :: "'f packetNumberSpace"
  peerCompletedAddressValidation :: bool
  bytesReceived :: ByteCount
  bytesSent :: ByteCount
  peerAddressValidated :: bool
  handshakeConfirmed :: bool
  lowestNotConfirmedAcked :: PacketNumber
  bytesInFlight :: ByteCount
  congestion :: cubicSender
  rttStats :: RTTStats
  ptoCount :: "32 word"
  ptoMode :: SendMode
  numProbesToSend :: int
  alarm :: "time"
  enableECN :: bool
  ecnHandler :: "ecnTracker option"
  perspective :: Perspective
  handlerCalls :: "'f FrameHandlerCall list"

definition newSentPacketHandler ::
  "(int \<Rightarrow> int) \<Rightarrow> PacketNumber \<Rightarrow> ByteCount \<Rightarrow> RTTStats \<Rightarrow> bool \<Rightarrow> bool \<Rightarrow> Perspective \<Rightarrow> 'f sentPacketHandler" where
  "newSentPacketHandler rnd initialPN mds rtt clientAddressValidated enable pers =
     \<lparr>sph_initialPackets = Some (newPacketNumberSpace rnd initialPN False),
      sph_handshakePackets = Some (newPacketNumberSpace rnd 0 False),
      sph_appDataPackets = newPacketNumberSpace rnd 0 True,
      peerCompletedAddressValidation = (pers = PerspectiveServer),
      bytesReceived = 0, bytesSent = 0,
      peerAddressValidated = (pers = PerspectiveClient \<or> clientAddressValidated),
      handshakeConfirmed = False, lowestNotConfirmedAcked = 0, bytesInFlight = 0,
      congestion = NewCubicSender rtt mds True, rttStats = rtt,
      ptoCount = 0, ptoMode = SendNone, numProbesToSend = 0, alarm = 0,
      enableECN = enable, ecnHandler = (if enable then Some newECNTracker else None),
      perspective = pers, handlerCalls = []\<rparr>"

subsection \<open>Packet number spaces\<close>

text \<open>A nil space is \<open>None\<close>; using it is a nil pointer dereference.\<close>

definition getPacketNumberSpace ::
  "'f sentPacketHandler \<Rightarrow> EncryptionLevel \<Rightarrow> 'f packetNumberSpace option result" where
  "getPacketNumberSpace h encLevel =
     (case encLevel of
        EncryptionInitial \<Rightarrow> Inr (sph_initialPackets h)
      | EncryptionHandshake \<Rightarrow> Inr (sph_handshakePackets h)
      | Encryption0RTT \<Rightarrow> Inr (Some (sph_appDataPackets h))
      | Encryption1RTT \<Rightarrow> Inr (Some (sph_appDataPackets h))
      | _ \<Rightarrow> Inl (Panic ''invalid packet number space''))"

definition theSpace :: "'f sentPacketHandler \<Rightarrow> EncryptionLevel \<Rightarrow> 'f packetNumberSpace result" where
  "theSpace h encLevel =
     bindE (getPacketNumberSpace h encLevel) (\<lambda>s.
     case s of None \<Rightarrow> Inl (Panic ''nil pointer dereference'') | Some s \<Rightarrow> Inr s)"

definition setSpace ::
  "'f sentPacketHandler \<Rightarrow> EncryptionLevel \<Rightarrow> 'f packetNumberSpace \<Rightarrow> 'f sentPacketHandler" where
  "setSpace h encLevel s =
     (case encLevel of
        EncryptionInitial \<Rightarrow> h\<lparr>sph_initialPackets := Some s\<rparr>
      | EncryptionHandshake \<Rightarrow> h\<lparr>sph_handshakePackets := Some s\<rparr>
      | _ \<Rightarrow> h\<lparr>sph_appDataPackets := s\<rparr>)"

definition updHistory ::
  "'f sentPacketHandler \<Rightarrow> EncryptionLevel \<Rightarrow> ('f sentPacketHistory \<Rightarrow> 'f sentPacketHistory result)
   \<Rightarrow> 'f sentPacketHandler result" where
  "updHistory h encLevel f =
     bindE (theSpace h encLevel) (\<lambda>s. bindE (f (history s)) (\<lambda>hs. Inr (setSpace h encLevel (s\<lparr>history := hs\<rparr>))))"

subsection \<open>Loss detection timer\<close>

definition isAmplificationLimited :: "'f sentPacketHandler \<Rightarrow> bool" where
  "isAmplificationLimited h =
     (if peerAddressValidated h then False else bytesSent h \<ge> amplificationFactor * bytesReceived h)"

definition hasOutstandingCryptoPackets :: "'f sentPacketHandler \<Rightarrow> bool" where
  "hasOutstandingCryptoPackets h \<longleftrightarrow>
     (case sph_initialPackets h of Some s \<Rightarrow> HasOutstandingPackets (history s) | None \<Rightarrow> False)
     \<or> (case sph_handshakePackets h of Some s \<Rightarrow> HasOutstandingPackets (history s) | None \<Rightarrow> False)"

definition hasOutstandingPackets :: "'f sentPacketHandler \<Rightarrow> bool" where
  "hasOutstandingPackets h \<longleftrightarrow>
     HasOutstandingPackets (history (sph_appDataPackets h)) \<or> hasOutstandingCryptoPackets h"

definition getLossTimeAndSpace :: "'f sentPacketHandler \<Rightarrow> time \<times> EncryptionLevel" where
  "getLossTimeAndSpace h =
     (let (t, l) = (case sph_initialPackets h of
              Some s \<Rightarrow> (lossTime s, EncryptionInitial) | None \<Rightarrow> (0, EncryptionUnset));
          (t, l) = (case sph_handshakePackets h of
              Some s \<Rightarrow> if time_IsZero t \<or> (\<not> time_IsZero (lossTime s) \<and> lossTime s < t)
                        then (lossTime s, EncryptionHandshake) else (t, l)
            | None \<Rightarrow> (t, l));
          a = lossTime (sph_appDataPackets h)
      in if time_IsZero t \<or> (\<not> time_IsZero a \<and> a < t) then (a, Encryption1RTT) else (t, l))"

definition getScaledPTO :: "'f sentPacketHandler \<Rightarrow> bool \<Rightarrow> duration" where
  "getScaledPTO h includeMaxAckDelay =
     (let pto = wrap64 (push_bit (unat (ptoCount h)) (PTO (rttStats h) includeMaxAckDelay)) in
      if pto > maxPTODuration \<or> pto \<le> 0 then maxPTODuration else pto)"

definition getPTOTimeAndSpace :: "'f sentPacketHandler \<Rightarrow> time \<Rightarrow> time \<times> EncryptionLevel \<times> bool" where
  "getPTOTimeAndSpace h now =
     (if \<not> handshakeConfirmed h \<and> \<not> hasOutstandingCryptoPackets h then
        if peerCompletedAddressValidation h then (0, EncryptionUnset, False)
        else
          let t = time_Add now (getScaledPTO h False) in
          (case sph_initialPackets h of
             Some _ \<Rightarrow> (t, EncryptionInitial, True)
           | None \<Rightarrow> (t, EncryptionHandshake, True))
      else
        let (p, l) = (case sph_initialPackets h of
                None \<Rightarrow> (0, EncryptionUnset)
              | Some s \<Rightarrow>
                  if time_IsZero (lastAckElicitingPacketTime s) then (0, EncryptionInitial)
                  else (time_Add (lastAckElicitingPacketTime s) (getScaledPTO h False), EncryptionInitial));
            (p, l) = (case sph_handshakePackets h of
                None \<Rightarrow> (p, l)
              | Some s \<Rightarrow>
                  if time_IsZero (lastAckElicitingPacketTime s) then (p, l)
                  else
                    let t = time_Add (lastAckElicitingPacketTime s) (getScaledPTO h False) in
                    if time_IsZero p \<or> (\<not> time_IsZero t \<and> t < p) then (t, EncryptionHandshake) else (p, l));
            (p, l) = (
                if handshakeConfirmed h \<and> \<not> time_IsZero (lastAckElicitingPacketTime (sph_appDataPackets h)) then
                  let t = time_Add (lastAckElicitingPacketTime (sph_appDataPackets h)) (getScaledPTO h True) in
                  if time_IsZero p \<or> (\<not> time_IsZero t \<and> t < p) then (t, Encryption1RTT) else (p, l)
                else (p, l))
        in (p, l, True))"

definition setLossDetectionTimer :: "'f sentPacketHandler \<Rightarrow> time \<Rightarrow> 'f sentPacketHandler" where
  "setLossDetectionTimer h now =
     (let (t, _) = getLossTimeAndSpace h in
      if \<not> time_IsZero t then h\<lparr>alarm := t\<rparr>
      else if isAmplificationLimited h then h\<lparr>alarm := 0\<rparr>
      else if \<not> hasOutstandingPackets h \<and> peerCompletedAddressValidation h then h\<lparr>alarm := 0\<rparr>
      else
        let (ptoTime, _, ok) = getPTOTimeAndSpace h now in
        if \<not> ok then (if \<not> time_IsZero (alarm h) then h\<lparr>alarm := 0\<rparr> else h)
        else h\<lparr>alarm := ptoTime\<rparr>)"

subsection \<open>Dropping, receiving and sending packets\<close>

text \<open>The packet itself leaves the history or the space is dropped, so only the handler changes.\<close>

definition removeFromBytesInFlight :: "'f sentPacketHandler \<Rightarrow> 'f packet \<Rightarrow> 'f sentPacketHandler result" where
  "removeFromBytesInFlight h p =
     (if includedInBytesInFlight p then
        if Length p > bytesInFlight h then Inl (Panic ''negative bytes_in_flight'')
        else Inr (h\<lparr>bytesInFlight := bytesInFlight h - Length p\<rparr>)
      else Inr h)"

definition drop0RTT_cb :: "'f packet \<Rightarrow> 'f sentPacketHandler \<Rightarrow> ('f sentPacketHandler \<times> bool) result" where
  "drop0RTT_cb p h =
     (if EncryptionLevel p \<noteq> Encryption0RTT \<and> \<not> skippedPacket p then Inr (h, False)
      else
        bindE (removeFromBytesInFlight h p) (\<lambda>h.
        case Remove (history (sph_appDataPackets h)) (PacketNumber p) of
          Inl (Err _) \<Rightarrow> Inr (h, True)
        | Inl e \<Rightarrow> Inl e
        | Inr hs \<Rightarrow> Inr (h\<lparr>sph_appDataPackets := (sph_appDataPackets h)\<lparr>history := hs\<rparr>\<rparr>, True)))"

definition sph_DropPackets :: "'f sentPacketHandler \<Rightarrow> EncryptionLevel \<Rightarrow> time \<Rightarrow> 'f sentPacketHandler result" where
  "sph_DropPackets h encLevel now =
     (let h = (if perspective h = PerspectiveClient \<and> encLevel = EncryptionHandshake
               then h\<lparr>peerCompletedAddressValidation := True\<rparr> else h);
          finish = (\<lambda>h. Inr (setLossDetectionTimer (h\<lparr>ptoCount := 0, numProbesToSend := 0, ptoMode := SendNone\<rparr>) now));
          forget = (\<lambda>s. Iterate (history s) (\<lambda>p h. bindE (removeFromBytesInFlight h p) (\<lambda>h. Inr (h, True))) h)
      in case encLevel of
           EncryptionInitial \<Rightarrow>
             (case sph_initialPackets h of
                None \<Rightarrow> Inr h
              | Some s \<Rightarrow> bindE (forget s) (\<lambda>h. finish (h\<lparr>sph_initialPackets := None\<rparr>)))
         | EncryptionHandshake \<Rightarrow>
             (case sph_handshakePackets h of
                None \<Rightarrow> Inr h
              | Some s \<Rightarrow> bindE (forget s) (\<lambda>h. finish (h\<lparr>sph_handshakePackets := None\<rparr>)))
         | Encryption0RTT \<Rightarrow> bindE (Iterate (history (sph_appDataPackets h)) drop0RTT_cb h) finish
         | _ \<Rightarrow> Inl (Panic ''Cannot drop keys for encryption level''))"

definition ReceivedBytes :: "'f sentPacketHandler \<Rightarrow> ByteCount \<Rightarrow> time \<Rightarrow> 'f sentPacketHandler" where
  "ReceivedBytes h n now =
     (let wasAmplificationLimit = isAmplificationLimited h;
          h = h\<lparr>bytesReceived := bytesReceived h + n\<rparr>
      in if wasAmplificationLimit \<and> \<not> isAmplificationLimited h then setLossDetectionTimer h now else h)"

definition sph_ReceivedPacket :: "'f sentPacketHandler \<Rightarrow> EncryptionLevel \<Rightarrow> time \<Rightarrow> 'f sentPacketHandler" where
  "sph_ReceivedPacket h l now =
     (if perspective h = PerspectiveServer \<and> l = EncryptionHandshake \<and> \<not> peerAddressValidated h
      then setLossDetectionTimer (h\<lparr>peerAddressValidated := True\<rparr>) now else h)"

definition sph_SentPacket ::
  "'f sentPacketHandler \<Rightarrow> time \<Rightarrow> PacketNumber \<Rightarrow> PacketNumber \<Rightarrow> 'f Frame list \<Rightarrow> 'f Frame list \<Rightarrow> EncryptionLevel
   \<Rightarrow> ECN \<Rightarrow> ByteCount \<Rightarrow> bool \<Rightarrow> time \<Rightarrow> 'f sentPacketHandler result" where
  "sph_SentPacket h t pn largestAck streamFrames frames encLevel ecn size' isPathMTUProbe now =
     (let h = h\<lparr>bytesSent := bytesSent h + size'\<rparr> in
      bindE (theSpace h encLevel) (\<lambda>s.
      let isAckEliciting = (length streamFrames > 0 \<or> length frames > 0);
          s = s\<lparr>largestSent := pn\<rparr>;
          s = (if isAckEliciting then s\<lparr>lastAckElicitingPacketTime := t\<rparr> else s);
          h = setSpace h encLevel s;
          h = (if isAckEliciting then
                 let h = h\<lparr>bytesInFlight := bytesInFlight h + size'\<rparr>
                 in if numProbesToSend h > 0 then h\<lparr>numProbesToSend := numProbesToSend h - 1\<rparr> else h
               else h);
          h = h\<lparr>congestion := OnPacketSent (congestion h) (rttStats h) t pn size' isAckEliciting\<rparr>
      in
      bindE (case ecnHandler h of
               Some e \<Rightarrow> if encLevel = Encryption1RTT
                 then bindE (ecn_SentPacket e pn ecn) (\<lambda>e. Inr (h\<lparr>ecnHandler := Some e\<rparr>)) else Inr h
             | None \<Rightarrow> Inr h) (\<lambda>h.
      if \<not> isAckEliciting then
        bindE (updHistory h encLevel (\<lambda>hs. SentNonAckElicitingPacket hs pn)) (\<lambda>h.
        Inr (if \<not> peerCompletedAddressValidation h then setLossDetectionTimer h now else h))
      else
        let p = getPacket\<lparr>SendTime := t, PacketNumber := pn, EncryptionLevel := encLevel, Length := size',
                  pkt_LargestAcked := largestAck, StreamFrames := streamFrames, Frames := frames,
                  IsPathMTUProbePacket := isPathMTUProbe, includedInBytesInFlight := True\<rparr>
        in bindE (updHistory h encLevel (\<lambda>hs. SentAckElicitingPacket hs p)) (\<lambda>h.
           Inr (setLossDetectionTimer h now)))))"

subsection \<open>Acknowledgements\<close>

definition ackedCalls :: "'f packet \<Rightarrow> 'f FrameHandlerCall list" where
  "ackedCalls p =
     concat (map (\<lambda>f. case frame_Handler f of None \<Rightarrow> [] | Some i \<Rightarrow> [OnAcked i (frame_Frame f)]) (Frames p @ StreamFrames p))"

definition lostCalls :: "'f packet \<Rightarrow> 'f FrameHandlerCall list" where
  "lostCalls p =
     concat (map (\<lambda>f. case frame_Handler f of None \<Rightarrow> [] | Some i \<Rightarrow> [OnLost i (frame_Frame f)]) (Frames p @ StreamFrames p))"

text \<open>The loop that moves to the ACK range of the packet; ranges are indexed from the lowest.\<close>

function advanceRange :: "AckRange list \<Rightarrow> PacketNumber \<Rightarrow> nat \<Rightarrow> nat" where
  "advanceRange rs pn i =
     (if pn > Largest (rs ! (length rs - 1 - i)) \<and> i < length rs - 1 then advanceRange rs pn (i + 1) else i)"
  by pat_completeness auto
termination
  by (relation "measure (\<lambda>(rs, pn, i). length rs - i)") auto

declare advanceRange.simps [simp del]

text \<open>
  The callback that collects the acknowledged packets. Its state is the packets so far, the index of the
  range and the error with which the iteration stopped.
\<close>

type_synonym 'f ackScan = "'f packet list \<times> nat \<times> error option"

definition detectAcked_cb ::
  "AckFrame \<Rightarrow> PacketNumber \<Rightarrow> PacketNumber \<Rightarrow> 'f packet \<Rightarrow> 'f ackScan \<Rightarrow> ('f ackScan \<times> bool) result" where
  "detectAcked_cb ack lowest largest p st =
     (let (acked, i, err) = st; pn = PacketNumber p;
          collect = (\<lambda>i. if skippedPacket p then Inr ((acked, i, Some (TransportError ProtocolViolation 0)), False)
                         else Inr ((acked @ [p], i, err), True)) in
      if pn < lowest then Inr (st, True)
      else if pn > largest then Inr (st, False)
      else if HasMissingRanges ack then
        let i = advanceRange (AckRanges ack) pn i; r = AckRanges ack ! (length (AckRanges ack) - 1 - i) in
        if pn < Smallest r then Inr ((acked, i, err), True)
        else if pn > Largest r then Inr ((acked, i, Some (Err ''BUG: ackhandler would have acked wrong packet'')), False)
        else collect i
      else collect i)"

text \<open>The loop over the acknowledged packets; the error is the one of \<open>Remove\<close>.\<close>

fun processAcked ::
  "EncryptionLevel \<Rightarrow> 'f packet list \<Rightarrow> 'f sentPacketHandler \<Rightarrow> ('f sentPacketHandler \<times> error option) result" where
  "processAcked encLevel [] h = Inr (h, None)"
| "processAcked encLevel (p # ps) h =
     (let h = (if pkt_LargestAcked p \<noteq> InvalidPacketNumber \<and> encLevel = Encryption1RTT
               then h\<lparr>lowestNotConfirmedAcked := max (lowestNotConfirmedAcked h) (pkt_LargestAcked p + 1)\<rparr> else h);
          h = h\<lparr>handlerCalls := handlerCalls h @ ackedCalls p\<rparr>
      in case updHistory h encLevel (\<lambda>hs. Remove hs (PacketNumber p)) of
           Inl (Err e) \<Rightarrow> Inr (h, Some (Err e))
         | Inl e \<Rightarrow> Inl e
         | Inr h \<Rightarrow> processAcked encLevel ps h)"

definition detectAndRemoveAckedPackets ::
  "'f sentPacketHandler \<Rightarrow> AckFrame \<Rightarrow> EncryptionLevel \<Rightarrow> ('f sentPacketHandler \<times> 'f packet list \<times> error option) result" where
  "detectAndRemoveAckedPackets h ack encLevel =
     bindE (theSpace h encLevel) (\<lambda>s.
     bindE (LowestAcked ack) (\<lambda>lowest.
     bindE (LargestAcked ack) (\<lambda>largest.
     bindE (Iterate (history s) (detectAcked_cb ack lowest largest) ([], 0, None)) (\<lambda>(acked, _, err).
     bindE (processAcked encLevel acked h) (\<lambda>(h, rerr).
     case rerr of Some e \<Rightarrow> Inr (h, [], Some e) | None \<Rightarrow> Inr (h, acked, err))))))"

subsection \<open>Loss detection\<close>

definition queueFramesForRetransmission :: "'f sentPacketHandler \<Rightarrow> 'f packet \<Rightarrow> 'f sentPacketHandler result" where
  "queueFramesForRetransmission h p =
     (if Frames p = [] \<and> StreamFrames p = [] then Inl (Panic ''no frames'')
      else Inr (h\<lparr>handlerCalls := handlerCalls h @ lostCalls p\<rparr>))"

definition lossDelay :: "RTTStats \<Rightarrow> duration" where
  "lossDelay r =
     max (flt_trunc (flt_mul 53 timeThreshold (float64 (max (latestRTT r) (smoothedRTT r))))) TimerGranularity"

text \<open>What is done with a packet that counts as lost.\<close>

definition losePacket :: "EncryptionLevel \<Rightarrow> 'f packet \<Rightarrow> 'f sentPacketHandler \<Rightarrow> 'f sentPacketHandler result" where
  "losePacket encLevel p h =
     bindE (updHistory h encLevel (\<lambda>hs. DeclareLost hs (PacketNumber p))) (\<lambda>h.
     if skippedPacket p then Inr h
     else
       bindE (removeFromBytesInFlight h p) (\<lambda>h.
       bindE (queueFramesForRetransmission h p) (\<lambda>h.
       let h = (if \<not> IsPathMTUProbePacket p
                then h\<lparr>congestion := OnCongestionEvent (congestion h) (PacketNumber p)\<rparr> else h)
       in Inr (case ecnHandler h of
                 Some e \<Rightarrow> if encLevel = Encryption1RTT then h\<lparr>ecnHandler := Some (LostPacket e (PacketNumber p))\<rparr> else h
               | None \<Rightarrow> h))))"

definition packetLost :: "PacketNumber \<Rightarrow> time \<Rightarrow> 'f packet \<Rightarrow> bool" where
  "packetLost largest lostSendTime p \<longleftrightarrow>
     SendTime p < lostSendTime \<or> largest \<ge> PacketNumber p + packetThreshold"

definition detectLost_cb ::
  "EncryptionLevel \<Rightarrow> time \<Rightarrow> duration \<Rightarrow> 'f packet \<Rightarrow> 'f sentPacketHandler \<Rightarrow> ('f sentPacketHandler \<times> bool) result" where
  "detectLost_cb encLevel lostSendTime delay p h =
     bindE (theSpace h encLevel) (\<lambda>s.
     if PacketNumber p > largestAcked s then Inr (h, False)
     else if packetLost (largestAcked s) lostSendTime p
     then bindE (losePacket encLevel p h) (\<lambda>h. Inr (h, True))
     else if time_IsZero (lossTime s)
     then Inr (setSpace h encLevel (s\<lparr>lossTime := time_Add (SendTime p) delay\<rparr>), True)
     else Inr (h, True))"

definition detectLostPackets ::
  "'f sentPacketHandler \<Rightarrow> time \<Rightarrow> EncryptionLevel \<Rightarrow> 'f sentPacketHandler result" where
  "detectLostPackets h now encLevel =
     bindE (theSpace h encLevel) (\<lambda>s.
     let h = setSpace h encLevel (s\<lparr>lossTime := 0\<rparr>);
         delay = lossDelay (rttStats h);
         lostSendTime = time_Add now (- delay)
     in Iterate (history s) (detectLost_cb encLevel lostSendTime delay) h)"

text \<open>
  The loop over the acknowledged packets at the end of \<open>ReceivedAck\<close>: congestion control, bytes in
  flight, and whether a 1-RTT packet was among them.
\<close>

fun finishAcked ::
  "ByteCount \<Rightarrow> time \<Rightarrow> 'f packet list \<Rightarrow> 'f sentPacketHandler \<Rightarrow> bool \<Rightarrow> ('f sentPacketHandler \<times> bool) result" where
  "finishAcked prior rcvTime [] h acked1RTT = Inr (h, acked1RTT)"
| "finishAcked prior rcvTime (p # ps) h acked1RTT =
     (let h = (if includedInBytesInFlight p \<and> \<not> declaredLost p
               then h\<lparr>congestion := OnPacketAcked (congestion h) (rttStats h) (PacketNumber p) (Length p) prior rcvTime\<rparr>
               else h)
      in bindE (removeFromBytesInFlight h p) (\<lambda>h.
         finishAcked prior rcvTime ps h (acked1RTT \<or> EncryptionLevel p = Encryption1RTT)))"

definition updateRTTOnAck ::
  "'f sentPacketHandler \<Rightarrow> AckFrame \<Rightarrow> PacketNumber \<Rightarrow> 'f packet list \<Rightarrow> EncryptionLevel \<Rightarrow> time \<Rightarrow> 'f sentPacketHandler" where
  "updateRTTOnAck h ack largest acked encLevel rcvTime =
     (if PacketNumber (last acked) = largest then
        let ackDelay = (if encLevel = Encryption1RTT then min (DelayTime ack) (rtt_maxAckDelay (rttStats h)) else 0);
            h = h\<lparr>rttStats := UpdateRTT (rttStats h) (time_Sub rcvTime (SendTime (last acked))) ackDelay\<rparr>
        in h\<lparr>congestion := MaybeExitSlowStart (congestion h) (rttStats h)\<rparr>
      else h)"

definition ecnOnAck ::
  "'f sentPacketHandler \<Rightarrow> AckFrame \<Rightarrow> PacketNumber \<Rightarrow> PacketNumber \<Rightarrow> 'f packet list \<Rightarrow> EncryptionLevel \<Rightarrow> 'f sentPacketHandler" where
  "ecnOnAck h ack largest spaceLargest acked encLevel =
     (case ecnHandler h of
        Some e \<Rightarrow>
          if encLevel = Encryption1RTT \<and> largest > spaceLargest then
            let (e, congested) = HandleNewlyAcked e acked (int64_of (fECT0 ack)) (int64_of (fECT1 ack)) (int64_of (fECNCE ack));
                h = h\<lparr>ecnHandler := Some e\<rparr>
            in if congested then h\<lparr>congestion := OnCongestionEvent (congestion h) largest\<rparr> else h
          else h
      | None \<Rightarrow> h)"

definition ReceivedAck ::
  "'f sentPacketHandler \<Rightarrow> AckFrame \<Rightarrow> EncryptionLevel \<Rightarrow> time \<Rightarrow> time \<Rightarrow> ('f sentPacketHandler \<times> bool result) result" where
  "ReceivedAck h ack encLevel rcvTime now =
     bindE (theSpace h encLevel) (\<lambda>s.
     bindE (LargestAcked ack) (\<lambda>largest.
     if largest > largestSent s then Inr (h, Inl (TransportError ProtocolViolation 0))
     else
       let h = (if perspective h = PerspectiveClient \<and> \<not> peerCompletedAddressValidation h
                  \<and> (encLevel = EncryptionHandshake \<or> encLevel = Encryption1RTT)
                then setLossDetectionTimer (h\<lparr>peerCompletedAddressValidation := True\<rparr>) now else h);
           prior = bytesInFlight h in
       bindE (detectAndRemoveAckedPackets h ack encLevel) (\<lambda>(h, acked, err).
       case err of
         Some e \<Rightarrow> Inr (h, Inl e)
       | None \<Rightarrow>
         if acked = [] then Inr (h, Inr False)
         else
           let h = updateRTTOnAck h ack largest acked encLevel rcvTime;
               h = ecnOnAck h ack largest (largestAcked s) acked encLevel in
           bindE (theSpace h encLevel) (\<lambda>s.
           let h = setSpace h encLevel (s\<lparr>largestAcked := max (largestAcked s) largest\<rparr>) in
           bindE (detectLostPackets h rcvTime encLevel) (\<lambda>h.
           bindE (finishAcked prior rcvTime acked h False) (\<lambda>(h, acked1RTT).
           let h = (if peerCompletedAddressValidation h then h\<lparr>ptoCount := 0\<rparr> else h);
               h = h\<lparr>numProbesToSend := 0\<rparr>
           in Inr (setLossDetectionTimer h now, Inr acked1RTT)))))))"

subsection \<open>Probes, packet numbers and send mode\<close>

definition PeekPacketNumber :: "'f sentPacketHandler \<Rightarrow> EncryptionLevel \<Rightarrow> (PacketNumber \<times> PacketNumberLen) result" where
  "PeekPacketNumber h encLevel =
     bindE (theSpace h encLevel) (\<lambda>s.
     let pn = pns_Peek (pns s) in Inr (pn, GetPacketNumberLengthForHeader pn (largestAcked s)))"

definition PopPacketNumber ::
  "(int \<Rightarrow> int) \<Rightarrow> 'f sentPacketHandler \<Rightarrow> EncryptionLevel \<Rightarrow> ('f sentPacketHandler \<times> PacketNumber) result" where
  "PopPacketNumber rnd h encLevel =
     bindE (theSpace h encLevel) (\<lambda>s.
     let (g, skipped, pn) = pns_Pop rnd (pns s);
         s = s\<lparr>pns := g\<rparr>
     in bindE (if skipped then bindE (SkippedPacket (history s) (pn - 1)) (\<lambda>hs. Inr (s\<lparr>history := hs\<rparr>)) else Inr s) (\<lambda>s.
        Inr (setSpace h encLevel s, pn)))"

definition OnLossDetectionTimeout ::
  "(int \<Rightarrow> int) \<Rightarrow> 'f sentPacketHandler \<Rightarrow> time \<Rightarrow> ('f sentPacketHandler \<times> unit result) result" where
  "OnLossDetectionTimeout rnd h now =
     (let finish = (\<lambda>h r. Inr (setLossDetectionTimer h now, r));
          (t, encLevel) = getLossTimeAndSpace h in
      if \<not> time_IsZero t then bindE (detectLostPackets h now encLevel) (\<lambda>h. finish h (Inr ()))
      else if bytesInFlight h = 0 \<and> \<not> peerCompletedAddressValidation h then
        let h = h\<lparr>ptoCount := ptoCount h + 1, numProbesToSend := numProbesToSend h + 1\<rparr> in
        if sph_initialPackets h \<noteq> None then finish (h\<lparr>ptoMode := SendPTOInitial\<rparr>) (Inr ())
        else if sph_handshakePackets h \<noteq> None then finish (h\<lparr>ptoMode := SendPTOHandshake\<rparr>) (Inr ())
        else finish h (Inl (Err ''sentPacketHandler BUG: PTO fired, but bytes_in_flight is 0 and Initial and Handshake already dropped''))
      else
        let (_, encLevel, ok) = getPTOTimeAndSpace h now in
        if \<not> ok then finish h (Inr ())
        else
          bindE (theSpace h encLevel) (\<lambda>ps.
          if \<not> HasOutstandingPackets (history ps) \<and> \<not> peerCompletedAddressValidation h then finish h (Inr ())
          else
            let h = h\<lparr>ptoCount := ptoCount h + 1, numProbesToSend := numProbesToSend h + 2\<rparr> in
            (case encLevel of
               EncryptionInitial \<Rightarrow> finish (h\<lparr>ptoMode := SendPTOInitial\<rparr>) (Inr ())
             | EncryptionHandshake \<Rightarrow> finish (h\<lparr>ptoMode := SendPTOHandshake\<rparr>) (Inr ())
             | Encryption1RTT \<Rightarrow>
                 bindE (PopPacketNumber rnd h Encryption1RTT) (\<lambda>(h, pn).
                 bindE (updHistory h Encryption1RTT (\<lambda>hs. SkippedPacket hs pn)) (\<lambda>h.
                 finish (h\<lparr>ptoMode := SendPTOAppData\<rparr>) (Inr ())))
             | _ \<Rightarrow> finish h (Inl (Err ''PTO timer in unexpected encryption level'')))))"

definition GetLossDetectionTimeout :: "'f sentPacketHandler \<Rightarrow> time" where
  "GetLossDetectionTimeout h = alarm h"

definition ECNMode :: "'f sentPacketHandler \<Rightarrow> bool \<Rightarrow> ('f sentPacketHandler \<times> ECN) result" where
  "ECNMode h isShortHeaderPacket =
     (if \<not> enableECN h then Inr (h, ECNUnsupported)
      else if \<not> isShortHeaderPacket then Inr (h, ECNNon)
      else case ecnHandler h of
             None \<Rightarrow> Inl (Panic ''nil pointer dereference'')
           | Some e \<Rightarrow> let (e, ecn) = Mode e in Inr (h\<lparr>ecnHandler := Some e\<rparr>, ecn))"

definition packetsInFlight :: "'f sentPacketHandler \<Rightarrow> int" where
  "packetsInFlight h =
     history_Len (history (sph_appDataPackets h))
     + (case sph_handshakePackets h of Some s \<Rightarrow> history_Len (history s) | None \<Rightarrow> 0)
     + (case sph_initialPackets h of Some s \<Rightarrow> history_Len (history s) | None \<Rightarrow> 0)"

definition sph_SendMode :: "'f sentPacketHandler \<Rightarrow> time \<Rightarrow> SendMode" where
  "sph_SendMode h now =
     (let numTrackedPackets = history_Len (history (sph_appDataPackets h))
            + (case sph_initialPackets h of Some s \<Rightarrow> history_Len (history s) | None \<Rightarrow> 0)
            + (case sph_handshakePackets h of Some s \<Rightarrow> history_Len (history s) | None \<Rightarrow> 0) in
      if isAmplificationLimited h then SendNone
      else if numTrackedPackets \<ge> MaxTrackedSentPackets then SendNone
      else if numProbesToSend h > 0 then ptoMode h
      else if \<not> CanSend (congestion h) (bytesInFlight h) then SendAck
      else if numTrackedPackets \<ge> MaxOutstandingSentPackets then SendAck
      else if \<not> HasPacingBudget (congestion h) (rttStats h) now then SendPacingLimited
      else SendAny)"

definition sph_TimeUntilSend :: "'f sentPacketHandler \<Rightarrow> time" where
  "sph_TimeUntilSend h = TimeUntilSend (congestion h) (rttStats h)"

definition sph_SetMaxDatagramSize :: "'f sentPacketHandler \<Rightarrow> ByteCount \<Rightarrow> 'f sentPacketHandler result" where
  "sph_SetMaxDatagramSize h s = bindE (SetMaxDatagramSize (congestion h) s) (\<lambda>c. Inr (h\<lparr>congestion := c\<rparr>))"

definition QueueProbePacket :: "'f sentPacketHandler \<Rightarrow> EncryptionLevel \<Rightarrow> ('f sentPacketHandler \<times> bool) result" where
  "QueueProbePacket h encLevel =
     bindE (theSpace h encLevel) (\<lambda>s.
     case FirstOutstanding (history s) of
       None \<Rightarrow> Inr (h, False)
     | Some p \<Rightarrow>
         bindE (queueFramesForRetransmission h p) (\<lambda>h.
         bindE (removeFromBytesInFlight h p) (\<lambda>h.
         bindE (updHistory h encLevel (\<lambda>hs. DeclareLost hs (PacketNumber p))) (\<lambda>h. Inr (h, True)))))"

definition ResetForRetry :: "(int \<Rightarrow> int) \<Rightarrow> 'f sentPacketHandler \<Rightarrow> time \<Rightarrow> 'f sentPacketHandler result" where
  "ResetForRetry rnd h now =
     (let h = h\<lparr>bytesInFlight := 0\<rparr> in
      bindE (theSpace h EncryptionInitial) (\<lambda>ini.
      bindE (Iterate (history ini)
        (\<lambda>p (firstSend, h).
           let firstSend = (if time_IsZero firstSend then SendTime p else firstSend) in
           if declaredLost p \<or> skippedPacket p then Inr ((firstSend, h), True)
           else bindE (queueFramesForRetransmission h p) (\<lambda>h. Inr ((firstSend, h), True))) (0, h)) (\<lambda>(firstSend, h).
      bindE (Iterate (history (sph_appDataPackets h))
        (\<lambda>p h. if \<not> declaredLost p \<and> \<not> skippedPacket p
               then bindE (queueFramesForRetransmission h p) (\<lambda>h. Inr (h, True)) else Inr (h, True)) h) (\<lambda>h.
      let h = (if ptoCount h = 0
               then h\<lparr>rttStats := UpdateRTT (rttStats h) (max minRTTAfterRetry (time_Sub now firstSend)) 0\<rparr> else h)
      in Inr (h\<lparr>sph_initialPackets := Some (newPacketNumberSpace rnd (pns_Peek (pns ini)) False),
                sph_appDataPackets := newPacketNumberSpace rnd (pns_Peek (pns (sph_appDataPackets h))) True,
                alarm := 0, ptoCount := 0\<rparr>)))))"

definition SetHandshakeConfirmed :: "'f sentPacketHandler \<Rightarrow> time \<Rightarrow> 'f sentPacketHandler result" where
  "SetHandshakeConfirmed h now =
     (if sph_initialPackets h \<noteq> None then Inl (Panic ''didn't drop initial correctly'')
      else if sph_handshakePackets h \<noteq> None then Inl (Panic ''didn't drop handshake correctly'')
      else Inr (setLossDetectionTimer (h\<lparr>handshakeConfirmed := True\<rparr>) now))"

definition GetLowestPacketNotConfirmedAcked :: "'f sentPacketHandler \<Rightarrow> PacketNumber" where
  "GetLowestPacketNotConfirmedAcked h = lowestNotConfirmedAcked h"

end
