(* ===== verification/Sent_Handler_Correct.thy ===== *)
theory Sent_Handler_Correct
  imports Sent_Handler
begin

text \<open>
  Correctness of the sent packet handler. The invariant says that the bytes in flight are the sizes of
  the tracked packets, that every packet number space is in step with its packet number generator, and
  that every tracked packet has frames and a send time. Every operation keeps it and none of the panics
  of the handler can fire. An ACK frame removes exactly the acknowledged packets, and loss detection
  exactly those that the packet and the time threshold of RFC 9002 declare lost.
\<close>

subsection \<open>Specification\<close>

text \<open>The bytes in flight of a history, from the packets it tracks.\<close>

definition flightOf :: "'f packet option \<Rightarrow> ByteCount" where
  "flightOf e = (case e of Some p \<Rightarrow> if includedInBytesInFlight p then Length p else 0 | None \<Rightarrow> 0)"

definition inFlight :: "'f sentPacketHistory \<Rightarrow> ByteCount" where
  "inFlight hs = (\<Sum>pn = 0..highestPacketNumber hs. flightOf (lookup hs pn))"

definition packet_ok :: "'f packet \<Rightarrow> bool" where
  "packet_ok p \<longleftrightarrow>
     (if skippedPacket p then \<not> includedInBytesInFlight p \<and> Frames p = [] \<and> StreamFrames p = [] \<and> 0 \<le> SendTime p
      else includedInBytesInFlight p \<and> \<not> declaredLost p \<and> 0 \<le> Length p \<and> (Frames p \<noteq> [] \<or> StreamFrames p \<noteq> []) \<and> 0 < SendTime p)"

text \<open>The generator is at the number after the highest one of the history.\<close>

definition linked :: "'f packetNumberSpace \<Rightarrow> bool" where
  "linked s \<longleftrightarrow> 0 \<le> pns_next (pns s)
     \<and> (highestPacketNumber (history s) = -1 \<or> highestPacketNumber (history s) + 1 = pns_next (pns s))"

definition space_inv :: "'f packetNumberSpace \<Rightarrow> bool" where
  "space_inv s \<longleftrightarrow> sent_inv (history s) \<and> pns_inv (pns s) \<and> linked s \<and> 0 \<le> lossTime s \<and> 0 \<le> lastAckElicitingPacketTime s
     \<and> (\<forall>pn p. lookup (history s) pn = Some p \<longrightarrow> packet_ok p \<and> (\<not> skippedPacket p \<longrightarrow> 0 < lastAckElicitingPacketTime s))"

fun opt_inv :: "'f packetNumberSpace option \<Rightarrow> bool" where
  "opt_inv None = True"
| "opt_inv (Some s) = space_inv s"

fun opt_flight :: "'f packetNumberSpace option \<Rightarrow> ByteCount" where
  "opt_flight None = 0"
| "opt_flight (Some s) = inFlight (history s)"

definition total_flight :: "'f sentPacketHandler \<Rightarrow> ByteCount" where
  "total_flight h = opt_flight (sph_initialPackets h) + opt_flight (sph_handshakePackets h)
     + inFlight (history (sph_appDataPackets h))"

definition spaces_inv :: "'f sentPacketHandler \<Rightarrow> bool" where
  "spaces_inv h \<longleftrightarrow> opt_inv (sph_initialPackets h) \<and> opt_inv (sph_handshakePackets h) \<and> space_inv (sph_appDataPackets h)"

definition handler_inv :: "'f sentPacketHandler \<Rightarrow> bool" where
  "handler_inv h \<longleftrightarrow> spaces_inv h \<and> bytesInFlight h = total_flight h \<and> rtt_inv (rttStats h)"

fun present :: "'f packet option list \<Rightarrow> 'f packet list" where
  "present [] = []"
| "present (None # ps) = present ps"
| "present (Some p # ps) = p # present ps"

text \<open>Losing a tracked packet: it leaves the history and the bytes in flight, its frames are queued.\<close>

definition loses :: "EncryptionLevel \<Rightarrow> 'f packet \<Rightarrow> 'f sentPacketHandler \<Rightarrow> 'f sentPacketHandler \<Rightarrow> bool" where
  "loses l p h h' \<longleftrightarrow> (\<forall>s. theSpace h l = Inr s \<longrightarrow>
     (\<exists>hs c e. h' = setSpace (h\<lparr>bytesInFlight := bytesInFlight h - flightOf (Some p), handlerCalls := handlerCalls h @ lostCalls p,
          congestion := c, ecnHandler := e\<rparr>) l (s\<lparr>history := hs\<rparr>)
        \<and> sent_inv hs \<and> highestPacketNumber hs = highestPacketNumber (history s)
        \<and> lookup hs = (lookup (history s))(PacketNumber p := None)))"

text \<open>Which packets loss detection declares lost, and which it waits for.\<close>

definition lostBy :: "PacketNumber \<Rightarrow> time \<Rightarrow> 'f packet \<Rightarrow> bool" where
  "lostBy largest lostSendTime p \<longleftrightarrow> PacketNumber p \<le> largest \<and> packetLost largest lostSendTime p"

definition pendingBy :: "PacketNumber \<Rightarrow> time \<Rightarrow> 'f packet \<Rightarrow> bool" where
  "pendingBy largest lostSendTime p \<longleftrightarrow> PacketNumber p \<le> largest \<and> \<not> packetLost largest lostSendTime p"

definition lossTimeOf :: "duration \<Rightarrow> 'f packet list \<Rightarrow> time" where
  "lossTimeOf delay ps = (case ps of [] \<Rightarrow> 0 | p # _ \<Rightarrow> SendTime p + delay)"

text \<open>
  The state after a number of packets were declared lost: they are gone from history and bytes in
  flight, their frames were queued in order, and the loss time of the space is set.
\<close>

definition lossResult ::
  "'f sentPacketHandler \<Rightarrow> EncryptionLevel \<Rightarrow> 'f packetNumberSpace \<Rightarrow> 'f packet list \<Rightarrow> time \<Rightarrow> 'f sentPacketHandler \<Rightarrow> bool" where
  "lossResult h l s lost t g \<longleftrightarrow>
     (\<exists>hs c e. g = setSpace (h\<lparr>bytesInFlight := bytesInFlight h - (\<Sum>p\<leftarrow>lost. flightOf (Some p)),
            handlerCalls := handlerCalls h @ concat (map lostCalls lost), congestion := c, ecnHandler := e\<rparr>) l
          (s\<lparr>history := hs, lossTime := t\<rparr>)
        \<and> sent_inv hs \<and> highestPacketNumber hs = highestPacketNumber (history s)
        \<and> lookup hs = (\<lambda>pn. if pn \<in> PacketNumber ` set lost then None else lookup (history s) pn))"

text \<open>The position in the ranges: all ranges below it end before the packet numbers that follow.\<close>

definition scanPos :: "AckRange list \<Rightarrow> nat \<Rightarrow> PacketNumber \<Rightarrow> bool" where
  "scanPos rs i pn \<longleftrightarrow> i < length rs \<and> (\<forall>j < i. Largest (rs ! (length rs - 1 - j)) < pn)"

text \<open>What the scan finds: the acknowledged packets up to the first skipped one.\<close>

definition scanResult :: "AckFrame \<Rightarrow> 'f packet list \<Rightarrow> 'f ackScan \<Rightarrow> bool" where
  "scanResult ack all st \<longleftrightarrow>
     (let hit = filter (\<lambda>p. ackedBy (AckRanges ack) (PacketNumber p)) all in
      fst st = takeWhile (\<lambda>p. \<not> skippedPacket p) hit
      \<and> snd (snd st) = (if list_ex skippedPacket hit then Some (TransportError ProtocolViolation 0) else None))"

text \<open>
  Removing packets from a history: they are gone, and besides them only skipped packets may go.
\<close>

definition removes :: "'f sentPacketHistory \<Rightarrow> 'f packet list \<Rightarrow> 'f sentPacketHistory \<Rightarrow> bool" where
  "removes hs ps hs' \<longleftrightarrow> sent_inv hs' \<and> highestPacketNumber hs' = highestPacketNumber hs
     \<and> (\<forall>p \<in> set ps. lookup hs' (PacketNumber p) = None)
     \<and> (\<forall>q. q \<notin> PacketNumber ` set ps \<longrightarrow> lookup hs' q = lookup hs q
          \<or> (lookup hs' q = None \<and> (\<exists>r. lookup hs q = Some r \<and> skippedPacket r)))"

definition ackedPackets :: "AckFrame \<Rightarrow> 'f packetNumberSpace \<Rightarrow> 'f packet list" where
  "ackedPackets ack s = filter (\<lambda>p. ackedBy (AckRanges ack) (PacketNumber p)) (present (packets (history s)))"

text \<open>The second half of \<open>ReceivedAck\<close>, from the state in which the acknowledged packets were removed.\<close>

definition ackTail ::
  "AckFrame \<Rightarrow> EncryptionLevel \<Rightarrow> time \<Rightarrow> time \<Rightarrow> PacketNumber \<Rightarrow> PacketNumber \<Rightarrow> ByteCount \<Rightarrow> 'f packet list \<Rightarrow> 'f sentPacketHandler
   \<Rightarrow> ('f sentPacketHandler \<times> bool result) result" where
  "ackTail ack l rcvTime now largest m prior acked h =
     (let h = updateRTTOnAck h ack largest acked l rcvTime;
          h = ecnOnAck h ack largest m acked l in
      bindE (theSpace h l) (\<lambda>s.
      let h = setSpace h l (s\<lparr>largestAcked := max (largestAcked s) largest\<rparr>) in
      bindE (detectLostPackets h rcvTime l) (\<lambda>h.
      bindE (finishAcked prior rcvTime acked h False) (\<lambda>(h, acked1RTT).
      let h = (if peerCompletedAddressValidation h then h\<lparr>ptoCount := 0\<rparr> else h);
          h = h\<lparr>numProbesToSend := 0\<rparr>
      in Inr (setLossDetectionTimer h now, Inr acked1RTT)))))"

text \<open>A space after a packet number was drawn that the history does not know yet.\<close>

definition drawn :: "'f packetNumberSpace \<Rightarrow> PacketNumber \<Rightarrow> bool" where
  "drawn s pn \<longleftrightarrow> 0 \<le> pn \<and> pns_next (pns s) = pn + 1 \<and> pns_inv (pns s) \<and> sent_inv (history s)
     \<and> (pn = highestPacketNumber (history s) + 1 \<or> highestPacketNumber (history s) = -1)
     \<and> 0 \<le> lossTime s \<and> 0 \<le> lastAckElicitingPacketTime s
     \<and> (\<forall>q p. lookup (history s) q = Some p \<longrightarrow> packet_ok p \<and> (\<not> skippedPacket p \<longrightarrow> 0 < lastAckElicitingPacketTime s))"

text \<open>Markings that \<open>ECNMode\<close> returns: a path without ECN support has no tracker.\<close>

definition markable :: "'f sentPacketHandler \<Rightarrow> ECN \<Rightarrow> bool" where
  "markable h ecn \<longleftrightarrow> ecn \<in> {ECNNon, ECT0, ECT1} \<or> ecnHandler h = None"

text \<open>Drawing a number and sending a packet under it, as the packer and the connection do.\<close>

definition sendPacket ::
  "(int \<Rightarrow> int) \<Rightarrow> 'f sentPacketHandler \<Rightarrow> time \<Rightarrow> PacketNumber \<Rightarrow> 'f Frame list \<Rightarrow> 'f Frame list \<Rightarrow> EncryptionLevel
   \<Rightarrow> ECN \<Rightarrow> ByteCount \<Rightarrow> bool \<Rightarrow> time \<Rightarrow> 'f sentPacketHandler result" where
  "sendPacket rnd h t largestAck streamFrames frames l ecn size' probe now =
     bindE (PopPacketNumber rnd h l) (\<lambda>(h, pn).
     sph_SentPacket h t pn largestAck streamFrames frames l ecn size' probe now)"

text \<open>
  The peer validates addresses when the handshake space is gone, and always when it is a client.
\<close>

definition addr_inv :: "'f sentPacketHandler \<Rightarrow> bool" where
  "addr_inv h \<longleftrightarrow> (perspective h = PerspectiveServer \<or> sph_handshakePackets h = None \<longrightarrow> peerCompletedAddressValidation h)
     \<and> (handshakeConfirmed h \<longrightarrow> sph_initialPackets h = None \<and> sph_handshakePackets h = None)"

subsection \<open>Iteration over the history\<close>

text \<open>Rule for \<open>Iterate\<close>: an invariant over the packets that are left.\<close>

lemma Iterate_rule:
  assumes "I (packets hs) s"
    and "\<And>p ps s. I (Some p # ps) s \<Longrightarrow> \<exists>s' c. cb p s = Inr (s', c) \<and> (if c then I ps s' else Q s')"
    and "\<And>ps s. I (None # ps) s \<Longrightarrow> I ps s"
    and "\<And>s. I [] s \<Longrightarrow> Q s"
  shows "\<exists>s'. Iterate hs cb s = Inr s' \<and> Q s'"
proof -
  have "I ps s \<Longrightarrow> \<exists>s'. Iterate_loop ps cb s = Inr s' \<and> Q s'" for ps s
  proof (induction ps arbitrary: s)
    case (Cons e ps)
    show ?case
    proof (cases e)
      case None
      with Cons assms(3) show ?thesis by auto
    next
      case (Some p)
      with Cons.prems assms(2) obtain s' c where "cb p s = Inr (s', c)" "if c then I ps s' else Q s'" by blast
      with Some Cons.IH [of s'] show ?thesis by (cases c) auto
    qed
  qed (use assms(4) in auto)
  then show ?thesis using assms(1) by (simp add: Iterate_def)
qed

lemma present_numbered:
  "numbered n ps \<Longrightarrow> sorted_wrt (<) (map PacketNumber (present ps)) \<and> (\<forall>p \<in> set (present ps). n \<le> PacketNumber p)"
  by (induction ps arbitrary: n rule: present.induct) (auto, force+)

lemma set_present: "set (present ps) = {p. Some p \<in> set ps}"
  by (induction ps rule: present.induct) auto

lemma present_sorted:
  assumes "sent_inv hs"
  shows "sorted_wrt (<) (map PacketNumber (present (packets hs)))"
  using assms present_numbered by (cases "packets hs = []") (auto simp: sent_inv_def)

lemma present_lookup:
  assumes "sent_inv hs"
  shows "p \<in> set (present (packets hs)) \<longleftrightarrow> lookup hs (PacketNumber p) = Some p"
  using set_packets_lookup [OF assms, of p] lookup_PacketNumber(1) [OF assms] by (auto simp: set_present)

subsection \<open>Bytes in flight\<close>

lemma lookup_outside: "sent_inv hs \<Longrightarrow> pn < 0 \<or> highestPacketNumber hs < pn \<Longrightarrow> lookup hs pn = None"
  using lookup_PacketNumber [of hs pn] by (cases "lookup hs pn") auto

lemma flightOf_None [simp]: "flightOf None = 0"
  by (simp add: flightOf_def)

lemma inFlight_forget:
  assumes "sent_inv hs" "lookup hs pn = Some p" "highestPacketNumber hs' = highestPacketNumber hs"
    and "flightOf (lookup hs' pn) = 0" "\<And>q. q \<noteq> pn \<Longrightarrow> flightOf (lookup hs' q) = flightOf (lookup hs q)"
  shows "inFlight hs = inFlight hs' + flightOf (Some p)"
proof -
  have r: "pn \<in> {0..highestPacketNumber hs}" using lookup_PacketNumber [OF assms(1,2)] by simp
  have "inFlight hs' = (\<Sum>q \<in> {0..highestPacketNumber hs} - {pn}. flightOf (lookup hs' q)) + flightOf (lookup hs' pn)"
    using r by (simp add: inFlight_def assms(3) sum.remove [of _ pn] add.commute)
  also have "(\<Sum>q \<in> {0..highestPacketNumber hs} - {pn}. flightOf (lookup hs' q))
      = (\<Sum>q \<in> {0..highestPacketNumber hs} - {pn}. flightOf (lookup hs q))"
    using assms(5) by (intro sum.cong) auto
  finally show ?thesis using r by (simp add: inFlight_def sum.remove [of _ pn] assms)
qed

lemma inFlight_nonneg:
  assumes "\<And>pn p. lookup hs pn = Some p \<Longrightarrow> packet_ok p"
  shows "0 \<le> inFlight hs"
  unfolding inFlight_def flightOf_def
  by (rule sum_nonneg) (auto split: option.splits dest!: assms simp: packet_ok_def split: if_splits)

lemma inFlight_append:
  assumes "sent_inv hs" "pn = highestPacketNumber hs + 1 \<or> highestPacketNumber hs = -1" "0 \<le> pn"
    "highestPacketNumber hs' = pn" "lookup hs' = (lookup hs)(pn := e)"
  shows "inFlight hs' = inFlight hs + flightOf e"
proof -
  have "{0..pn} = insert pn {0..pn - 1}" using assms(3) by auto
  then have "inFlight hs' = flightOf e + (\<Sum>q = 0..pn - 1. flightOf (lookup hs q))"
    by (simp add: inFlight_def assms(4,5))
  moreover have "(\<Sum>q = 0..pn - 1. flightOf (lookup hs q)) = inFlight hs"
    using assms(2) lookup_outside [OF assms(1)] by (auto simp: inFlight_def)
  ultimately show ?thesis by simp
qed

subsection \<open>Spaces of the handler\<close>

lemma getPacketNumberSpace_frame [simp]:
  "getPacketNumberSpace (h\<lparr>bytesInFlight := x_bytesInFlight\<rparr>) l = getPacketNumberSpace h l"
  "getPacketNumberSpace (h\<lparr>handlerCalls := x_handlerCalls\<rparr>) l = getPacketNumberSpace h l"
  "getPacketNumberSpace (h\<lparr>congestion := x_congestion\<rparr>) l = getPacketNumberSpace h l"
  "getPacketNumberSpace (h\<lparr>ecnHandler := x_ecnHandler\<rparr>) l = getPacketNumberSpace h l"
  "getPacketNumberSpace (h\<lparr>lowestNotConfirmedAcked := x_lowestNotConfirmedAcked\<rparr>) l = getPacketNumberSpace h l"
  "getPacketNumberSpace (h\<lparr>rttStats := x_rttStats\<rparr>) l = getPacketNumberSpace h l"
  "getPacketNumberSpace (h\<lparr>alarm := x_alarm\<rparr>) l = getPacketNumberSpace h l"
  "getPacketNumberSpace (h\<lparr>ptoCount := x_ptoCount\<rparr>) l = getPacketNumberSpace h l"
  "getPacketNumberSpace (h\<lparr>numProbesToSend := x_numProbesToSend\<rparr>) l = getPacketNumberSpace h l"
  "getPacketNumberSpace (h\<lparr>ptoMode := x_ptoMode\<rparr>) l = getPacketNumberSpace h l"
  "getPacketNumberSpace (h\<lparr>peerCompletedAddressValidation := x_peerCompletedAddressValidation\<rparr>) l = getPacketNumberSpace h l"
  "getPacketNumberSpace (h\<lparr>bytesSent := x_bytesSent\<rparr>) l = getPacketNumberSpace h l"
  "getPacketNumberSpace (h\<lparr>bytesReceived := x_bytesReceived\<rparr>) l = getPacketNumberSpace h l"
  "getPacketNumberSpace (h\<lparr>peerAddressValidated := x_peerAddressValidated\<rparr>) l = getPacketNumberSpace h l"
  "getPacketNumberSpace (h\<lparr>handshakeConfirmed := x_handshakeConfirmed\<rparr>) l = getPacketNumberSpace h l"
  by (simp_all add: getPacketNumberSpace_def split: EncryptionLevel.split)

lemma theSpace_frame [simp]:
  "theSpace (h\<lparr>bytesInFlight := x_bytesInFlight\<rparr>) l = theSpace h l"
  "theSpace (h\<lparr>handlerCalls := x_handlerCalls\<rparr>) l = theSpace h l"
  "theSpace (h\<lparr>congestion := x_congestion\<rparr>) l = theSpace h l"
  "theSpace (h\<lparr>ecnHandler := x_ecnHandler\<rparr>) l = theSpace h l"
  "theSpace (h\<lparr>lowestNotConfirmedAcked := x_lowestNotConfirmedAcked\<rparr>) l = theSpace h l"
  "theSpace (h\<lparr>rttStats := x_rttStats\<rparr>) l = theSpace h l"
  "theSpace (h\<lparr>alarm := x_alarm\<rparr>) l = theSpace h l"
  "theSpace (h\<lparr>ptoCount := x_ptoCount\<rparr>) l = theSpace h l"
  "theSpace (h\<lparr>numProbesToSend := x_numProbesToSend\<rparr>) l = theSpace h l"
  "theSpace (h\<lparr>ptoMode := x_ptoMode\<rparr>) l = theSpace h l"
  "theSpace (h\<lparr>peerCompletedAddressValidation := x_peerCompletedAddressValidation\<rparr>) l = theSpace h l"
  "theSpace (h\<lparr>bytesSent := x_bytesSent\<rparr>) l = theSpace h l"
  "theSpace (h\<lparr>bytesReceived := x_bytesReceived\<rparr>) l = theSpace h l"
  "theSpace (h\<lparr>peerAddressValidated := x_peerAddressValidated\<rparr>) l = theSpace h l"
  "theSpace (h\<lparr>handshakeConfirmed := x_handshakeConfirmed\<rparr>) l = theSpace h l"
  by (simp_all add: theSpace_def)

lemma total_flight_frame [simp]:
  "total_flight (h\<lparr>bytesInFlight := x_bytesInFlight\<rparr>) = total_flight h"
  "total_flight (h\<lparr>handlerCalls := x_handlerCalls\<rparr>) = total_flight h"
  "total_flight (h\<lparr>congestion := x_congestion\<rparr>) = total_flight h"
  "total_flight (h\<lparr>ecnHandler := x_ecnHandler\<rparr>) = total_flight h"
  "total_flight (h\<lparr>lowestNotConfirmedAcked := x_lowestNotConfirmedAcked\<rparr>) = total_flight h"
  "total_flight (h\<lparr>rttStats := x_rttStats\<rparr>) = total_flight h"
  "total_flight (h\<lparr>alarm := x_alarm\<rparr>) = total_flight h"
  "total_flight (h\<lparr>ptoCount := x_ptoCount\<rparr>) = total_flight h"
  "total_flight (h\<lparr>numProbesToSend := x_numProbesToSend\<rparr>) = total_flight h"
  "total_flight (h\<lparr>ptoMode := x_ptoMode\<rparr>) = total_flight h"
  "total_flight (h\<lparr>peerCompletedAddressValidation := x_peerCompletedAddressValidation\<rparr>) = total_flight h"
  "total_flight (h\<lparr>bytesSent := x_bytesSent\<rparr>) = total_flight h"
  "total_flight (h\<lparr>bytesReceived := x_bytesReceived\<rparr>) = total_flight h"
  "total_flight (h\<lparr>peerAddressValidated := x_peerAddressValidated\<rparr>) = total_flight h"
  "total_flight (h\<lparr>handshakeConfirmed := x_handshakeConfirmed\<rparr>) = total_flight h"
  by (simp_all add: total_flight_def)

lemma spaces_inv_frame [simp]:
  "spaces_inv (h\<lparr>bytesInFlight := x_bytesInFlight\<rparr>) = spaces_inv h"
  "spaces_inv (h\<lparr>handlerCalls := x_handlerCalls\<rparr>) = spaces_inv h"
  "spaces_inv (h\<lparr>congestion := x_congestion\<rparr>) = spaces_inv h"
  "spaces_inv (h\<lparr>ecnHandler := x_ecnHandler\<rparr>) = spaces_inv h"
  "spaces_inv (h\<lparr>lowestNotConfirmedAcked := x_lowestNotConfirmedAcked\<rparr>) = spaces_inv h"
  "spaces_inv (h\<lparr>rttStats := x_rttStats\<rparr>) = spaces_inv h"
  "spaces_inv (h\<lparr>alarm := x_alarm\<rparr>) = spaces_inv h"
  "spaces_inv (h\<lparr>ptoCount := x_ptoCount\<rparr>) = spaces_inv h"
  "spaces_inv (h\<lparr>numProbesToSend := x_numProbesToSend\<rparr>) = spaces_inv h"
  "spaces_inv (h\<lparr>ptoMode := x_ptoMode\<rparr>) = spaces_inv h"
  "spaces_inv (h\<lparr>peerCompletedAddressValidation := x_peerCompletedAddressValidation\<rparr>) = spaces_inv h"
  "spaces_inv (h\<lparr>bytesSent := x_bytesSent\<rparr>) = spaces_inv h"
  "spaces_inv (h\<lparr>bytesReceived := x_bytesReceived\<rparr>) = spaces_inv h"
  "spaces_inv (h\<lparr>peerAddressValidated := x_peerAddressValidated\<rparr>) = spaces_inv h"
  "spaces_inv (h\<lparr>handshakeConfirmed := x_handshakeConfirmed\<rparr>) = spaces_inv h"
  by (simp_all add: spaces_inv_def)

lemma setSpace_frame [simp]:
  "bytesInFlight (setSpace h l s) = bytesInFlight h"
  "handlerCalls (setSpace h l s) = handlerCalls h"
  "congestion (setSpace h l s) = congestion h"
  "ecnHandler (setSpace h l s) = ecnHandler h"
  "lowestNotConfirmedAcked (setSpace h l s) = lowestNotConfirmedAcked h"
  "rttStats (setSpace h l s) = rttStats h"
  "alarm (setSpace h l s) = alarm h"
  "ptoCount (setSpace h l s) = ptoCount h"
  "numProbesToSend (setSpace h l s) = numProbesToSend h"
  "ptoMode (setSpace h l s) = ptoMode h"
  "peerCompletedAddressValidation (setSpace h l s) = peerCompletedAddressValidation h"
  "bytesSent (setSpace h l s) = bytesSent h"
  "bytesReceived (setSpace h l s) = bytesReceived h"
  "peerAddressValidated (setSpace h l s) = peerAddressValidated h"
  "handshakeConfirmed (setSpace h l s) = handshakeConfirmed h"
  "perspective (setSpace h l s) = perspective h"
  "enableECN (setSpace h l s) = enableECN h"
  by (simp_all add: setSpace_def split: EncryptionLevel.splits)

lemma theSpace_cases:
  assumes "theSpace h l = Inr s"
  obtains "l = EncryptionInitial" "sph_initialPackets h = Some s"
  | "l = EncryptionHandshake" "sph_handshakePackets h = Some s"
  | "l = Encryption0RTT \<or> l = Encryption1RTT" "sph_appDataPackets h = s"
  using assms by (cases l) (auto simp: theSpace_def getPacketNumberSpace_def resultE split: option.splits)

lemma theSpace_set [simp]: "theSpace h l = Inr s \<Longrightarrow> theSpace (setSpace h l s') l = Inr s'"
  by (erule theSpace_cases) (auto simp: theSpace_def getPacketNumberSpace_def setSpace_def)

lemma total_flight_set:
  "theSpace h l = Inr s \<Longrightarrow> total_flight (setSpace h l s') = total_flight h - inFlight (history s) + inFlight (history s')"
  by (erule theSpace_cases) (auto simp: total_flight_def setSpace_def)

lemma spaces_inv_set: "spaces_inv h \<Longrightarrow> theSpace h l = Inr s \<Longrightarrow> space_inv s' \<Longrightarrow> spaces_inv (setSpace h l s')"
  by (erule theSpace_cases) (auto simp: spaces_inv_def setSpace_def)

lemma spaces_inv_get: "spaces_inv h \<Longrightarrow> theSpace h l = Inr s \<Longrightarrow> space_inv s"
  by (erule theSpace_cases) (auto simp: spaces_inv_def)

lemma setSpace_twice [simp]: "setSpace (setSpace h l s) l s' = setSpace h l s'"
  by (cases l) (simp_all add: setSpace_def)

lemma setSpace_self: "theSpace h l = Inr s \<Longrightarrow> setSpace h l s = h"
  by (erule theSpace_cases) (auto simp: setSpace_def)

lemma setSpace_commute [simp]:
  "(setSpace h l s)\<lparr>bytesInFlight := x_bytesInFlight\<rparr> = setSpace (h\<lparr>bytesInFlight := x_bytesInFlight\<rparr>) l s"
  "(setSpace h l s)\<lparr>handlerCalls := x_handlerCalls\<rparr> = setSpace (h\<lparr>handlerCalls := x_handlerCalls\<rparr>) l s"
  "(setSpace h l s)\<lparr>congestion := x_congestion\<rparr> = setSpace (h\<lparr>congestion := x_congestion\<rparr>) l s"
  "(setSpace h l s)\<lparr>ecnHandler := x_ecnHandler\<rparr> = setSpace (h\<lparr>ecnHandler := x_ecnHandler\<rparr>) l s"
  "(setSpace h l s)\<lparr>lowestNotConfirmedAcked := x_lowestNotConfirmedAcked\<rparr> = setSpace (h\<lparr>lowestNotConfirmedAcked := x_lowestNotConfirmedAcked\<rparr>) l s"
  "(setSpace h l s)\<lparr>rttStats := x_rttStats\<rparr> = setSpace (h\<lparr>rttStats := x_rttStats\<rparr>) l s"
  "(setSpace h l s)\<lparr>alarm := x_alarm\<rparr> = setSpace (h\<lparr>alarm := x_alarm\<rparr>) l s"
  "(setSpace h l s)\<lparr>ptoCount := x_ptoCount\<rparr> = setSpace (h\<lparr>ptoCount := x_ptoCount\<rparr>) l s"
  "(setSpace h l s)\<lparr>numProbesToSend := x_numProbesToSend\<rparr> = setSpace (h\<lparr>numProbesToSend := x_numProbesToSend\<rparr>) l s"
  "(setSpace h l s)\<lparr>ptoMode := x_ptoMode\<rparr> = setSpace (h\<lparr>ptoMode := x_ptoMode\<rparr>) l s"
  "(setSpace h l s)\<lparr>peerCompletedAddressValidation := x_peerCompletedAddressValidation\<rparr> = setSpace (h\<lparr>peerCompletedAddressValidation := x_peerCompletedAddressValidation\<rparr>) l s"
  "(setSpace h l s)\<lparr>bytesSent := x_bytesSent\<rparr> = setSpace (h\<lparr>bytesSent := x_bytesSent\<rparr>) l s"
  "(setSpace h l s)\<lparr>bytesReceived := x_bytesReceived\<rparr> = setSpace (h\<lparr>bytesReceived := x_bytesReceived\<rparr>) l s"
  "(setSpace h l s)\<lparr>peerAddressValidated := x_peerAddressValidated\<rparr> = setSpace (h\<lparr>peerAddressValidated := x_peerAddressValidated\<rparr>) l s"
  "(setSpace h l s)\<lparr>handshakeConfirmed := x_handshakeConfirmed\<rparr> = setSpace (h\<lparr>handshakeConfirmed := x_handshakeConfirmed\<rparr>) l s"
  by (cases l; simp add: setSpace_def)+

lemma opt_flight_nonneg: "opt_inv s \<Longrightarrow> 0 \<le> opt_flight s"
  by (cases s) (auto simp: space_inv_def intro: inFlight_nonneg)

lemma flight_le_total:
  assumes "spaces_inv h" "theSpace h l = Inr s"
  shows "inFlight (history s) \<le> total_flight h"
  using assms(2) by (rule theSpace_cases) (use assms(1) opt_flight_nonneg [of "sph_initialPackets h"]
      opt_flight_nonneg [of "sph_handshakePackets h"] opt_flight_nonneg [of "Some (sph_appDataPackets h)"]
      in \<open>auto simp: total_flight_def spaces_inv_def\<close>)

lemma total_flight_nonneg: "spaces_inv h \<Longrightarrow> 0 \<le> total_flight h"
  using opt_flight_nonneg [of "sph_initialPackets h"] opt_flight_nonneg [of "sph_handshakePackets h"]
    opt_flight_nonneg [of "Some (sph_appDataPackets h)"]
  by (auto simp: total_flight_def spaces_inv_def)

lemma flightOf_le:
  assumes "space_inv s" "lookup (history s) pn = Some p"
  shows "flightOf (Some p) \<le> inFlight (history s)" "0 \<le> flightOf (Some p)"
proof -
  have r: "pn \<in> {0..highestPacketNumber (history s)}"
    using lookup_PacketNumber [of "history s" pn p] assms by (simp add: space_inv_def)
  have ok: "0 \<le> flightOf (lookup (history s) q)" for q
    using assms(1) by (cases "lookup (history s) q") (auto simp: space_inv_def flightOf_def packet_ok_def split: if_splits)
  show "0 \<le> flightOf (Some p)" using ok [of pn] assms(2) by simp
  show "flightOf (Some p) \<le> inFlight (history s)"
    unfolding inFlight_def assms(2) [symmetric] using r ok
    by (intro member_le_sum [where f = "\<lambda>q. flightOf (lookup (history s) q)"]) auto
qed

lemma losePacket_total:
  assumes "spaces_inv h" "theSpace h l = Inr s" "lookup (history s) (PacketNumber p) = Some p"
    "inFlight (history s) \<le> bytesInFlight h"
  shows "\<exists>h'. losePacket l p h = Inr h' \<and> loses l p h h'"
proof -
  have s: "space_inv s" using spaces_inv_get [OF assms(1,2)] .
  then have sp: "sent_inv (history s)" "packet_ok p" using assms(3) by (auto simp: space_inv_def)
  obtain hs where hs: "DeclareLost (history s) (PacketNumber p) = Inr hs" "sent_inv hs"
    "highestPacketNumber hs = highestPacketNumber (history s)" "lookup hs = (lookup (history s))(PacketNumber p := None)"
    using DeclareLost_spec [OF sp(1) assms(3)] by auto
  have le: "flightOf (Some p) \<le> bytesInFlight h" using flightOf_le(1) [OF s assms(3)] assms(4) by simp
  have u: "updHistory h l (\<lambda>hs. DeclareLost hs (PacketNumber p)) = Inr (setSpace h l (s\<lparr>history := hs\<rparr>))"
    using assms(2) hs(1) by (simp add: updHistory_def)
  define h1 where "h1 = h\<lparr>bytesInFlight := bytesInFlight h - flightOf (Some p), handlerCalls := handlerCalls h @ lostCalls p\<rparr>"
  have "\<exists>c e. losePacket l p h = Inr ((setSpace h1 l (s\<lparr>history := hs\<rparr>))\<lparr>congestion := c, ecnHandler := e\<rparr>)"
  proof (cases "skippedPacket p")
    case True
    then have "losePacket l p h = Inr (setSpace h l (s\<lparr>history := hs\<rparr>))" by (simp add: losePacket_def u)
    moreover have "h1 = h" using True sp(2) by (simp add: h1_def flightOf_def packet_ok_def lostCalls_def)
    ultimately show ?thesis by (intro exI [of _ "congestion h"] exI [of _ "ecnHandler h"]) simp
  next
    case False
    with sp(2) have ok: "includedInBytesInFlight p" "\<not> (Frames p = [] \<and> StreamFrames p = [])" by (auto simp: packet_ok_def)
    define g where "g = setSpace h1 l (s\<lparr>history := hs\<rparr>)"
    have r: "bindE (removeFromBytesInFlight (setSpace h l (s\<lparr>history := hs\<rparr>)) p) (\<lambda>h. queueFramesForRetransmission h p) = Inr g"
      using ok le by (auto simp: removeFromBytesInFlight_def queueFramesForRetransmission_def flightOf_def h1_def g_def)
    define g1 where "g1 = (if \<not> IsPathMTUProbePacket p
      then g\<lparr>congestion := OnCongestionEvent (congestion g) (PacketNumber p)\<rparr> else g)"
    obtain c where c: "g1 = g\<lparr>congestion := c\<rparr>"
    proof (cases "IsPathMTUProbePacket p")
      case True
      then show ?thesis by (intro that [of "congestion g"]) (simp add: g1_def)
    next
      case False
      then show ?thesis by (intro that [of "OnCongestionEvent (congestion g) (PacketNumber p)"]) (simp add: g1_def)
    qed
    define g2 where "g2 = (case ecnHandler g1 of
        Some e \<Rightarrow> if l = Encryption1RTT then g1\<lparr>ecnHandler := Some (LostPacket e (PacketNumber p))\<rparr> else g1
      | None \<Rightarrow> g1)"
    obtain e where e: "g2 = g1\<lparr>ecnHandler := e\<rparr>"
    proof (cases "ecnHandler g1")
      case None
      then show ?thesis by (intro that [of None]) (simp add: g2_def)
    next
      case (Some a)
      then show ?thesis
        by (intro that [of "Some (if l = Encryption1RTT then LostPacket a (PacketNumber p) else a)"]) (simp add: g2_def)
    qed
    have "losePacket l p h = Inr g2"
      using False r unfolding g2_def g1_def by (simp add: losePacket_def u bindE_assoc [symmetric] Let_def)
    then show ?thesis unfolding e c g_def by blast
  qed
  then obtain c e where "losePacket l p h = Inr ((setSpace h1 l (s\<lparr>history := hs\<rparr>))\<lparr>congestion := c, ecnHandler := e\<rparr>)"
    by blast
  moreover have "loses l p h ((setSpace h1 l (s\<lparr>history := hs\<rparr>))\<lparr>congestion := c, ecnHandler := e\<rparr>)"
    unfolding loses_def using assms(2) hs(2-4) by (auto simp: h1_def)
  ultimately show ?thesis by blast
qed

lemma space_inv_forget:
  assumes "space_inv s" "sent_inv hs" "highestPacketNumber hs = highestPacketNumber (history s)"
    "\<And>pn p. lookup hs pn = Some p \<Longrightarrow> lookup (history s) pn = Some p" "0 \<le> t"
  shows "space_inv (s\<lparr>history := hs, lossTime := t\<rparr>)"
  using assms by (auto simp: space_inv_def linked_def)

lemma inFlight_forget_list:
  assumes "sent_inv hs0" "highestPacketNumber hs = highestPacketNumber hs0"
    "distinct (map PacketNumber ps)" "\<And>p. p \<in> set ps \<Longrightarrow> lookup hs0 (PacketNumber p) = Some p"
    "\<And>q. flightOf (lookup hs q) = (if q \<in> PacketNumber ` set ps then 0 else flightOf (lookup hs0 q))"
  shows "inFlight hs = inFlight hs0 - (\<Sum>p\<leftarrow>ps. flightOf (Some p))"
proof -
  let ?A = "PacketNumber ` set ps" and ?R = "{0..highestPacketNumber hs0}"
  have sub: "?A \<subseteq> ?R" using lookup_PacketNumber [OF assms(1)] assms(4) by auto
  have "inFlight hs0 = (\<Sum>q \<in> ?R - ?A. flightOf (lookup hs0 q)) + (\<Sum>q \<in> ?A. flightOf (lookup hs0 q))"
    unfolding inFlight_def using sub by (intro sum.subset_diff) auto
  moreover have "(\<Sum>q \<in> ?A. flightOf (lookup hs0 q)) = (\<Sum>p\<leftarrow>ps. flightOf (Some p))"
  proof -
    have "inj_on PacketNumber (set ps)" "distinct ps" using assms(3) by (auto simp: distinct_map)
    then show ?thesis using assms(4)
      by (simp add: sum.reindex sum_list_distinct_conv_sum_set cong: sum.cong)
  qed
  moreover have "inFlight hs = (\<Sum>q \<in> ?R - ?A. flightOf (lookup hs q)) + (\<Sum>q \<in> ?A. flightOf (lookup hs q))"
    unfolding inFlight_def assms(2) using sub by (intro sum.subset_diff) auto
  moreover have "(\<Sum>q \<in> ?A. flightOf (lookup hs q)) = 0" by (simp add: assms(5))
  moreover have "(\<Sum>q \<in> ?R - ?A. flightOf (lookup hs q)) = (\<Sum>q \<in> ?R - ?A. flightOf (lookup hs0 q))"
    by (intro sum.cong) (auto simp: assms(5))
  ultimately show ?thesis by simp
qed

lemma lossResult_inv:
  assumes "lossResult h l s lost t g" "spaces_inv h" "theSpace h l = Inr s" "0 \<le> t"
    "distinct (map PacketNumber lost)" "\<And>p. p \<in> set lost \<Longrightarrow> lookup (history s) (PacketNumber p) = Some p"
  shows "spaces_inv g" "bytesInFlight g - total_flight g = bytesInFlight h - total_flight h"
proof -
  have s: "space_inv s" using assms(2,3) by (rule spaces_inv_get)
  obtain hs c e where g: "g = setSpace (h\<lparr>bytesInFlight := bytesInFlight h - (\<Sum>p\<leftarrow>lost. flightOf (Some p)),
            handlerCalls := handlerCalls h @ concat (map lostCalls lost), congestion := c, ecnHandler := e\<rparr>) l
          (s\<lparr>history := hs, lossTime := t\<rparr>)"
    and hs: "sent_inv hs" "highestPacketNumber hs = highestPacketNumber (history s)"
      "lookup hs = (\<lambda>pn. if pn \<in> PacketNumber ` set lost then None else lookup (history s) pn)"
    using assms(1) unfolding lossResult_def by blast
  have si: "space_inv (s\<lparr>history := hs, lossTime := t\<rparr>)"
    using s hs assms(4) by (intro space_inv_forget) (auto split: if_splits)
  show "spaces_inv g" unfolding g using assms(2,3) si by (intro spaces_inv_set) auto
  have "inFlight hs = inFlight (history s) - (\<Sum>p\<leftarrow>lost. flightOf (Some p))"
    using s hs assms(5,6) by (intro inFlight_forget_list) (auto simp: space_inv_def)
  then show "bytesInFlight g - total_flight g = bytesInFlight h - total_flight h"
    using assms(3) by (simp add: g total_flight_set)
qed

lemma lossResult_theSpace:
  assumes "lossResult h l s lost t g" "theSpace h l = Inr s"
  obtains hs where "theSpace g l = Inr (s\<lparr>history := hs, lossTime := t\<rparr>)"
    "lookup hs = (\<lambda>pn. if pn \<in> PacketNumber ` set lost then None else lookup (history s) pn)"
  using assms unfolding lossResult_def by auto

lemma lossResult_init:
  assumes "sent_inv (history s)"
  shows "lossResult h l s [] t (setSpace h l (s\<lparr>lossTime := t\<rparr>))"
  unfolding lossResult_def using assms
  by (intro exI [of _ "history s"] exI [of _ "congestion h"] exI [of _ "ecnHandler h"]) simp

lemma lossResult_lost:
  assumes d: "lossResult h l s lost t g" and sp: "theSpace h l = Inr s" and lp: "loses l p g g'"
  shows "lossResult h l s (lost @ [p]) t g'"
proof -
  obtain hs c e where g: "g = setSpace (h\<lparr>bytesInFlight := bytesInFlight h - (\<Sum>p\<leftarrow>lost. flightOf (Some p)),
            handlerCalls := handlerCalls h @ concat (map lostCalls lost), congestion := c, ecnHandler := e\<rparr>) l
          (s\<lparr>history := hs, lossTime := t\<rparr>)"
    and hs: "sent_inv hs" "highestPacketNumber hs = highestPacketNumber (history s)"
      "lookup hs = (\<lambda>pn. if pn \<in> PacketNumber ` set lost then None else lookup (history s) pn)"
    using d unfolding lossResult_def by blast
  have "theSpace g l = Inr (s\<lparr>history := hs, lossTime := t\<rparr>)" using sp by (simp add: g)
  then obtain hs' c' e' where g': "g' = setSpace (g\<lparr>bytesInFlight := bytesInFlight g - flightOf (Some p), handlerCalls := handlerCalls g @ lostCalls p,
          congestion := c', ecnHandler := e'\<rparr>) l (s\<lparr>history := hs, lossTime := t, history := hs'\<rparr>)"
    and hs': "sent_inv hs'" "highestPacketNumber hs' = highestPacketNumber hs" "lookup hs' = (lookup hs)(PacketNumber p := None)"
    using lp unfolding loses_def by force
  have s': "s\<lparr>history := hs, lossTime := t, history := hs'\<rparr> = s\<lparr>history := hs', lossTime := t\<rparr>" by simp
  have "g' = setSpace (h\<lparr>bytesInFlight := bytesInFlight h - (\<Sum>p\<leftarrow>lost @ [p]. flightOf (Some p)),
            handlerCalls := handlerCalls h @ concat (map lostCalls (lost @ [p])), congestion := c', ecnHandler := e'\<rparr>) l
          (s\<lparr>history := hs', lossTime := t\<rparr>)"
    unfolding g' s' by (simp add: g algebra_simps)
  moreover have "lookup hs' = (\<lambda>pn. if pn \<in> PacketNumber ` set (lost @ [p]) then None else lookup (history s) pn)"
    by (auto simp: hs' hs)
  moreover have "highestPacketNumber hs' = highestPacketNumber (history s)" by (simp add: hs' hs)
  ultimately show ?thesis unfolding lossResult_def using hs'(1) by blast
qed

lemma lossResult_time:
  assumes "lossResult h l s lost t g" "theSpace h l = Inr s" "theSpace g l = Inr sg"
  shows "lossResult h l s lost t' (setSpace g l (sg\<lparr>lossTime := t'\<rparr>))"
proof -
  obtain hs c e where g: "g = setSpace (h\<lparr>bytesInFlight := bytesInFlight h - (\<Sum>p\<leftarrow>lost. flightOf (Some p)),
            handlerCalls := handlerCalls h @ concat (map lostCalls lost), congestion := c, ecnHandler := e\<rparr>) l
          (s\<lparr>history := hs, lossTime := t\<rparr>)"
    and hs: "sent_inv hs" "highestPacketNumber hs = highestPacketNumber (history s)"
      "lookup hs = (\<lambda>pn. if pn \<in> PacketNumber ` set lost then None else lookup (history s) pn)"
    using assms(1) unfolding lossResult_def by blast
  have "sg = s\<lparr>history := hs, lossTime := t\<rparr>" using assms(2,3) by (simp add: g)
  then have "setSpace g l (sg\<lparr>lossTime := t'\<rparr>) = setSpace (h\<lparr>bytesInFlight := bytesInFlight h - (\<Sum>p\<leftarrow>lost. flightOf (Some p)),
            handlerCalls := handlerCalls h @ concat (map lostCalls lost), congestion := c, ecnHandler := e\<rparr>) l
          (s\<lparr>history := hs, lossTime := t'\<rparr>)"
    by (simp add: g)
  then show ?thesis unfolding lossResult_def using hs by blast
qed

lemma detectLostPackets_result:
  fixes now :: "time" and h :: "'f sentPacketHandler"
  assumes inv: "spaces_inv h" and sp: "theSpace h l = Inr s" and fl: "total_flight h \<le> bytesInFlight h"
  defines "delay \<equiv> lossDelay (rttStats h)"
  defines "lst \<equiv> now - delay"
  defines "all \<equiv> present (packets (history s))"
  shows "\<exists>g. detectLostPackets h now l = Inr g
    \<and> lossResult h l s (filter (lostBy (largestAcked s) lst) all) (lossTimeOf delay (filter (pendingBy (largestAcked s) lst) all)) g"
proof -
  define lost where "lost = (lostBy (largestAcked s) lst :: 'f packet \<Rightarrow> bool)"
  define pend where "pend = (pendingBy (largestAcked s) lst :: 'f packet \<Rightarrow> bool)"
  have si: "space_inv s" using inv sp by (rule spaces_inv_get)
  then have hi: "sent_inv (history s)" by (simp add: space_inv_def)
  have sorted: "sorted_wrt (<) (map PacketNumber all)" unfolding all_def using hi by (rule present_sorted)
  have tracked: "lookup (history s) (PacketNumber p) = Some p" if "p \<in> set all" for p
    using that present_lookup [OF hi] by (simp add: all_def)
  have delay: "0 < delay" by (simp add: delay_def lossDelay_def TimerGranularity_def)
  have time: "0 \<le> SendTime p" if "p \<in> set all" for p
    using si tracked [OF that] by (fastforce simp: space_inv_def packet_ok_def split: if_splits)
  have lt: "0 \<le> lossTimeOf delay (filter pend qs)" "lossTimeOf delay (filter pend qs) = 0 \<longleftrightarrow> filter pend qs = []"
    if "set qs \<subseteq> set all" for qs
    using that delay time by (fastforce simp: lossTimeOf_def split: list.splits dest: filter_eq_ConsD)+
  define I where "I ps g \<longleftrightarrow>
    (\<exists>qs. all = qs @ present ps \<and> lossResult h l s (filter lost qs) (lossTimeOf delay (filter pend qs)) g)" for ps g
  have init: "I (packets (history s)) (setSpace h l (s\<lparr>lossTime := 0\<rparr>))"
    using lossResult_init [OF hi, of h l 0] by (auto simp: I_def all_def lossTimeOf_def intro!: exI [of _ "[]"])
  have step: "\<exists>g' c. detectLost_cb l lst delay p g = Inr (g', c)
      \<and> (if c then I ps g' else lossResult h l s (filter lost all) (lossTimeOf delay (filter pend all)) g')"
    if I: "I (Some p # ps) g" for p ps g
  proof -
    obtain qs where qs: "all = qs @ p # present ps"
      and g: "lossResult h l s (filter lost qs) (lossTimeOf delay (filter pend qs)) g" using I unfolding I_def by auto
    have srt: "sorted_wrt (<) (map PacketNumber (qs @ p # present ps))" using sorted by (simp only: qs)
    then have dist: "distinct (map PacketNumber (qs @ p # present ps))" using strict_sorted_iff by blast
    then have dl: "distinct (map PacketNumber (filter lost qs))" by (simp add: distinct_map_filter)
    have sub: "set qs \<subseteq> set all" by (auto simp: qs)
    have inv_g: "spaces_inv g" "bytesInFlight g - total_flight g = bytesInFlight h - total_flight h"
      using lossResult_inv [OF g inv sp lt(1) [OF sub] dl] tracked sub by auto
    obtain hs where sg: "theSpace g l = Inr (s\<lparr>history := hs, lossTime := lossTimeOf delay (filter pend qs)\<rparr>)"
      and hs: "lookup hs = (\<lambda>pn. if pn \<in> PacketNumber ` set (filter lost qs) then None else lookup (history s) pn)"
      using lossResult_theSpace [OF g sp] .
    consider (stop) "largestAcked s < PacketNumber p" | (lost) "lost p" | (pending) "pend p"
      unfolding lost_def pend_def lostBy_def pendingBy_def by linarith
    then show ?thesis
    proof cases
      case stop
      have "\<not> lost q \<and> \<not> pend q" if "q \<in> set (p # present ps)" for q
        using that srt stop by (auto simp: sorted_wrt_append lost_def pend_def lostBy_def pendingBy_def)
      then have "filter lost all = filter lost qs" "filter pend all = filter pend qs" unfolding qs by simp_all
      with g stop sg show ?thesis by (auto simp: detectLost_cb_def)
    next
      case lost
      have "PacketNumber p \<notin> PacketNumber ` set (filter lost qs)" using dist by auto
      then have l: "lookup hs (PacketNumber p) = Some p" using tracked [of p] by (simp add: hs qs)
      have "inFlight hs \<le> bytesInFlight g" using flight_le_total [OF inv_g(1) sg] inv_g(2) fl by simp
      then obtain g' where g': "losePacket l p g = Inr g'" "loses l p g g'"
        using losePacket_total [OF inv_g(1) sg] l by auto
      have "lossResult h l s (filter lost (qs @ [p])) (lossTimeOf delay (filter pend (qs @ [p]))) g'"
        using lossResult_lost [OF g sp g'(2)] lost by (simp add: lost_def pend_def lostBy_def pendingBy_def)
      then have "I ps g'" unfolding I_def qs by force
      moreover have "detectLost_cb l lst delay p g = Inr (g', True)"
        using lost g'(1) by (simp add: detectLost_cb_def sg lost_def lostBy_def)
      ultimately show ?thesis by (intro exI conjI) (assumption, simp)
    next
      case pending
      then have nl: "\<not> lost p" by (simp add: lost_def pend_def lostBy_def pendingBy_def)
      show ?thesis
      proof (cases "filter pend qs = []")
        case True
        define g' where "g' = setSpace g l (s\<lparr>history := hs, lossTime := SendTime p + delay\<rparr>)"
        have "lossResult h l s (filter lost (qs @ [p])) (lossTimeOf delay (filter pend (qs @ [p]))) g'"
          using lossResult_time [OF g sp sg, of "SendTime p + delay"] True pending nl by (simp add: g'_def lossTimeOf_def)
        then have "I ps g'" unfolding I_def qs by force
        moreover have "detectLost_cb l lst delay p g = Inr (g', True)"
          using pending True by (simp add: detectLost_cb_def sg pend_def pendingBy_def g'_def time_IsZero_def lossTimeOf_def time_Add_def)
        ultimately show ?thesis by (intro exI conjI) (assumption, simp)
      next
        case False
        then have "lossTimeOf delay (filter pend (qs @ [p])) = lossTimeOf delay (filter pend qs)"
          by (auto simp: lossTimeOf_def neq_Nil_conv)
        then have "I ps g" unfolding I_def qs using g nl pending
          by (intro exI [of _ "qs @ [p]"]) (simp del: filter_append add: filter_append [of lost])
        moreover have "detectLost_cb l lst delay p g = Inr (g, True)"
          using pending False lt(2) [OF sub] by (simp add: detectLost_cb_def sg pend_def pendingBy_def time_IsZero_def)
        ultimately show ?thesis by (intro exI conjI) (assumption, simp)
      qed
    qed
  qed
  have "\<exists>g. Iterate (history s) (detectLost_cb l lst delay) (setSpace h l (s\<lparr>lossTime := 0\<rparr>)) = Inr g
      \<and> lossResult h l s (filter lost all) (lossTimeOf delay (filter pend all)) g"
    by (rule Iterate_rule [of I]) (use init step in \<open>auto simp: I_def\<close>)
  then show ?thesis
    by (simp add: detectLostPackets_def sp Let_def lst_def delay_def time_Add_def lost_def pend_def)
qed

subsection \<open>Scanning for acknowledged packets\<close>

lemma valid_mono:
  assumes "validateAckRanges f" "j \<le> i" "i < length (AckRanges f)"
  shows "Smallest (AckRanges f ! i) \<le> Smallest (AckRanges f ! j)" "Largest (AckRanges f ! i) \<le> Largest (AckRanges f ! j)"
proof -
  have "Smallest (AckRanges f ! i) \<le> Smallest (AckRanges f ! j) \<and> Largest (AckRanges f ! i) \<le> Largest (AckRanges f ! j)"
  proof (cases "j = i")
    case False
    then have "Largest (AckRanges f ! i) + 1 < Smallest (AckRanges f ! j)"
      using valid_nth(2) [OF assms(1,3)] assms(2) by simp
    moreover have "Smallest (AckRanges f ! i) \<le> Largest (AckRanges f ! i)" "Smallest (AckRanges f ! j) \<le> Largest (AckRanges f ! j)"
      using valid_nth(1) [OF assms(1)] assms(2,3) by auto
    ultimately show ?thesis by linarith
  qed simp
  then show "Smallest (AckRanges f ! i) \<le> Smallest (AckRanges f ! j)" "Largest (AckRanges f ! i) \<le> Largest (AckRanges f ! j)"
    by simp_all
qed

lemma advanceRange_spec:
  assumes "i < length rs"
  shows "i \<le> advanceRange rs pn i \<and> advanceRange rs pn i < length rs
    \<and> (\<forall>j. i \<le> j \<and> j < advanceRange rs pn i \<longrightarrow> Largest (rs ! (length rs - 1 - j)) < pn)
    \<and> (pn \<le> Largest (rs ! (length rs - 1 - advanceRange rs pn i)) \<or> advanceRange rs pn i = length rs - 1)"
  using assms
proof (induction rs pn i rule: advanceRange.induct)
  case (1 rs pn i)
  show ?case
  proof (cases "pn > Largest (rs ! (length rs - 1 - i)) \<and> i < length rs - 1")
    case True
    then have e: "advanceRange rs pn i = advanceRange rs pn (i + 1)" by (subst advanceRange.simps) simp
    have IH: "i + 1 \<le> advanceRange rs pn (i + 1) \<and> advanceRange rs pn (i + 1) < length rs
      \<and> (\<forall>j. i + 1 \<le> j \<and> j < advanceRange rs pn (i + 1) \<longrightarrow> Largest (rs ! (length rs - 1 - j)) < pn)
      \<and> (pn \<le> Largest (rs ! (length rs - 1 - advanceRange rs pn (i + 1))) \<or> advanceRange rs pn (i + 1) = length rs - 1)"
      using "1.IH" [OF True] True by (metis less_diff_conv)
    have "Largest (rs ! (length rs - 1 - j)) < pn" if "i \<le> j" "j < advanceRange rs pn (i + 1)" for j
      using that IH True by (cases "j = i") auto
    with IH show ?thesis unfolding e by auto
  next
    case False
    then have e: "advanceRange rs pn i = i" by (subst advanceRange.simps) auto
    show ?thesis unfolding e using False "1.prems" by auto
  qed
qed

lemma scanPos_mono: "scanPos rs i pn \<Longrightarrow> pn \<le> pn' \<Longrightarrow> scanPos rs i pn'"
  by (auto simp: scanPos_def intro: less_le_trans)

lemma scan_decides:
  assumes v: "validateAckRanges ack" and pos: "scanPos (AckRanges ack) i pn"
    and r: "pn \<le> Largest (AckRanges ack ! 0)"
  defines "n \<equiv> length (AckRanges ack)"
  defines "i' \<equiv> advanceRange (AckRanges ack) pn i"
  shows "scanPos (AckRanges ack) i' pn" "pn \<le> Largest (AckRanges ack ! (n - 1 - i'))"
    "ackedBy (AckRanges ack) pn \<longleftrightarrow> \<not> pn < Smallest (AckRanges ack ! (n - 1 - i'))"
proof -
  let ?rs = "AckRanges ack"
  have i: "i < n" using pos by (simp add: scanPos_def n_def)
  note a = advanceRange_spec [of i ?rs pn, folded n_def i'_def, OF i]
  have low: "Largest (?rs ! (n - 1 - j)) < pn" if "j < i'" for j
    using that a pos by (cases "j < i") (auto simp: scanPos_def n_def)
  then show sp: "scanPos ?rs i' pn" using a by (auto simp: scanPos_def n_def)
  show le: "pn \<le> Largest (?rs ! (n - 1 - i'))" using a r by auto
  show "ackedBy ?rs pn \<longleftrightarrow> \<not> pn < Smallest (?rs ! (n - 1 - i'))"
  proof
    assume "ackedBy ?rs pn"
    then obtain k where k: "k < n" "Smallest (?rs ! k) \<le> pn" "pn \<le> Largest (?rs ! k)"
      by (auto simp: ackedBy_def in_set_conv_nth n_def)
    have "\<not> n - 1 - k < i'" using low [of "n - 1 - k"] k by auto
    then have "k \<le> n - 1 - i'" using k(1) by linarith
    then have "Smallest (?rs ! (n - 1 - i')) \<le> Smallest (?rs ! k)"
      using i by (intro valid_mono [OF v]) (auto simp: n_def)
    then show "\<not> pn < Smallest (?rs ! (n - 1 - i'))" using k(2) by simp
  next
    assume "\<not> pn < Smallest (?rs ! (n - 1 - i'))"
    then show "ackedBy ?rs pn" unfolding ackedBy_def using le i by (intro bexI [of _ "?rs ! (n - 1 - i')"]) (auto simp: n_def)
  qed
qed

lemma ackedBy_range:
  assumes "validateAckRanges ack" "ackedBy (AckRanges ack) pn"
  shows "Smallest (AckRanges ack ! (length (AckRanges ack) - 1)) \<le> pn" "pn \<le> Largest (AckRanges ack ! 0)"
proof -
  let ?rs = "AckRanges ack" and ?n = "length (AckRanges ack)"
  obtain k where k: "k < ?n" "Smallest (?rs ! k) \<le> pn" "pn \<le> Largest (?rs ! k)"
    using assms(2) by (auto simp: ackedBy_def in_set_conv_nth)
  show "Smallest (?rs ! (?n - 1)) \<le> pn"
  proof -
    have "Smallest (?rs ! (?n - 1)) \<le> Smallest (?rs ! k)" using k(1) by (intro valid_mono [OF assms(1)]) auto
    then show ?thesis using k(2) by simp
  qed
  show "pn \<le> Largest (?rs ! 0)"
    using k valid_mono(2) [OF assms(1), of 0 k] by simp
qed

lemma scanResult_all:
  assumes "\<And>q. q \<in> set all \<Longrightarrow> ackedBy (AckRanges ack) (PacketNumber q) \<Longrightarrow> \<not> skippedPacket q"
  shows "scanResult ack all (filter (\<lambda>p. ackedBy (AckRanges ack) (PacketNumber p)) all, i, None)"
proof -
  let ?hits = "filter (\<lambda>p. ackedBy (AckRanges ack) (PacketNumber p)) all"
  have ns: "\<not> skippedPacket q" if "q \<in> set ?hits" for q using that assms by auto
  then have "takeWhile (\<lambda>p. \<not> skippedPacket p) ?hits = ?hits" unfolding takeWhile_eq_all_conv by blast
  moreover have "\<not> list_ex skippedPacket ?hits" unfolding list_ex_iff using ns by blast
  ultimately show ?thesis by (simp only: scanResult_def Let_def fst_conv snd_conv if_False simp_thms)
qed

lemma detectAcked_step:
  assumes v: "validateAckRanges ack" and pos: "scanPos (AckRanges ack) i (PacketNumber p)"
  defines "lowest \<equiv> Smallest (AckRanges ack ! (length (AckRanges ack) - 1))"
    and "largest \<equiv> Largest (AckRanges ack ! 0)"
  shows "\<exists>i'. scanPos (AckRanges ack) i' (PacketNumber p)
    \<and> detectAcked_cb ack lowest largest p (acked, i, None) =
      (if largest < PacketNumber p then Inr ((acked, i, None), False)
       else if \<not> ackedBy (AckRanges ack) (PacketNumber p) then Inr ((acked, i', None), True)
       else if skippedPacket p then Inr ((acked, i', Some (TransportError ProtocolViolation 0)), False)
       else Inr ((acked @ [p], i', None), True))"
proof -
  let ?rs = "AckRanges ack" and ?pn = "PacketNumber p"
  have lo: "lowest \<le> ?pn" if "ackedBy ?rs ?pn" using ackedBy_range(1) [OF v that] by (simp add: lowest_def)
  show ?thesis
  proof (cases "lowest \<le> ?pn \<and> ?pn \<le> largest")
    case False
    have "length ?rs - 1 < length ?rs" using v by (cases ?rs) (auto simp: validateAckRanges_iff)
    then have "lowest \<le> largest"
      using valid_mono(2) [OF v, of 0 "length ?rs - 1"] valid_nth(1) [OF v, of "length ?rs - 1"]
      by (simp add: lowest_def largest_def)
    with False pos lo show ?thesis by (intro exI [of _ i]) (auto simp: detectAcked_cb_def)
  next
    case True
    show ?thesis
    proof (cases "HasMissingRanges ack")
      case miss: True
      note d = scan_decides [OF v pos, folded largest_def]
      show ?thesis using True miss d lo
        by (intro exI [of _ "advanceRange ?rs ?pn i"]) (auto simp: detectAcked_cb_def Let_def)
    next
      case False
      then have "length ?rs = 1" using v by (cases ?rs) (auto simp: HasMissingRanges_def validateAckRanges_iff)
      then have "ackedBy ?rs ?pn" using True by (auto simp: ackedBy_def length_Suc_conv lowest_def largest_def)
      with True False pos show ?thesis by (intro exI [of _ i]) (auto simp: detectAcked_cb_def)
    qed
  qed
qed

lemma detectAcked_scan:
  assumes v: "validateAckRanges ack" and hi: "sent_inv hs"
  defines "lowest \<equiv> Smallest (AckRanges ack ! (length (AckRanges ack) - 1))"
    and "largest \<equiv> Largest (AckRanges ack ! 0)"
  shows "\<exists>st. Iterate hs (detectAcked_cb ack lowest largest) ([], 0, None) = Inr st
    \<and> scanResult ack (present (packets hs)) st"
proof -
  let ?hit = "\<lambda>p. ackedBy (AckRanges ack) (PacketNumber p)"
  let ?all = "present (packets hs)"
  have sorted: "sorted_wrt (<) (map PacketNumber ?all)" using hi by (rule present_sorted)
  define I where "I ps st \<longleftrightarrow> (\<exists>qs i. ?all = qs @ present ps \<and> st = (filter ?hit qs, i, None)
    \<and> (\<forall>q \<in> set qs. ?hit q \<longrightarrow> \<not> skippedPacket q) \<and> i < length (AckRanges ack)
    \<and> (\<forall>p \<in> set (present ps). scanPos (AckRanges ack) i (PacketNumber p)))" for ps and st :: "'a ackScan"
  have init: "I (packets hs) ([], 0, None)" using v unfolding I_def by (auto simp: scanPos_def validateAckRanges_iff)
  have step: "\<exists>st' c. detectAcked_cb ack lowest largest p st = Inr (st', c) \<and> (if c then I ps st' else scanResult ack ?all st')"
    if I: "I (Some p # ps) st" for p ps st
  proof -
    obtain qs i where qs: "?all = qs @ p # present ps" and st: "st = (filter ?hit qs, i, None)"
      and ok: "\<forall>q \<in> set qs. ?hit q \<longrightarrow> \<not> skippedPacket q" and pos: "scanPos (AckRanges ack) i (PacketNumber p)"
      using I unfolding I_def by auto
    have rest: "PacketNumber p < PacketNumber q" if "q \<in> set (present ps)" for q
      using sorted that unfolding qs by (auto simp: sorted_wrt_append)
    obtain i' where i': "scanPos (AckRanges ack) i' (PacketNumber p)"
      and cb: "detectAcked_cb ack lowest largest p st =
        (if largest < PacketNumber p then Inr ((filter ?hit qs, i, None), False)
         else if \<not> ?hit p then Inr ((filter ?hit qs, i', None), True)
         else if skippedPacket p then Inr ((filter ?hit qs, i', Some (TransportError ProtocolViolation 0)), False)
         else Inr ((filter ?hit qs @ [p], i', None), True))"
      using detectAcked_step [OF v pos, of "filter ?hit qs"] unfolding st lowest_def largest_def by blast
    have pos': "scanPos (AckRanges ack) i' (PacketNumber q)" if "q \<in> set (present ps)" for q
      using scanPos_mono [OF i'] rest [OF that] by simp
    have tw: "takeWhile (\<lambda>p. \<not> skippedPacket p) (filter ?hit qs @ xs) = filter ?hit qs @ takeWhile (\<lambda>p. \<not> skippedPacket p) xs" for xs
      using ok by (intro takeWhile_append2) auto
    consider (stop) "largest < PacketNumber p" | (other) "PacketNumber p \<le> largest" "\<not> ?hit p"
      | (skip) "PacketNumber p \<le> largest" "?hit p" "skippedPacket p" | (hit) "PacketNumber p \<le> largest" "?hit p" "\<not> skippedPacket p"
      by linarith
    then show ?thesis
    proof cases
      case stop
      have "\<not> ?hit q" if "q \<in> set (p # present ps)" for q
        using ackedBy_range(2) [OF v, of "PacketNumber q"] that stop rest [of q] by (auto simp: largest_def)
      then have f: "filter ?hit ?all = filter ?hit qs" and "\<And>q. q \<in> set ?all \<Longrightarrow> ?hit q \<Longrightarrow> \<not> skippedPacket q"
        unfolding qs using ok by auto
      then have "scanResult ack ?all (filter ?hit qs, i, None)" unfolding f [symmetric] by (intro scanResult_all)
      then show ?thesis using stop cb by auto
    next
      case other
      then have "I ps (filter ?hit qs, i', None)" unfolding I_def using qs ok pos' i'
        by (intro exI [of _ "qs @ [p]"]) (auto simp: scanPos_def)
      then show ?thesis using other cb by auto
    next
      case skip
      then have "scanResult ack ?all (filter ?hit qs, i', Some (TransportError ProtocolViolation 0))"
        unfolding scanResult_def qs using tw by (simp add: list_ex_iff)
      then show ?thesis using skip cb by auto
    next
      case hit
      then have "I ps (filter ?hit qs @ [p], i', None)" unfolding I_def using qs ok pos' i'
        by (intro exI [of _ "qs @ [p]"]) (auto simp: scanPos_def)
      then show ?thesis using hit cb by auto
    qed
  qed
  have fin: "scanResult ack ?all st" if "I [] st" for st
    using that unfolding I_def by (auto intro!: scanResult_all)
  show ?thesis by (rule Iterate_rule [of I]) (use init step fin in \<open>auto simp: I_def\<close>)
qed

lemma removes_Nil: "sent_inv hs \<Longrightarrow> removes hs [] hs"
  by (simp add: removes_def)

lemma removes_Cons:
  assumes "Remove hs (PacketNumber p) = Inr hs1" "sent_inv hs" "lookup hs (PacketNumber p) = Some p" "removes hs1 ps hs'"
  shows "removes hs (p # ps) hs'"
proof -
  obtain h' where h': "Remove hs (PacketNumber p) = Inr h'" "highestPacketNumber h' = highestPacketNumber hs"
    "lookup h' (PacketNumber p) = None"
    "\<forall>q. q \<noteq> PacketNumber p \<longrightarrow> lookup h' q = lookup hs q
        \<or> (q < PacketNumber p \<and> lookup h' q = None \<and> (\<exists>r. lookup hs q = Some r \<and> skippedPacket r))"
    using Remove_spec [OF assms(2,3)] by blast
  then have "h' = hs1" using assms(1) by simp
  note h1 = h'(2-4) [unfolded this]
  have n: "lookup hs' (PacketNumber p) = None"
  proof (cases "PacketNumber p \<in> PacketNumber ` set ps")
    case True
    then show ?thesis using assms(4) by (auto simp: removes_def)
  next
    case False
    then show ?thesis using assms(4) h1(2) unfolding removes_def by metis
  qed
  have "lookup hs' q = lookup hs q \<or> (lookup hs' q = None \<and> (\<exists>r. lookup hs q = Some r \<and> skippedPacket r))"
    if "q \<notin> PacketNumber ` set (p # ps)" for q
  proof -
    have q: "q \<noteq> PacketNumber p" "q \<notin> PacketNumber ` set ps" using that by auto
    have "lookup hs' q = lookup hs1 q \<or> (lookup hs' q = None \<and> (\<exists>r. lookup hs1 q = Some r \<and> skippedPacket r))"
      using assms(4) q(2) unfolding removes_def by blast
    moreover have "lookup hs1 q = lookup hs q \<or> (lookup hs1 q = None \<and> (\<exists>r. lookup hs q = Some r \<and> skippedPacket r))"
      using h1(3) q(1) by blast
    ultimately show ?thesis by auto
  qed
  then show ?thesis using assms(4) n h1(1) unfolding removes_def by auto
qed

lemma processAcked_total:
  assumes "theSpace h l = Inr s" "sent_inv (history s)" "distinct (map PacketNumber ps)"
    "\<And>p. p \<in> set ps \<Longrightarrow> lookup (history s) (PacketNumber p) = Some p \<and> \<not> skippedPacket p"
  shows "\<exists>hs low. processAcked l ps h = Inr (setSpace (h\<lparr>lowestNotConfirmedAcked := low,
      handlerCalls := handlerCalls h @ concat (map ackedCalls ps)\<rparr>) l (s\<lparr>history := hs\<rparr>), None)
    \<and> lowestNotConfirmedAcked h \<le> low \<and> removes (history s) ps hs"
  using assms
proof (induction ps arbitrary: h s)
  case Nil
  then show ?case
    by (intro exI [of _ "history s"] exI [of _ "lowestNotConfirmedAcked h"]) (auto simp: removes_Nil setSpace_self)
next
  case (Cons p ps)
  have p: "lookup (history s) (PacketNumber p) = Some p" "\<not> skippedPacket p" using Cons.prems(4) [of p] by simp_all
  obtain hs1 where hs1: "Remove (history s) (PacketNumber p) = Inr hs1" "sent_inv hs1"
    "\<forall>q. q \<noteq> PacketNumber p \<longrightarrow> lookup hs1 q = lookup (history s) q
        \<or> (q < PacketNumber p \<and> lookup hs1 q = None \<and> (\<exists>r. lookup (history s) q = Some r \<and> skippedPacket r))"
    using Remove_spec [OF Cons.prems(2) p(1)] by blast
  define low where "low = (if pkt_LargestAcked p \<noteq> InvalidPacketNumber \<and> l = Encryption1RTT
    then max (lowestNotConfirmedAcked h) (pkt_LargestAcked p + 1) else lowestNotConfirmedAcked h)"
  define h1 where "h1 = setSpace (h\<lparr>lowestNotConfirmedAcked := low, handlerCalls := handlerCalls h @ ackedCalls p\<rparr>) l (s\<lparr>history := hs1\<rparr>)"
  have e: "processAcked l (p # ps) h = processAcked l ps h1"
    using hs1(1) Cons.prems(1) by (auto simp: updHistory_def h1_def low_def Let_def)
  have sp1: "theSpace h1 l = Inr (s\<lparr>history := hs1\<rparr>)" using Cons.prems(1) by (simp add: h1_def)
  have tr: "lookup (history (s\<lparr>history := hs1\<rparr>)) (PacketNumber q) = Some q \<and> \<not> skippedPacket q" if "q \<in> set ps" for q
  proof -
    have "PacketNumber q \<noteq> PacketNumber p" using imageI [OF that, of PacketNumber] Cons.prems(3) by auto
    moreover have "lookup (history s) (PacketNumber q) = Some q" "\<not> skippedPacket q" using Cons.prems(4) [of q] that by simp_all
    ultimately show ?thesis using hs1(3) by fastforce
  qed
  obtain hs low' where r: "processAcked l ps h1 = Inr (setSpace (h1\<lparr>lowestNotConfirmedAcked := low',
      handlerCalls := handlerCalls h1 @ concat (map ackedCalls ps)\<rparr>) l (s\<lparr>history := hs1, history := hs\<rparr>), None)"
    and low': "lowestNotConfirmedAcked h1 \<le> low'" "removes hs1 ps hs"
    using Cons.IH [OF sp1 _ _ tr] hs1(2) Cons.prems(3) by auto
  have "removes (history s) (p # ps) hs" using hs1(1) Cons.prems(2) p(1) low'(2) by (rule removes_Cons)
  moreover have "lowestNotConfirmedAcked h \<le> low'" using low'(1) by (auto simp: h1_def low_def split: if_splits)
  ultimately show ?case unfolding e r by (intro exI [of _ hs] exI [of _ low']) (simp add: h1_def)
qed

lemma ackedPackets_tracked:
  assumes "sent_inv (history s)"
  shows "distinct (map PacketNumber (ackedPackets ack s))"
    "p \<in> set (ackedPackets ack s) \<longleftrightarrow> lookup (history s) (PacketNumber p) = Some p \<and> ackedBy (AckRanges ack) (PacketNumber p)"
proof -
  have "distinct (map PacketNumber (present (packets (history s))))"
    using present_sorted [OF assms] strict_sorted_iff by blast
  then show "distinct (map PacketNumber (ackedPackets ack s))" by (simp add: ackedPackets_def distinct_map_filter)
  show "p \<in> set (ackedPackets ack s) \<longleftrightarrow> lookup (history s) (PacketNumber p) = Some p \<and> ackedBy (AckRanges ack) (PacketNumber p)"
    using present_lookup [OF assms] by (auto simp: ackedPackets_def)
qed

lemma detectAndRemove_total:
  assumes sp: "theSpace h l = Inr s" and hi: "sent_inv (history s)" and v: "validateAckRanges ack"
  defines "hits \<equiv> ackedPackets ack s"
  shows "\<exists>hs low acked. detectAndRemoveAckedPackets h ack l = Inr (setSpace (h\<lparr>lowestNotConfirmedAcked := low,
        handlerCalls := handlerCalls h @ concat (map ackedCalls acked)\<rparr>) l (s\<lparr>history := hs\<rparr>),
        acked, if list_ex skippedPacket hits then Some (TransportError ProtocolViolation 0) else None)
    \<and> lowestNotConfirmedAcked h \<le> low \<and> removes (history s) acked hs
    \<and> acked = takeWhile (\<lambda>p. \<not> skippedPacket p) hits"
proof -
  define acked where "acked = takeWhile (\<lambda>p. \<not> skippedPacket p) hits"
  obtain st where st: "Iterate (history s) (detectAcked_cb ack (Smallest (AckRanges ack ! (length (AckRanges ack) - 1)))
      (Largest (AckRanges ack ! 0))) ([], 0, None) = Inr st" "scanResult ack (present (packets (history s))) st"
    using detectAcked_scan [OF v hi] by blast
  then obtain i where i: "st = (acked, i, if list_ex skippedPacket hits then Some (TransportError ProtocolViolation 0) else None)"
    by (cases st) (auto simp: scanResult_def acked_def hits_def ackedPackets_def Let_def)
  have ne: "AckRanges ack \<noteq> []" using v by (simp add: validateAckRanges_iff)
  have "acked = take (length acked) hits" unfolding acked_def by (rule takeWhile_eq_take)
  then have "map PacketNumber acked = take (length acked) (map PacketNumber hits)" by (metis take_map)
  then have d: "distinct (map PacketNumber acked)"
    using ackedPackets_tracked(1) [OF hi, of ack, folded hits_def] by (metis distinct_take)
  have tr: "lookup (history s) (PacketNumber p) = Some p \<and> \<not> skippedPacket p" if "p \<in> set acked" for p
    using that set_takeWhileD [of p "\<lambda>p. \<not> skippedPacket p" hits] ackedPackets_tracked(2) [OF hi, of p ack]
    by (auto simp: acked_def hits_def)
  obtain hs low where p: "processAcked l acked h = Inr (setSpace (h\<lparr>lowestNotConfirmedAcked := low,
      handlerCalls := handlerCalls h @ concat (map ackedCalls acked)\<rparr>) l (s\<lparr>history := hs\<rparr>), None)"
    "lowestNotConfirmedAcked h \<le> low" "removes (history s) acked hs"
    using processAcked_total [OF sp hi d tr] by blast
  show ?thesis
    using p st(1) by (intro exI [of _ hs] exI [of _ low] exI [of _ acked])
      (simp add: detectAndRemoveAckedPackets_def sp LargestAcked_valid [OF ne] LowestAcked_valid [OF ne] i acked_def)
qed

subsection \<open>Processing an ACK frame\<close>

lemma setLossDetectionTimer_alarm:
  obtains a where "setLossDetectionTimer h now = h\<lparr>alarm := a\<rparr>"
proof -
  have self: "h \<in> range (\<lambda>a. h\<lparr>alarm := a\<rparr>)" by (rule range_eqI [of _ _ "alarm h"]) simp
  have upd: "h\<lparr>alarm := x\<rparr> \<in> range (\<lambda>a. h\<lparr>alarm := a\<rparr>)" for x by blast
  have "setLossDetectionTimer h now \<in> range (\<lambda>a. h\<lparr>alarm := a\<rparr>)"
    unfolding setLossDetectionTimer_def Let_def case_prod_beta by (simp only: self upd split: if_split) simp
  then show ?thesis using that by blast
qed

lemma setLossDetectionTimer_frame [simp]:
  "theSpace (setLossDetectionTimer h now) l = theSpace h l"
  "spaces_inv (setLossDetectionTimer h now) = spaces_inv h"
  "total_flight (setLossDetectionTimer h now) = total_flight h"
  "bytesInFlight (setLossDetectionTimer h now) = bytesInFlight h"
  "rttStats (setLossDetectionTimer h now) = rttStats h"
  "handlerCalls (setLossDetectionTimer h now) = handlerCalls h"
  "bytesSent (setLossDetectionTimer h now) = bytesSent h"
  "bytesReceived (setLossDetectionTimer h now) = bytesReceived h"
  "peerAddressValidated (setLossDetectionTimer h now) = peerAddressValidated h"
  "handler_inv (setLossDetectionTimer h now) = handler_inv h"
  by (rule setLossDetectionTimer_alarm [of h now]; simp add: handler_inv_def)+

lemma updateRTTOnAck_frame:
  assumes "rtt_inv (rttStats h)" "0 \<le> DelayTime ack" "acked \<noteq> []"
  obtains r c where "updateRTTOnAck h ack largest acked l rcvTime = h\<lparr>rttStats := r, congestion := c\<rparr>" "rtt_inv r"
proof (cases "PacketNumber (last acked) = largest")
  case True
  have "0 \<le> (if l = Encryption1RTT then min (DelayTime ack) (rtt_maxAckDelay (rttStats h)) else 0)"
    using assms by (simp add: rtt_inv_def)
  then show ?thesis using True UpdateRTT_inv [OF assms(1)] by (intro that) (auto simp: updateRTTOnAck_def Let_def)
next
  case False
  then show ?thesis using assms(1) by (intro that [where r = "rttStats h" and c = "congestion h"]) (simp_all add: updateRTTOnAck_def)
qed

lemma ecnOnAck_frame:
  obtains e c where "ecnOnAck h ack largest m acked l = h\<lparr>ecnHandler := e, congestion := c\<rparr>"
proof -
  have "\<exists>e c. ecnOnAck h ack largest m acked l = h\<lparr>ecnHandler := e, congestion := c\<rparr>"
  proof (cases "ecnHandler h")
    case None
    then show ?thesis by (intro exI [of _ None] exI [of _ "congestion h"]) (simp add: ecnOnAck_def)
  next
    case (Some a)
    define r where "r = HandleNewlyAcked a acked (int64_of (fECT0 ack)) (int64_of (fECT1 ack)) (int64_of (fECNCE ack))"
    show ?thesis
      by (intro exI [of _ "if l = Encryption1RTT \<and> largest > m then Some (fst r) else Some a"]
          exI [of _ "if l = Encryption1RTT \<and> largest > m \<and> snd r then OnCongestionEvent (congestion h) largest else congestion h"])
        (simp add: ecnOnAck_def Some Let_def flip: r_def split: prod.splits)
  qed
  then show ?thesis using that by blast
qed

lemma flightOf_nonneg: "packet_ok p \<Longrightarrow> 0 \<le> flightOf (Some p)"
  by (auto simp: flightOf_def packet_ok_def split: if_splits)

lemma lossTimeOf_nonneg: "(\<And>p. p \<in> set ps \<Longrightarrow> 0 \<le> SendTime p) \<Longrightarrow> 0 \<le> delay \<Longrightarrow> 0 \<le> lossTimeOf delay ps"
  by (cases ps) (auto simp: lossTimeOf_def)

lemma packet_ok_SendTime: "packet_ok p \<Longrightarrow> 0 \<le> SendTime p"
  by (auto simp: packet_ok_def split: if_splits)

lemma lossDelay_pos: "0 < lossDelay r"
  by (simp add: lossDelay_def TimerGranularity_def)

lemma finishAcked_total:
  assumes "\<And>p. p \<in> set ps \<Longrightarrow> packet_ok p" "(\<Sum>p\<leftarrow>ps. flightOf (Some p)) \<le> bytesInFlight h"
  shows "\<exists>c. finishAcked prior t ps h b =
    Inr (h\<lparr>congestion := c, bytesInFlight := bytesInFlight h - (\<Sum>p\<leftarrow>ps. flightOf (Some p))\<rparr>,
         b \<or> list_ex (\<lambda>p. EncryptionLevel p = Encryption1RTT) ps)"
  using assms
proof (induction ps arbitrary: h b)
  case Nil
  then show ?case by (auto intro: exI [of _ "congestion h"])
next
  case (Cons p ps)
  have "0 \<le> (\<Sum>p\<leftarrow>ps. flightOf (Some p))" using Cons.prems(1) flightOf_nonneg by (intro sum_list_nonneg) auto
  then have le: "flightOf (Some p) \<le> bytesInFlight h" using Cons.prems(2) by simp
  define c where "c = (if includedInBytesInFlight p \<and> \<not> declaredLost p
    then OnPacketAcked (congestion h) (rttStats h) (PacketNumber p) (Length p) prior t else congestion h)"
  define h1 where "h1 = h\<lparr>congestion := c, bytesInFlight := bytesInFlight h - flightOf (Some p)\<rparr>"
  have "finishAcked prior t (p # ps) h b = finishAcked prior t ps h1 (b \<or> EncryptionLevel p = Encryption1RTT)"
    using le by (auto simp: Let_def removeFromBytesInFlight_def flightOf_def h1_def c_def)
  moreover obtain c' where "finishAcked prior t ps h1 (b \<or> EncryptionLevel p = Encryption1RTT)
      = Inr (h1\<lparr>congestion := c', bytesInFlight := bytesInFlight h1 - (\<Sum>p\<leftarrow>ps. flightOf (Some p))\<rparr>,
         (b \<or> EncryptionLevel p = Encryption1RTT) \<or> list_ex (\<lambda>p. EncryptionLevel p = Encryption1RTT) ps)"
    using Cons.IH [of h1 "b \<or> EncryptionLevel p = Encryption1RTT"] Cons.prems by (auto simp: h1_def)
  ultimately show ?case by (intro exI [of _ c']) (simp add: h1_def algebra_simps)
qed

lemma removes_space:
  assumes "space_inv s" "removes (history s) acked hs" "\<And>p. p \<in> set acked \<Longrightarrow> lookup (history s) (PacketNumber p) = Some p"
    "distinct (map PacketNumber acked)"
  shows "space_inv (s\<lparr>history := hs, largestAcked := m\<rparr>)"
    "inFlight hs = inFlight (history s) - (\<Sum>p\<leftarrow>acked. flightOf (Some p))"
proof -
  have sub: "lookup (history s) pn = Some p" if "lookup hs pn = Some p" for pn p
  proof (cases "pn \<in> PacketNumber ` set acked")
    case True
    then show ?thesis using assms(2) that by (auto simp: removes_def)
  next
    case False
    then show ?thesis using assms(2) that by (auto simp: removes_def)
  qed
  have hs: "sent_inv hs" "highestPacketNumber hs = highestPacketNumber (history s)" using assms(2) by (auto simp: removes_def)
  show "space_inv (s\<lparr>history := hs, largestAcked := m\<rparr>)"
    using assms(1) hs sub by (auto simp: space_inv_def linked_def)
  have "flightOf (lookup hs q) = (if q \<in> PacketNumber ` set acked then 0 else flightOf (lookup (history s) q))" for q
  proof (cases "q \<in> PacketNumber ` set acked")
    case True
    then show ?thesis using assms(2) by (auto simp: removes_def)
  next
    case False
    then have "lookup hs q = lookup (history s) q \<or> (lookup hs q = None \<and> (\<exists>r. lookup (history s) q = Some r \<and> skippedPacket r))"
      using assms(2) unfolding removes_def by blast
    then show ?thesis using False assms(1) by (auto simp: space_inv_def flightOf_def packet_ok_def)
  qed
  then show "inFlight hs = inFlight (history s) - (\<Sum>p\<leftarrow>acked. flightOf (Some p))"
    using assms(1,3,4) hs by (intro inFlight_forget_list) (auto simp: space_inv_def)
qed

lemma space_inv_largestAcked: "space_inv (s\<lparr>largestAcked := m\<rparr>) = space_inv s"
  by (simp add: space_inv_def linked_def)

lemma ackTail_ok:
  assumes inv: "spaces_inv h" "rtt_inv (rttStats h)" and sp: "theSpace h l = Inr s" and d: "0 \<le> DelayTime ack"
    and fl: "bytesInFlight h = total_flight h + (\<Sum>p\<leftarrow>acked. flightOf (Some p))"
    and ok: "\<And>p. p \<in> set acked \<Longrightarrow> packet_ok p" and ne: "acked \<noteq> []"
  shows "\<exists>h' s' lost. ackTail ack l rcvTime now largest m prior acked h = Inr (h', Inr (list_ex (\<lambda>p. EncryptionLevel p = Encryption1RTT) acked))
    \<and> handler_inv h' \<and> theSpace h' l = Inr s'
    \<and> lost = filter (lostBy (max (largestAcked s) largest) (rcvTime - lossDelay (rttStats h'))) (present (packets (history s)))
    \<and> lookup (history s') = (\<lambda>pn. if pn \<in> PacketNumber ` set lost then None else lookup (history s) pn)
    \<and> handlerCalls h' = handlerCalls h @ concat (map lostCalls lost)"
proof -
  obtain r c where u: "updateRTTOnAck h ack largest acked l rcvTime = h\<lparr>rttStats := r, congestion := c\<rparr>" "rtt_inv r"
    using updateRTTOnAck_frame [OF inv(2) d ne] .
  obtain e c' where ec: "ecnOnAck (h\<lparr>rttStats := r, congestion := c\<rparr>) ack largest m acked l = h\<lparr>rttStats := r, congestion := c, ecnHandler := e, congestion := c'\<rparr>"
    by (rule ecnOnAck_frame)
  define s3 where "s3 = s\<lparr>largestAcked := max (largestAcked s) largest\<rparr>"
  define h3 where "h3 = setSpace (h\<lparr>rttStats := r, ecnHandler := e, congestion := c'\<rparr>) l s3"
  have s3: "space_inv s3" using spaces_inv_get [OF inv(1) sp] by (simp add: s3_def space_inv_largestAcked)
  have inv3: "spaces_inv h3" unfolding h3_def using inv(1) sp s3 by (intro spaces_inv_set) auto
  have sp3: "theSpace h3 l = Inr s3" using sp by (simp add: h3_def)
  have fl3: "total_flight h3 = total_flight h" "bytesInFlight h3 = bytesInFlight h"
    using sp by (simp_all add: h3_def total_flight_set s3_def)
  have nn: "0 \<le> (\<Sum>p\<leftarrow>acked. flightOf (Some p))"
    using ok flightOf_nonneg by (intro sum_list_nonneg) auto
  define lst where "lst = rcvTime - lossDelay r"
  define lost where "lost = filter (lostBy (max (largestAcked s) largest) lst) (present (packets (history s)))"
  obtain t g where g: "detectLostPackets h3 rcvTime l = Inr g" "lossResult h3 l s3 lost t g" "0 \<le> t"
  proof -
    have r3: "rttStats h3 = r" by (simp add: h3_def)
    have h3: "history s3 = history s" "largestAcked s3 = max (largestAcked s) largest" by (simp_all add: s3_def)
    have pos: "0 \<le> lossTimeOf (lossDelay r) (filter (pendingBy (max (largestAcked s) largest) lst) (present (packets (history s))))"
    proof (rule lossTimeOf_nonneg)
      fix p assume "p \<in> set (filter (pendingBy (max (largestAcked s) largest) lst) (present (packets (history s))))"
      then have "lookup (history s) (PacketNumber p) = Some p"
        using present_lookup [of "history s3" p] s3 by (auto simp: h3 space_inv_def)
      then show "0 \<le> SendTime p" using s3 by (auto simp: space_inv_def h3 intro: packet_ok_SendTime)
    qed (use lossDelay_pos [of r] in simp)
    show ?thesis using detectLostPackets_result [OF inv3 sp3, of rcvTime] fl fl3 nn pos that
      unfolding r3 h3 lost_def lst_def by auto
  qed
  have tracked: "lookup (history s3) (PacketNumber p) = Some p" if "p \<in> set lost" for p
    using that present_lookup [of "history s3" p] s3 by (auto simp: lost_def s3_def space_inv_def)
  have dl: "distinct (map PacketNumber lost)"
    using present_sorted [of "history s3"] s3 strict_sorted_iff [of "map PacketNumber (present (packets (history s)))"]
    by (auto simp: lost_def s3_def space_inv_def distinct_map_filter)
  note inv_g = lossResult_inv [OF g(2) inv3 sp3 g(3) dl tracked]
  have hist3: "history s3 = history s" by (simp add: s3_def)
  obtain hs where hs: "theSpace g l = Inr (s3\<lparr>history := hs, lossTime := t\<rparr>)"
    "lookup hs = (\<lambda>pn. if pn \<in> PacketNumber ` set lost then None else lookup (history s) pn)"
    using lossResult_theSpace [OF g(2) sp3, unfolded hist3] .
  have fr: "rttStats g = r" "handlerCalls g = handlerCalls h @ concat (map lostCalls lost)"
    using g(2) unfolding lossResult_def by (elim exE conjE; simp add: h3_def)+
  have "(\<Sum>p\<leftarrow>acked. flightOf (Some p)) \<le> bytesInFlight g"
    using inv_g(2) total_flight_nonneg [OF inv_g(1)] fl fl3 by linarith
  then obtain c'' where f: "finishAcked prior rcvTime acked g False =
      Inr (g\<lparr>congestion := c'', bytesInFlight := bytesInFlight g - (\<Sum>p\<leftarrow>acked. flightOf (Some p))\<rparr>,
           False \<or> list_ex (\<lambda>p. EncryptionLevel p = Encryption1RTT) acked)"
    using finishAcked_total [of acked g prior rcvTime False] ok by blast
  define h4 where "h4 = (let h = g\<lparr>congestion := c'', bytesInFlight := bytesInFlight g - (\<Sum>p\<leftarrow>acked. flightOf (Some p))\<rparr>;
    h = (if peerCompletedAddressValidation h then h\<lparr>ptoCount := 0\<rparr> else h) in h\<lparr>numProbesToSend := 0\<rparr>)"
  have "ackTail ack l rcvTime now largest m prior acked h
      = Inr (setLossDetectionTimer h4 now, Inr (list_ex (\<lambda>p. EncryptionLevel p = Encryption1RTT) acked))"
    using sp g(1) f by (simp add: ackTail_def u ec h3_def s3_def h4_def Let_def)
  moreover have "handler_inv h4" "theSpace h4 l = theSpace g l" "rttStats h4 = r" "handlerCalls h4 = handlerCalls g"
    using inv_g fl fl3 u(2) fr by (auto simp: h4_def Let_def handler_inv_def)
  ultimately show ?thesis using hs fr unfolding lost_def lst_def
    by (intro exI [of _ "setLossDetectionTimer h4 now"]) auto
qed

lemma ReceivedAck_ok:
  assumes inv: "handler_inv h" and sp: "theSpace h l = Inr s" and v: "validateAckRanges ack" and d: "0 \<le> DelayTime ack"
    and la: "Largest (AckRanges ack ! 0) \<le> largestSent s" and ns: "\<not> list_ex skippedPacket (ackedPackets ack s)"
    and ne: "ackedPackets ack s \<noteq> []"
  defines "acked \<equiv> ackedPackets ack s"
  shows "\<exists>h' s' hs lost. ReceivedAck h ack l rcvTime now = Inr (h', Inr (list_ex (\<lambda>p. EncryptionLevel p = Encryption1RTT) acked))
    \<and> handler_inv h' \<and> theSpace h' l = Inr s' \<and> removes (history s) acked hs
    \<and> lost = filter (lostBy (max (largestAcked s) (Largest (AckRanges ack ! 0))) (rcvTime - lossDelay (rttStats h'))) (present (packets hs))
    \<and> lookup (history s') = (\<lambda>pn. if pn \<in> PacketNumber ` set lost then None else lookup hs pn)
    \<and> handlerCalls h' = handlerCalls h @ concat (map ackedCalls acked) @ concat (map lostCalls lost)"
proof -
  let ?largest = "Largest (AckRanges ack ! 0)"
  have nr: "AckRanges ack \<noteq> []" using v by (simp add: validateAckRanges_iff)
  have si: "space_inv s" using inv sp by (auto simp: handler_inv_def intro: spaces_inv_get)
  then have hi: "sent_inv (history s)" by (simp add: space_inv_def)
  obtain h0 where h0: "h0 = (if perspective h = PerspectiveClient \<and> \<not> peerCompletedAddressValidation h
                  \<and> (l = EncryptionHandshake \<or> l = Encryption1RTT)
                then setLossDetectionTimer (h\<lparr>peerCompletedAddressValidation := True\<rparr>) now else h)" by simp
  have inv0: "handler_inv h0" "theSpace h0 l = Inr s" "handlerCalls h0 = handlerCalls h"
    using inv sp by (auto simp: h0 handler_inv_def)
  note tr = ackedPackets_tracked [OF hi, where ack = ack, folded acked_def]
  obtain hs low where h1: "detectAndRemoveAckedPackets h0 ack l = Inr (setSpace (h0\<lparr>lowestNotConfirmedAcked := low,
        handlerCalls := handlerCalls h @ concat (map ackedCalls acked)\<rparr>) l (s\<lparr>history := hs\<rparr>), acked, None)"
      "removes (history s) acked hs"
  proof -
    have tw: "takeWhile (\<lambda>p. \<not> skippedPacket p) acked = acked"
      using ns by (auto simp: acked_def takeWhile_eq_all_conv list_ex_iff)
    obtain hs low where r: "detectAndRemoveAckedPackets h0 ack l = Inr (setSpace (h0\<lparr>lowestNotConfirmedAcked := low,
        handlerCalls := handlerCalls h0 @ concat (map ackedCalls (takeWhile (\<lambda>p. \<not> skippedPacket p) acked))\<rparr>) l (s\<lparr>history := hs\<rparr>),
        takeWhile (\<lambda>p. \<not> skippedPacket p) acked, None)" "removes (history s) (takeWhile (\<lambda>p. \<not> skippedPacket p) acked) hs"
      using detectAndRemove_total [OF inv0(2) hi v] ns unfolding acked_def by auto
    show ?thesis by (rule that [of low hs]) (use r tw inv0(3) in simp_all)
  qed
  define h1' where "h1' = setSpace (h0\<lparr>lowestNotConfirmedAcked := low,
        handlerCalls := handlerCalls h @ concat (map ackedCalls acked)\<rparr>) l (s\<lparr>history := hs\<rparr>)"
  have "s\<lparr>history := hs, largestAcked := largestAcked s\<rparr> = s\<lparr>history := hs\<rparr>" by simp
  then have s1: "space_inv (s\<lparr>history := hs\<rparr>)" "inFlight hs = inFlight (history s) - (\<Sum>p\<leftarrow>acked. flightOf (Some p))"
    using removes_space(1) [OF si h1(2) _ tr(1), of "largestAcked s"] removes_space(2) [OF si h1(2) _ tr(1)] tr(2)
    by auto
  have inv1: "spaces_inv h1'" unfolding h1'_def using inv0 s1(1) by (intro spaces_inv_set) (auto simp: handler_inv_def)
  have sp1: "theSpace h1' l = Inr (s\<lparr>history := hs\<rparr>)" using inv0(2) by (simp add: h1'_def)
  have rt1: "rtt_inv (rttStats h1')" using inv0(1) by (simp add: h1'_def handler_inv_def)
  have fl1: "bytesInFlight h1' = total_flight h1' + (\<Sum>p\<leftarrow>acked. flightOf (Some p))"
    using inv0(1,2) s1(2) by (simp add: h1'_def handler_inv_def total_flight_set)
  have ok: "packet_ok p" if "p \<in> set acked" for p using that tr(2) si by (auto simp: space_inv_def)
  have eq: "ReceivedAck h ack l rcvTime now = ackTail ack l rcvTime now ?largest (largestAcked s) (bytesInFlight h0) acked h1'"
    using la h1(1) ne by (simp add: ReceivedAck_def sp LargestAcked_valid [OF nr] ackTail_def acked_def h1'_def flip: h0)
  have c1: "handlerCalls h1' = handlerCalls h @ concat (map ackedCalls acked)"
    "history (s\<lparr>history := hs\<rparr>) = hs" "largestAcked (s\<lparr>history := hs\<rparr>) = largestAcked s" by (simp_all add: h1'_def)
  have "acked \<noteq> []" using ne by (simp add: acked_def)
  note tail = ackTail_ok [OF inv1 rt1 sp1 d fl1 ok this, where rcvTime = rcvTime and now = now and largest = ?largest
      and m = "largestAcked s" and prior = "bytesInFlight h0", unfolded c1 append_assoc]
  show ?thesis unfolding eq using tail h1(2) by blast
qed

subsection \<open>Packet numbers and sending\<close>

lemma skipped_ok: "packet_ok (getPacket\<lparr>PacketNumber := pn, skippedPacket := True\<rparr>)"
  by (simp add: packet_ok_def getPacket_def)

lemma PopPacketNumber_drawn:
  assumes inv: "spaces_inv h" and sp: "theSpace h l = Inr s" and r: "fairRnd rnd"
  shows "\<exists>s'. PopPacketNumber rnd h l = Inr (setSpace h l s', pns_Peek (pns s)) \<and> drawn s' (pns_Peek (pns s))
    \<and> inFlight (history s') = inFlight (history s)"
proof -
  have si: "space_inv s" using inv sp by (rule spaces_inv_get)
  obtain g' sk pn where p: "pns_Pop rnd (pns s) = (g', sk, pn)" by (cases "pns_Pop rnd (pns s)")
  have g: "pns_inv g'" "pn = pns_Peek (pns s)" "pn = pns_next (pns s) + (if sk then 1 else 0)" "pns_next g' = pn + 1"
    using pnsgen.pop_step [OF r _ p] si by (auto simp: space_inv_def)
  show ?thesis
  proof (cases sk)
    case True
    let ?q = "pns_next (pns s)"
    have q: "?q = highestPacketNumber (history s) + 1 \<or> highestPacketNumber (history s) = -1" "0 \<le> ?q"
      using si by (auto simp: space_inv_def linked_def)
    obtain hs where hs: "SkippedPacket (history s) ?q = Inr hs" "sent_inv hs" "highestPacketNumber hs = ?q"
        "lookup hs = (lookup (history s))(?q \<mapsto> getPacket\<lparr>PacketNumber := ?q, skippedPacket := True\<rparr>)"
      using Sent_ops_spec(1) [OF _ q] si by (auto simp: space_inv_def)
    define s' where "s' = s\<lparr>pns := g', history := hs\<rparr>"
    have "PopPacketNumber rnd h l = Inr (setSpace h l s', pn)"
      using sp p g(3) True hs(1) by (simp add: PopPacketNumber_def s'_def)
    moreover have "drawn s' pn" using si g True hs q skipped_ok by (auto simp: drawn_def s'_def space_inv_def getPacket_def)
    moreover have "inFlight hs = inFlight (history s)"
      using inFlight_append [OF _ q hs(3,4)] si by (simp add: space_inv_def flightOf_def getPacket_def)
    ultimately show ?thesis using g(2) by (auto simp: s'_def)
  next
    case False
    have "PopPacketNumber rnd h l = Inr (setSpace h l (s\<lparr>pns := g'\<rparr>), pn)"
      using sp p False by (simp add: PopPacketNumber_def)
    moreover have "drawn (s\<lparr>pns := g'\<rparr>) pn" using si g False by (auto simp: drawn_def space_inv_def linked_def)
    ultimately show ?thesis using g(2) by auto
  qed
qed

text \<open>Recording the drawn number, as a packet or as a skipped number, restores the invariant.\<close>

lemma drawn_SentAckEliciting:
  assumes "drawn s pn" "PacketNumber p = pn" "packet_ok p" "\<not> skippedPacket p \<longrightarrow> 0 < lastAckElicitingPacketTime s"
  shows "\<exists>hs. SentAckElicitingPacket (history s) p = Inr hs \<and> space_inv (s\<lparr>history := hs\<rparr>)
    \<and> inFlight hs = inFlight (history s) + flightOf (Some p) \<and> (outstanding p \<longrightarrow> HasOutstandingPackets hs)"
proof -
  have d: "sent_inv (history s)" "pn = highestPacketNumber (history s) + 1 \<or> highestPacketNumber (history s) = -1" "0 \<le> pn"
    using assms(1) by (auto simp: drawn_def)
  obtain hs where hs: "SentAckElicitingPacket (history s) p = Inr hs" "sent_inv hs" "highestPacketNumber hs = pn"
    "lookup hs = (lookup (history s))(pn \<mapsto> p)"
    using Sent_ops_spec(3) [OF d assms(2)] by auto
  moreover have "space_inv (s\<lparr>history := hs\<rparr>)"
    using assms hs by (auto simp: space_inv_def linked_def drawn_def)
  moreover have "outstanding p \<longrightarrow> HasOutstandingPackets hs" using HasOutstandingPackets_iff [OF hs(2)] hs(4) by (metis fun_upd_same)
  ultimately show ?thesis using inFlight_append [OF d, of hs "Some p"] by auto
qed

lemma drawn_SentNonAckEliciting:
  assumes "drawn s pn"
  shows "\<exists>hs. SentNonAckElicitingPacket (history s) pn = Inr hs \<and> space_inv (s\<lparr>history := hs\<rparr>)
    \<and> inFlight hs = inFlight (history s)"
proof -
  have d: "sent_inv (history s)" "pn = highestPacketNumber (history s) + 1 \<or> highestPacketNumber (history s) = -1" "0 \<le> pn"
    using assms(1) by (auto simp: drawn_def)
  obtain hs where hs: "SentNonAckElicitingPacket (history s) pn = Inr hs" "sent_inv hs" "highestPacketNumber hs = pn"
    "lookup hs = lookup (history s)"
    using Sent_ops_spec(2) [OF d] by auto
  moreover have "space_inv (s\<lparr>history := hs\<rparr>)"
    using assms hs by (auto simp: space_inv_def linked_def drawn_def)
  moreover have "lookup hs = (lookup (history s))(pn := None)"
    using hs(4) lookup_outside [OF d(1), of pn] d(2,3) by (auto simp: fun_eq_iff)
  ultimately show ?thesis using inFlight_append [OF d, of hs None] by auto
qed

lemma drawn_Skipped:
  assumes "drawn s pn"
  shows "\<exists>hs. SkippedPacket (history s) pn = Inr hs \<and> space_inv (s\<lparr>history := hs\<rparr>)
    \<and> inFlight hs = inFlight (history s)"
proof -
  have d: "sent_inv (history s)" "pn = highestPacketNumber (history s) + 1 \<or> highestPacketNumber (history s) = -1" "0 \<le> pn"
    using assms(1) by (auto simp: drawn_def)
  obtain hs where hs: "SkippedPacket (history s) pn = Inr hs" "sent_inv hs" "highestPacketNumber hs = pn"
    "lookup hs = (lookup (history s))(pn \<mapsto> getPacket\<lparr>PacketNumber := pn, skippedPacket := True\<rparr>)"
    using Sent_ops_spec(1) [OF d] by auto
  moreover have "space_inv (s\<lparr>history := hs\<rparr>)"
    using assms hs skipped_ok by (auto simp: space_inv_def linked_def drawn_def getPacket_def)
  ultimately show ?thesis using inFlight_append [OF d, of hs "Some (getPacket\<lparr>PacketNumber := pn, skippedPacket := True\<rparr>)"]
    by (auto simp: flightOf_def getPacket_def)
qed

lemma ecn_SentPacket_total: "ecn \<in> {ECNNon, ECT0, ECT1} \<Longrightarrow> \<exists>e'. ecn_SentPacket e pn ecn = Inr e'"
  by (auto simp: ecn_SentPacket_def)

text \<open>The first half of \<open>SentPacket\<close>, up to the update of the history.\<close>

lemma sph_SentPacket_form:
  fixes h :: "'f sentPacketHandler" and sf fr :: "'f Frame list" and pn la :: PacketNumber and t :: "time"
    and size' :: ByteCount and probe :: bool
  assumes sp: "theSpace h l = Inr s" and ecn: "markable h ecn"
  defines "elic \<equiv> sf \<noteq> [] \<or> fr \<noteq> []"
  defines "s2 \<equiv> (if elic then s\<lparr>largestSent := pn, lastAckElicitingPacketTime := t\<rparr> else s\<lparr>largestSent := pn\<rparr>)"
  defines "p \<equiv> getPacket\<lparr>SendTime := t, PacketNumber := pn, EncryptionLevel := l, Length := size',
    pkt_LargestAcked := la, StreamFrames := sf, Frames := fr, IsPathMTUProbePacket := probe, includedInBytesInFlight := True\<rparr>"
  obtains n c e g where "g = setSpace (h\<lparr>bytesSent := bytesSent h + size', bytesInFlight := bytesInFlight h + (if elic then size' else 0),
        numProbesToSend := n, congestion := c, ecnHandler := e\<rparr>) l s2"
    "sph_SentPacket h t pn la sf fr l ecn size' probe now =
       (if \<not> elic then bindE (updHistory g l (\<lambda>hs. SentNonAckElicitingPacket hs pn)) (\<lambda>h.
          Inr (if \<not> peerCompletedAddressValidation h then setLossDetectionTimer h now else h))
        else bindE (updHistory g l (\<lambda>hs. SentAckElicitingPacket hs p)) (\<lambda>h. Inr (setLossDetectionTimer h now)))"
proof -
  define n where "n = (if elic \<and> numProbesToSend h > 0 then numProbesToSend h - 1 else numProbesToSend h)"
  define c where "c = OnPacketSent (congestion h) (rttStats h) t pn size' elic"
  define h1 where "h1 = setSpace (h\<lparr>bytesSent := bytesSent h + size', bytesInFlight := bytesInFlight h + (if elic then size' else 0),
        numProbesToSend := n, congestion := c\<rparr>) l s2"
  have len: "(0 < length sf \<or> 0 < length fr) = elic" by (simp add: elic_def)
  obtain e where e: "(case ecnHandler h1 of
               Some e \<Rightarrow> if l = Encryption1RTT
                 then bindE (ecn_SentPacket e pn ecn) (\<lambda>e. Inr (h1\<lparr>ecnHandler := Some e\<rparr>)) else Inr h1
             | None \<Rightarrow> Inr h1) = Inr (h1\<lparr>ecnHandler := e\<rparr>)"
  proof (cases "ecnHandler h1")
    case None
    then show ?thesis by (intro that [of None]) simp
  next
    case (Some a)
    then have "ecn \<in> {ECNNon, ECT0, ECT1}" using ecn by (auto simp: h1_def markable_def)
    then obtain a' where "ecn_SentPacket a pn ecn = Inr a'" using ecn_SentPacket_total by blast
    with Some show ?thesis by (intro that [of "Some (if l = Encryption1RTT then a' else a)"]) (simp del: setSpace_commute)
  qed
  define g where "g = h1\<lparr>ecnHandler := e\<rparr>"
  have "sph_SentPacket h t pn la sf fr l ecn size' probe now = 
       (if \<not> elic then bindE (updHistory g l (\<lambda>hs. SentNonAckElicitingPacket hs pn)) (\<lambda>h.
          Inr (if \<not> peerCompletedAddressValidation h then setLossDetectionTimer h now else h))
        else bindE (updHistory g l (\<lambda>hs. SentAckElicitingPacket hs p)) (\<lambda>h. Inr (setLossDetectionTimer h now)))"
  proof (cases elic)
    case True
    have "sph_SentPacket h t pn la sf fr l ecn size' probe now =
      bindE (case ecnHandler h1 of
               Some e \<Rightarrow> if l = Encryption1RTT
                 then bindE (ecn_SentPacket e pn ecn) (\<lambda>e. Inr (h1\<lparr>ecnHandler := Some e\<rparr>)) else Inr h1
             | None \<Rightarrow> Inr h1) (\<lambda>h. bindE (updHistory h l (\<lambda>hs. SentAckElicitingPacket hs p)) (\<lambda>h. Inr (setLossDetectionTimer h now)))"
      unfolding sph_SentPacket_def Let_def len using True
      by (cases "numProbesToSend h > 0") (simp_all add: sp h1_def s2_def n_def c_def p_def cong: option.case_cong if_cong)
    with e True show ?thesis by (simp add: g_def)
  next
    case False
    have "sph_SentPacket h t pn la sf fr l ecn size' probe now =
      bindE (case ecnHandler h1 of
               Some e \<Rightarrow> if l = Encryption1RTT
                 then bindE (ecn_SentPacket e pn ecn) (\<lambda>e. Inr (h1\<lparr>ecnHandler := Some e\<rparr>)) else Inr h1
             | None \<Rightarrow> Inr h1) (\<lambda>h. bindE (updHistory h l (\<lambda>hs. SentNonAckElicitingPacket hs pn)) (\<lambda>h.
               Inr (if \<not> peerCompletedAddressValidation h then setLossDetectionTimer h now else h)))"
      unfolding sph_SentPacket_def Let_def len using False
      by (simp add: sp h1_def s2_def n_def c_def cong: option.case_cong if_cong)
    with e False show ?thesis by (simp add: g_def)
  qed
  then show ?thesis by (intro that [where g = g and n = n and c = c and e = e]) (simp_all add: g_def h1_def)
qed

lemma sendPacket_ok:
  assumes inv: "handler_inv h" and sp: "theSpace h l = Inr s" and r: "fairRnd rnd" and t: "0 < t" and sz: "0 \<le> size'"
    and ecn: "markable h ecn"
  shows "\<exists>h'. sendPacket rnd h t la sf fr l ecn size' probe now = Inr h' \<and> handler_inv h'
    \<and> bytesSent h' = bytesSent h + size' \<and> bytesReceived h' = bytesReceived h \<and> peerAddressValidated h' = peerAddressValidated h
    \<and> bytesInFlight h' = bytesInFlight h + (if sf = [] \<and> fr = [] then 0 else size')
    \<and> (sf \<noteq> [] \<or> fr \<noteq> [] \<longrightarrow> (\<exists>g s'. h' = setLossDetectionTimer g now \<and> theSpace g l = Inr s'
         \<and> lastAckElicitingPacketTime s' = t \<and> (\<not> probe \<longrightarrow> HasOutstandingPackets (history s'))))"
proof -
  define pn where "pn = pns_Peek (pns s)"
  define elic where "elic \<longleftrightarrow> sf \<noteq> [] \<or> fr \<noteq> []"
  obtain s1 where s1: "PopPacketNumber rnd h l = Inr (setSpace h l s1, pn)" "drawn s1 pn" "inFlight (history s1) = inFlight (history s)"
    using PopPacketNumber_drawn [OF _ sp r] inv by (auto simp: pn_def handler_inv_def)
  define s2 where "s2 = (if elic then s1\<lparr>largestSent := pn, lastAckElicitingPacketTime := t\<rparr> else s1\<lparr>largestSent := pn\<rparr>)"
  have d2: "drawn s2 pn" "history s2 = history s1" using s1(2) t by (auto simp: s2_def drawn_def)
  define p where "p = getPacket\<lparr>SendTime := t, PacketNumber := pn, EncryptionLevel := l, Length := size',
    pkt_LargestAcked := la, StreamFrames := sf, Frames := fr, IsPathMTUProbePacket := probe, includedInBytesInFlight := True\<rparr>"
  have sp1: "theSpace (setSpace h l s1) l = Inr s1" using sp by simp
  have ecn1: "markable (setSpace h l s1) ecn" using ecn by (simp add: markable_def)
  obtain n c e g where g: "g = setSpace (setSpace h l s1\<lparr>bytesSent := bytesSent (setSpace h l s1) + size',
        bytesInFlight := bytesInFlight (setSpace h l s1) + (if elic then size' else 0),
        numProbesToSend := n, congestion := c, ecnHandler := e\<rparr>) l s2"
    and eq: "sph_SentPacket (setSpace h l s1) t pn la sf fr l ecn size' probe now =
       (if \<not> elic then bindE (updHistory g l (\<lambda>hs. SentNonAckElicitingPacket hs pn)) (\<lambda>h.
          Inr (if \<not> peerCompletedAddressValidation h then setLossDetectionTimer h now else h))
        else bindE (updHistory g l (\<lambda>hs. SentAckElicitingPacket hs p)) (\<lambda>h. Inr (setLossDetectionTimer h now)))"
    by (rule sph_SentPacket_form [OF sp1 ecn1, where sf = sf and fr = fr and pn = pn and t = t and size' = size' and la = la
        and probe = probe and now = now, folded elic_def, folded s2_def p_def])
  have hg: "spaces_inv (setSpace g l s')" "total_flight (setSpace g l s') = total_flight h - inFlight (history s) + inFlight (history s')"
    if "space_inv s'" for s'
    using inv sp that by (auto simp: g handler_inv_def total_flight_set intro!: spaces_inv_set)
  have sg: "theSpace g l = Inr s2" "rttStats g = rttStats h" "bytesSent g = bytesSent h + size'"
    "bytesReceived g = bytesReceived h" "peerAddressValidated g = peerAddressValidated h"
    "bytesInFlight g = bytesInFlight h + (if elic then size' else 0)" using sp by (simp_all add: g)
  show ?thesis
  proof (cases elic)
    case True
    have ok: "packet_ok p" "\<not> skippedPacket p" "PacketNumber p = pn" "flightOf (Some p) = size'" "outstanding p = (\<not> probe)"
      using True t sz by (auto simp: packet_ok_def p_def elic_def getPacket_def flightOf_def outstanding_def)
    have "0 < lastAckElicitingPacketTime s2" using True t by (simp add: s2_def)
    then obtain hs where hs: "SentAckElicitingPacket (history s2) p = Inr hs" "space_inv (s2\<lparr>history := hs\<rparr>)"
      "inFlight hs = inFlight (history s2) + size'" "\<not> probe \<Longrightarrow> HasOutstandingPackets hs"
      using drawn_SentAckEliciting [OF d2(1) ok(3,1)] ok(4,5) by auto
    have sp3: "theSpace (setSpace g l (s2\<lparr>history := hs\<rparr>)) l = Inr (s2\<lparr>history := hs\<rparr>)" using sg(1) by simp
    have t2: "lastAckElicitingPacketTime s2 = t" using True by (simp add: s2_def)
    have "sendPacket rnd h t la sf fr l ecn size' probe now = Inr (setLossDetectionTimer (setSpace g l (s2\<lparr>history := hs\<rparr>)) now)"
      using True hs(1) sg(1) by (simp add: sendPacket_def s1(1) eq updHistory_def)
    then show ?thesis using hg [OF hs(2)] hs(3,4) sg d2(2) s1(3) inv True sp3 t2
      by (auto simp: handler_inv_def elic_def intro!: exI [of _ "setSpace g l (s2\<lparr>history := hs\<rparr>)"])
  next
    case False
    then obtain hs where hs: "SentNonAckElicitingPacket (history s2) pn = Inr hs" "space_inv (s2\<lparr>history := hs\<rparr>)"
      "inFlight hs = inFlight (history s2)"
      using drawn_SentNonAckEliciting [OF d2(1)] by auto
    let ?h = "setSpace g l (s2\<lparr>history := hs\<rparr>)"
    have "sendPacket rnd h t la sf fr l ecn size' probe now
        = Inr (if \<not> peerCompletedAddressValidation ?h then setLossDetectionTimer ?h now else ?h)"
      using False hs(1) sg(1) by (simp add: sendPacket_def s1(1) eq updHistory_def)
    then show ?thesis using hg [OF hs(2)] hs(3) sg d2(2) s1(3) inv False
      by (auto simp: handler_inv_def elic_def)
  qed
qed

subsection \<open>Dropping packets, probes and timeouts\<close>

lemma inFlight_present:
  assumes "sent_inv hs"
  shows "inFlight hs = (\<Sum>p\<leftarrow>present (packets hs). flightOf (Some p))"
proof -
  have "distinct (map PacketNumber (present (packets hs)))" using present_sorted [OF assms] strict_sorted_iff by blast
  moreover have "flightOf (lookup hs q) = 0" if "q \<notin> PacketNumber ` set (present (packets hs))" for q
  proof (cases "lookup hs q")
    case (Some p)
    then have "p \<in> set (present (packets hs))" "PacketNumber p = q"
      using present_lookup [OF assms, of p] lookup_PacketNumber(1) [OF assms, of q p] by auto
    with that show ?thesis by auto
  qed simp
  ultimately have "inFlight (hs\<lparr>packets := []\<rparr>) = inFlight hs - (\<Sum>p\<leftarrow>present (packets hs). flightOf (Some p))"
    using assms present_lookup [OF assms] by (intro inFlight_forget_list) (auto simp: lookup_def)
  then show ?thesis by (simp add: inFlight_def lookup_def)
qed

lemma forget_space:
  assumes si: "space_inv s" and le: "inFlight (history s) \<le> bytesInFlight h"
  shows "Iterate (history s) (\<lambda>p h. bindE (removeFromBytesInFlight h p) (\<lambda>h. Inr (h, True))) h
    = Inr (h\<lparr>bytesInFlight := bytesInFlight h - inFlight (history s)\<rparr>)"
proof -
  let ?all = "present (packets (history s))"
  have hi: "sent_inv (history s)" using si by (simp add: space_inv_def)
  have ok: "packet_ok p" if "p \<in> set ?all" for p
    using that present_lookup [OF hi, of p] si by (auto simp: space_inv_def)
  define I where "I ps g \<longleftrightarrow> (\<exists>qs. ?all = qs @ present ps \<and> g = h\<lparr>bytesInFlight := bytesInFlight h - (\<Sum>p\<leftarrow>qs. flightOf (Some p))\<rparr>)" for ps g
  have "\<exists>g. Iterate (history s) (\<lambda>p h. bindE (removeFromBytesInFlight h p) (\<lambda>h. Inr (h, True))) h = Inr g
      \<and> g = h\<lparr>bytesInFlight := bytesInFlight h - inFlight (history s)\<rparr>"
  proof (rule Iterate_rule [of I])
    show "I (packets (history s)) h" unfolding I_def by (intro exI [of _ "[]"]) simp
    show "g = h\<lparr>bytesInFlight := bytesInFlight h - inFlight (history s)\<rparr>" if "I [] g" for g
      using that inFlight_present [OF hi] by (simp add: I_def)
    show "I ps g" if "I (None # ps) g" for ps g using that by (simp add: I_def)
    fix p ps g assume "I (Some p # ps) g"
    then obtain qs where qs: "?all = qs @ p # present ps" "g = h\<lparr>bytesInFlight := bytesInFlight h - (\<Sum>p\<leftarrow>qs. flightOf (Some p))\<rparr>"
      unfolding I_def by auto
    have "0 \<le> (\<Sum>p\<leftarrow>present ps. flightOf (Some p))"
      using ok flightOf_nonneg by (intro sum_list_nonneg) (auto simp: qs(1))
    then have "flightOf (Some p) \<le> bytesInFlight g"
      using le unfolding inFlight_present [OF hi] qs by simp
    then have "removeFromBytesInFlight g p = Inr (h\<lparr>bytesInFlight := bytesInFlight h - (\<Sum>p\<leftarrow>qs @ [p]. flightOf (Some p))\<rparr>)"
      by (auto simp: removeFromBytesInFlight_def flightOf_def qs(2))
    moreover have "I ps (h\<lparr>bytesInFlight := bytesInFlight h - (\<Sum>p\<leftarrow>qs @ [p]. flightOf (Some p))\<rparr>)"
      unfolding I_def using qs(1) by (intro exI [of _ "qs @ [p]"]) simp
    ultimately show "\<exists>s' c. bindE (removeFromBytesInFlight g p) (\<lambda>h. Inr (h, True)) = Inr (s', c)
        \<and> (if c then I ps s' else s' = h\<lparr>bytesInFlight := bytesInFlight h - inFlight (history s)\<rparr>)"
      by (auto intro: exI [of _ True])
  qed
  then show ?thesis by blast
qed

lemma removes_one:
  assumes si: "space_inv s" and p: "lookup (history s) (PacketNumber p) = Some p"
  shows "\<exists>hs. Remove (history s) (PacketNumber p) = Inr hs \<and> space_inv (s\<lparr>history := hs\<rparr>)
    \<and> inFlight hs = inFlight (history s) - flightOf (Some p)
    \<and> (\<forall>q. PacketNumber p < q \<longrightarrow> lookup hs q = lookup (history s) q)"
proof -
  have hi: "sent_inv (history s)" using si by (simp add: space_inv_def)
  obtain hs where hs: "Remove (history s) (PacketNumber p) = Inr hs" "sent_inv hs"
    "\<forall>q. q \<noteq> PacketNumber p \<longrightarrow> lookup hs q = lookup (history s) q
        \<or> (q < PacketNumber p \<and> lookup hs q = None \<and> (\<exists>r. lookup (history s) q = Some r \<and> skippedPacket r))"
    using Remove_spec [OF hi p] by blast
  have "removes (history s) [p] hs" using removes_Cons [OF hs(1) hi p removes_Nil [OF hs(2)]] .
  then have r: "space_inv (s\<lparr>history := hs, largestAcked := largestAcked s\<rparr>)" "inFlight hs = inFlight (history s) - flightOf (Some p)"
    using removes_space(1) [OF si, of "[p]" hs "largestAcked s"] removes_space(2) [OF si, of "[p]" hs] p by auto
  have "s\<lparr>history := hs, largestAcked := largestAcked s\<rparr> = s\<lparr>history := hs\<rparr>" by simp
  moreover have "lookup hs q = lookup (history s) q" if "PacketNumber p < q" for q
    using hs(3) [rule_format, of q] that by auto
  ultimately show ?thesis using r hs by (intro exI [of _ hs]) simp
qed

lemma drop0RTT_ok:
  assumes inv: "spaces_inv h" "total_flight h \<le> bytesInFlight h"
  shows "\<exists>g. Iterate (history (sph_appDataPackets h)) drop0RTT_cb h = Inr g
    \<and> (\<exists>hs b. g = h\<lparr>bytesInFlight := b, sph_appDataPackets := (sph_appDataPackets h)\<lparr>history := hs\<rparr>\<rparr>)
    \<and> spaces_inv g \<and> bytesInFlight g - total_flight g = bytesInFlight h - total_flight h"
proof -
  let ?s = "sph_appDataPackets h"
  let ?all = "present (packets (history ?s))"
  have si: "space_inv ?s" using inv by (simp add: spaces_inv_def)
  then have hi: "sent_inv (history ?s)" by (simp add: space_inv_def)
  have srt: "sorted_wrt (<) (map PacketNumber ?all)" using hi by (rule present_sorted)
  define Q where "Q g \<longleftrightarrow> (\<exists>hs b. g = h\<lparr>bytesInFlight := b, sph_appDataPackets := ?s\<lparr>history := hs\<rparr>\<rparr>)
    \<and> spaces_inv g \<and> bytesInFlight g - total_flight g = bytesInFlight h - total_flight h" for g
  define I where "I ps g \<longleftrightarrow> Q g \<and> sorted_wrt (<) (map PacketNumber (present ps))
    \<and> (\<forall>p \<in> set (present ps). lookup (history (sph_appDataPackets g)) (PacketNumber p) = Some p)" for ps g
  have "\<exists>g. Iterate (history ?s) drop0RTT_cb h = Inr g \<and> Q g"
  proof (rule Iterate_rule [of I])
    have "Q h" unfolding Q_def using inv by (intro conjI exI [of _ "history ?s"] exI [of _ "bytesInFlight h"]) simp_all
    then show "I (packets (history ?s)) h" unfolding I_def using srt present_lookup [OF hi] by simp
    show "I ps g" if "I (None # ps) g" for ps g using that by (simp add: I_def)
    show "Q g" if "I [] g" for g using that by (simp add: I_def)
    fix p ps g assume I: "I (Some p # ps) g"
    show "\<exists>g' c. drop0RTT_cb p g = Inr (g', c) \<and> (if c then I ps g' else Q g')"
    proof (cases "EncryptionLevel p \<noteq> Encryption0RTT \<and> \<not> skippedPacket p")
      case True
      then show ?thesis using I by (auto simp: drop0RTT_cb_def I_def)
    next
      case False
      let ?sg = "sph_appDataPackets g"
      have g: "spaces_inv g" "bytesInFlight g - total_flight g = bytesInFlight h - total_flight h"
        "lookup (history ?sg) (PacketNumber p) = Some p" and gf: "\<exists>hs b. g = h\<lparr>bytesInFlight := b, sph_appDataPackets := ?s\<lparr>history := hs\<rparr>\<rparr>"
        using I by (auto simp: I_def Q_def)
      have spg: "theSpace g Encryption1RTT = Inr ?sg" by (simp add: theSpace_def getPacketNumberSpace_def)
      have sg: "space_inv ?sg" using g(1) by (simp add: spaces_inv_def)
      obtain hs where hs: "Remove (history ?sg) (PacketNumber p) = Inr hs" "space_inv (?sg\<lparr>history := hs\<rparr>)"
        "inFlight hs = inFlight (history ?sg) - flightOf (Some p)" "\<forall>q. PacketNumber p < q \<longrightarrow> lookup hs q = lookup (history ?sg) q"
        using removes_one [OF sg g(3)] by blast
      define g' where "g' = setSpace (g\<lparr>bytesInFlight := bytesInFlight g - flightOf (Some p)\<rparr>) Encryption1RTT (?sg\<lparr>history := hs\<rparr>)"
      have "flightOf (Some p) \<le> bytesInFlight g"
        using flightOf_le(1) [OF sg g(3)] flight_le_total [OF g(1) spg] g(2) inv(2) by linarith
      then have "removeFromBytesInFlight g p = Inr (g\<lparr>bytesInFlight := bytesInFlight g - flightOf (Some p)\<rparr>)"
        by (auto simp: removeFromBytesInFlight_def flightOf_def)
      then have "drop0RTT_cb p g = Inr (g', True)"
        using False hs(1) by (auto simp: drop0RTT_cb_def g'_def setSpace_def)
      moreover have "Q g'" unfolding Q_def
      proof (intro conjI)
        show "\<exists>hs b. g' = h\<lparr>bytesInFlight := b, sph_appDataPackets := ?s\<lparr>history := hs\<rparr>\<rparr>"
          using gf by (elim exE, intro exI [of _ hs] exI [of _ "bytesInFlight g - flightOf (Some p)"]) (simp add: g'_def setSpace_def)
        show "spaces_inv g'" unfolding g'_def using g(1) spg hs(2) by (intro spaces_inv_set) auto
        show "bytesInFlight g' - total_flight g' = bytesInFlight h - total_flight h"
          using spg g(2) hs(3) by (simp add: g'_def total_flight_set)
      qed
      moreover have "sph_appDataPackets g' = ?sg\<lparr>history := hs\<rparr>" by (simp add: g'_def setSpace_def)
      ultimately show ?thesis using I hs(4)
        by (intro exI [of _ g'] exI [of _ True]) (auto simp: I_def)
    qed
  qed
  then show ?thesis unfolding Q_def .
qed

lemma total_flight_None:
  "total_flight (h\<lparr>sph_initialPackets := None\<rparr>) = total_flight h - opt_flight (sph_initialPackets h)"
  "total_flight (h\<lparr>sph_handshakePackets := None\<rparr>) = total_flight h - opt_flight (sph_handshakePackets h)"
  by (simp_all add: total_flight_def)

lemma dropped_inv:
  assumes "handler_inv h"
  shows "sph_initialPackets h = Some s \<Longrightarrow> handler_inv (h\<lparr>bytesInFlight := bytesInFlight h - inFlight (history s),
      sph_initialPackets := None, ptoCount := 0, numProbesToSend := 0, ptoMode := SendNone\<rparr>)"
    and "sph_handshakePackets h = Some s \<Longrightarrow> handler_inv (h\<lparr>bytesInFlight := bytesInFlight h - inFlight (history s),
      sph_handshakePackets := None, ptoCount := 0, numProbesToSend := 0, ptoMode := SendNone\<rparr>)"
  using assms by (simp_all add: handler_inv_def total_flight_def spaces_inv_def)

lemma forget_level:
  assumes "handler_inv h" "theSpace h l = Inr s"
  shows "Iterate (history s) (\<lambda>p h. bindE (removeFromBytesInFlight h p) (\<lambda>h. Inr (h, True))) h
    = Inr (h\<lparr>bytesInFlight := bytesInFlight h - inFlight (history s)\<rparr>)"
  using forget_space [OF spaces_inv_get [OF _ assms(2)]] flight_le_total [OF _ assms(2)] assms(1)
  by (simp add: handler_inv_def)

lemma DropPackets_ok:
  assumes inv: "handler_inv h" and l: "l \<in> {EncryptionInitial, EncryptionHandshake, Encryption0RTT}"
  shows "\<exists>h'. sph_DropPackets h l now = Inr h' \<and> handler_inv h'"
proof -
  consider (ini) "l = EncryptionInitial" | (hs) "l = EncryptionHandshake" | (z) "l = Encryption0RTT" using l by auto
  then show ?thesis
  proof cases
    case ini
    show ?thesis
    proof (cases "sph_initialPackets h")
      case None
      then show ?thesis using inv ini by (simp add: sph_DropPackets_def)
    next
      case (Some s)
      then have "theSpace h EncryptionInitial = Inr s" by (simp add: theSpace_def getPacketNumberSpace_def)
      note f = forget_level [OF inv this]
      show ?thesis using ini Some f dropped_inv(1) [OF inv Some] by (simp add: sph_DropPackets_def Let_def)
    qed
  next
    case hs
    define h1 where "h1 = (if perspective h = PerspectiveClient then h\<lparr>peerCompletedAddressValidation := True\<rparr> else h)"
    have inv1: "handler_inv h1" using inv by (simp add: h1_def handler_inv_def)
    have eq: "sph_DropPackets h l now = (case sph_handshakePackets h1 of
                None \<Rightarrow> Inr h1
              | Some s \<Rightarrow> bindE (Iterate (history s) (\<lambda>p h. bindE (removeFromBytesInFlight h p) (\<lambda>h. Inr (h, True))) h1)
                  (\<lambda>h. Inr (setLossDetectionTimer (h\<lparr>sph_handshakePackets := None, ptoCount := 0, numProbesToSend := 0, ptoMode := SendNone\<rparr>) now)))"
      using hs unfolding h1_def by (simp add: sph_DropPackets_def Let_def)
    show ?thesis
    proof (cases "sph_handshakePackets h1")
      case None
      then show ?thesis using inv1 eq by simp
    next
      case (Some s)
      then have "theSpace h1 EncryptionHandshake = Inr s" by (simp add: theSpace_def getPacketNumberSpace_def)
      note f = forget_level [OF inv1 this]
      show ?thesis using Some f dropped_inv(2) [OF inv1 Some] by (simp add: eq)
    qed
  next
    case z
    obtain g where g: "Iterate (history (sph_appDataPackets h)) drop0RTT_cb h = Inr g"
      "\<exists>hs b. g = h\<lparr>bytesInFlight := b, sph_appDataPackets := (sph_appDataPackets h)\<lparr>history := hs\<rparr>\<rparr>"
      "spaces_inv g" "bytesInFlight g - total_flight g = bytesInFlight h - total_flight h"
      using drop0RTT_ok [of h] inv by (auto simp: handler_inv_def)
    then have "handler_inv g" using inv by (auto simp: handler_inv_def)
    then show ?thesis using z g(1) by (simp add: sph_DropPackets_def Let_def handler_inv_def)
  qed
qed

lemma firstOutstanding_present:
  "firstOutstanding_loop ps = Some p \<Longrightarrow> p \<in> set (present ps) \<and> outstanding p"
  by (induction ps rule: firstOutstanding_loop.induct) (auto split: if_splits)

lemma QueueProbePacket_ok:
  assumes inv: "handler_inv h" and sp: "theSpace h l = Inr s"
  shows "\<exists>h' b. QueueProbePacket h l = Inr (h', b) \<and> handler_inv h'
    \<and> (b \<longleftrightarrow> HasOutstandingPackets (history s))"
proof (cases "FirstOutstanding (history s)")
  case None
  have si: "space_inv s" using inv sp by (auto simp: handler_inv_def intro: spaces_inv_get)
  have "\<not> HasOutstandingPackets (history s)"
  proof
    assume h: "HasOutstandingPackets (history s)"
    then have "0 < countOutstanding (packets (history s))" using si by (auto simp: HasOutstandingPackets_def space_inv_def sent_inv_def)
    moreover have "firstOutstanding_loop ps = None \<Longrightarrow> countOutstanding ps = 0" for ps :: "'a packet option list"
      by (induction ps rule: firstOutstanding_loop.induct) (auto split: if_splits)
    ultimately show False using None h by (simp add: FirstOutstanding_def)
  qed
  then show ?thesis using None sp inv by (auto simp: QueueProbePacket_def)
next
  case (Some p)
  have si: "space_inv s" using inv sp by (auto simp: handler_inv_def intro: spaces_inv_get)
  then have hi: "sent_inv (history s)" by (simp add: space_inv_def)
  have p: "lookup (history s) (PacketNumber p) = Some p" "outstanding p" "HasOutstandingPackets (history s)"
    using Some firstOutstanding_present [of "packets (history s)" p] present_lookup [OF hi, of p]
    by (auto simp: FirstOutstanding_def split: if_splits)
  then have ok: "packet_ok p" "\<not> skippedPacket p" using si by (auto simp: space_inv_def outstanding_def)
  obtain hs where hs: "DeclareLost (history s) (PacketNumber p) = Inr hs" "sent_inv hs"
    "highestPacketNumber hs = highestPacketNumber (history s)" "lookup hs = (lookup (history s))(PacketNumber p := None)"
    using DeclareLost_spec [OF hi p(1)] by auto
  have "flightOf (Some p) \<le> bytesInFlight h"
    using flightOf_le(1) [OF si p(1)] flight_le_total [of h l s] sp inv by (auto simp: handler_inv_def)
  moreover have "\<not> (Frames p = [] \<and> StreamFrames p = [])" "includedInBytesInFlight p" using ok by (auto simp: packet_ok_def)
  ultimately have r: "QueueProbePacket h l = Inr (setSpace (h\<lparr>handlerCalls := handlerCalls h @ lostCalls p,
      bytesInFlight := bytesInFlight h - flightOf (Some p)\<rparr>) l (s\<lparr>history := hs\<rparr>), True)"
    using sp Some hs(1)
    by (auto simp: QueueProbePacket_def queueFramesForRetransmission_def removeFromBytesInFlight_def updHistory_def flightOf_def)
  have s': "space_inv (s\<lparr>history := hs\<rparr>)" using si hs by (auto simp: space_inv_def linked_def)
  have f: "inFlight hs = inFlight (history s) - flightOf (Some p)"
    using inFlight_forget [OF hi p(1) hs(3)] hs(4) by simp
  have "handler_inv (setSpace (h\<lparr>handlerCalls := handlerCalls h @ lostCalls p,
      bytesInFlight := bytesInFlight h - flightOf (Some p)\<rparr>) l (s\<lparr>history := hs\<rparr>))"
    using inv sp s' f by (simp add: handler_inv_def total_flight_set spaces_inv_set)
  then show ?thesis using r p(3) by blast
qed

lemma outstanding_time: "space_inv s \<Longrightarrow> HasOutstandingPackets (history s) \<Longrightarrow> 0 < lastAckElicitingPacketTime s"
  using HasOutstandingPackets_iff [of "history s"] by (auto simp: space_inv_def outstanding_def)

text \<open>The space whose probe timeout is due exists, once an ack-eliciting packet was sent in it.\<close>

lemma getPTO_level:
  assumes a: "addr_inv h" and g: "getPTOTimeAndSpace h now = (t, l, True)"
    and c: "handshakeConfirmed h \<Longrightarrow> 0 < lastAckElicitingPacketTime (sph_appDataPackets h)" and si: "spaces_inv h"
  shows "\<exists>s. theSpace h l = Inr s" "l \<in> {EncryptionInitial, EncryptionHandshake, Encryption1RTT}"
proof -
  have "(l = EncryptionInitial \<and> sph_initialPackets h \<noteq> None) \<or> (l = EncryptionHandshake \<and> sph_handshakePackets h \<noteq> None)
      \<or> l = Encryption1RTT"
  proof (cases "handshakeConfirmed h")
    case True
    then have "sph_initialPackets h = None" "sph_handshakePackets h = None" using a by (auto simp: addr_inv_def)
    then show ?thesis using g True c by (simp add: getPTOTimeAndSpace_def time_IsZero_def split: if_splits)
  next
    case nc: False
    show ?thesis
    proof (cases "hasOutstandingCryptoPackets h")
      case False
      then show ?thesis using nc g a
        by (auto simp: getPTOTimeAndSpace_def addr_inv_def Let_def split: if_splits option.splits)
    next
      case True
      then have hs: "sph_initialPackets h = None \<Longrightarrow> \<exists>s. sph_handshakePackets h = Some s \<and> 0 < lastAckElicitingPacketTime s"
        using outstanding_time si by (auto simp: hasOutstandingCryptoPackets_def spaces_inv_def split: option.splits)
      show ?thesis
      proof (cases "sph_initialPackets h")
        case None
        then show ?thesis using hs nc True g by (auto simp: getPTOTimeAndSpace_def time_IsZero_def Let_def split: if_splits)
      next
        case (Some s)
        then show ?thesis using nc True g
          by (cases "sph_handshakePackets h") (auto simp: getPTOTimeAndSpace_def Let_def split: if_splits)
      qed
    qed
  qed
  then show "\<exists>s. theSpace h l = Inr s" "l \<in> {EncryptionInitial, EncryptionHandshake, Encryption1RTT}"
    by (auto simp: theSpace_def getPacketNumberSpace_def)
qed

lemma detectLostPackets_ok:
  assumes inv: "handler_inv h" and sp: "theSpace h l = Inr s"
  shows "\<exists>h'. detectLostPackets h now l = Inr h' \<and> handler_inv h'"
proof -
  let ?all = "present (packets (history s))"
  have si: "spaces_inv h" "space_inv s" using inv sp by (auto simp: handler_inv_def intro: spaces_inv_get)
  then have hi: "sent_inv (history s)" by (simp add: space_inv_def)
  define delay where "delay = lossDelay (rttStats h)"
  define lost where "lost = filter (lostBy (largestAcked s) (now - delay)) ?all"
  define t where "t = lossTimeOf delay (filter (pendingBy (largestAcked s) (now - delay)) ?all)"
  obtain g where g: "detectLostPackets h now l = Inr g" "lossResult h l s lost t g"
    using detectLostPackets_result [OF si(1) sp, of now] inv
    unfolding handler_inv_def lost_def t_def delay_def by auto
  have tracked: "lookup (history s) (PacketNumber p) = Some p" if "p \<in> set ?all" for p
    using that present_lookup [OF hi, of p] by simp
  have "distinct (map PacketNumber ?all)" using present_sorted [OF hi] strict_sorted_iff by blast
  then have dl: "distinct (map PacketNumber lost)" by (simp add: lost_def distinct_map_filter)
  have "0 \<le> t" unfolding t_def delay_def using si(2) tracked lossDelay_pos [of "rttStats h"]
    by (intro lossTimeOf_nonneg packet_ok_SendTime) (auto simp: space_inv_def)
  then have "spaces_inv g" "bytesInFlight g - total_flight g = bytesInFlight h - total_flight h"
    using lossResult_inv [OF g(2) si(1) sp _ dl] tracked by (auto simp: lost_def)
  moreover have "rttStats g = rttStats h" using g(2) unfolding lossResult_def by (elim exE conjE; simp)
  ultimately show ?thesis using g(1) inv by (auto simp: handler_inv_def)
qed

lemma getLoss_level:
  assumes "getLossTimeAndSpace h = (t, l)" "t \<noteq> 0"
  shows "\<exists>s. theSpace h l = Inr s"
  using assms
  by (auto simp: getLossTimeAndSpace_def theSpace_def getPacketNumberSpace_def time_IsZero_def Let_def split: option.splits if_splits)

lemma OnLossDetectionTimeout_ok:
  assumes inv: "handler_inv h" and a: "addr_inv h" and r: "fairRnd rnd"
    and c: "handshakeConfirmed h \<Longrightarrow> 0 < lastAckElicitingPacketTime (sph_appDataPackets h)"
  shows "\<exists>h' e. OnLossDetectionTimeout rnd h now = Inr (h', e) \<and> handler_inv h'"
proof -
  have si: "spaces_inv h" using inv by (simp add: handler_inv_def)
  obtain t l where tl: "getLossTimeAndSpace h = (t, l)" by fastforce
  obtain pt pl ok where p: "getPTOTimeAndSpace h now = (pt, pl, ok)" by (cases "getPTOTimeAndSpace h now")
  define h1 where "h1 = h\<lparr>ptoCount := ptoCount h + 1, numProbesToSend := numProbesToSend h + 2\<rparr>"
  have inv1: "handler_inv h1" using inv by (simp add: h1_def handler_inv_def)
  consider (loss) "t \<noteq> 0" | (addr) "t = 0" "bytesInFlight h = 0 \<and> \<not> peerCompletedAddressValidation h"
    | (none) "t = 0" "\<not> (bytesInFlight h = 0 \<and> \<not> peerCompletedAddressValidation h)" "\<not> ok"
    | (pto) "t = 0" "\<not> (bytesInFlight h = 0 \<and> \<not> peerCompletedAddressValidation h)" ok by blast
  then show ?thesis
  proof cases
    case loss
    then obtain s where "theSpace h l = Inr s" using getLoss_level [OF tl] by blast
    then obtain h' where "detectLostPackets h now l = Inr h'" "handler_inv h'" using detectLostPackets_ok [OF inv] by blast
    then show ?thesis using loss by (simp add: OnLossDetectionTimeout_def tl time_IsZero_def)
  next
    case addr
    then show ?thesis using inv by (simp add: OnLossDetectionTimeout_def tl time_IsZero_def Let_def) (simp add: handler_inv_def)
  next
    case none
    then show ?thesis using inv by (auto simp: OnLossDetectionTimeout_def tl p time_IsZero_def)
  next
    case pto
    have p': "getPTOTimeAndSpace h now = (pt, pl, True)" using p pto(3) by simp
    have lv: "pl \<in> {EncryptionInitial, EncryptionHandshake, Encryption1RTT}"
      by (rule getPTO_level(2) [OF a p' c si])
    obtain s where s: "theSpace h pl = Inr s" using getPTO_level(1) [OF a p' c si] by blast
    have eq: "OnLossDetectionTimeout rnd h now =
        (if \<not> HasOutstandingPackets (history s) \<and> \<not> peerCompletedAddressValidation h then Inr (setLossDetectionTimer h now, Inr ())
         else case pl of
               EncryptionInitial \<Rightarrow> Inr (setLossDetectionTimer (h1\<lparr>ptoMode := SendPTOInitial\<rparr>) now, Inr ())
             | EncryptionHandshake \<Rightarrow> Inr (setLossDetectionTimer (h1\<lparr>ptoMode := SendPTOHandshake\<rparr>) now, Inr ())
             | _ \<Rightarrow> bindE (PopPacketNumber rnd h1 Encryption1RTT) (\<lambda>(h, pn).
                 bindE (updHistory h Encryption1RTT (\<lambda>hs. SkippedPacket hs pn)) (\<lambda>h.
                 Inr (setLossDetectionTimer (h\<lparr>ptoMode := SendPTOAppData\<rparr>) now, Inr ()))))"
      using pto lv s by (auto simp: OnLossDetectionTimeout_def tl p time_IsZero_def Let_def h1_def)
    show ?thesis
    proof (cases "pl = Encryption1RTT")
      case True
      have s1: "theSpace h1 Encryption1RTT = Inr s" using s True by (simp add: h1_def)
      obtain s2 where s2: "PopPacketNumber rnd h1 Encryption1RTT = Inr (setSpace h1 Encryption1RTT s2, pns_Peek (pns s))"
        "drawn s2 (pns_Peek (pns s))" "inFlight (history s2) = inFlight (history s)"
        using PopPacketNumber_drawn [OF _ s1 r] inv1 by (auto simp: handler_inv_def)
      obtain hs where hs: "SkippedPacket (history s2) (pns_Peek (pns s)) = Inr hs" "space_inv (s2\<lparr>history := hs\<rparr>)"
        "inFlight hs = inFlight (history s2)" using drawn_Skipped [OF s2(2)] by blast
      have "handler_inv (setSpace h1 Encryption1RTT (s2\<lparr>history := hs\<rparr>))"
        using inv1 s1 hs(2,3) s2(3) by (simp add: handler_inv_def total_flight_set spaces_inv_set)
      then have "handler_inv (setSpace h1 Encryption1RTT (s2\<lparr>history := hs\<rparr>)\<lparr>ptoMode := SendPTOAppData\<rparr>)"
        by (simp add: handler_inv_def del: setSpace_commute)
      then show ?thesis using True s1 s2(1) hs(1) inv by (simp add: eq updHistory_def del: setSpace_commute)
    next
      case False
      have "handler_inv (h1\<lparr>ptoMode := m\<rparr>)" for m using inv1 by (simp add: handler_inv_def)
      then show ?thesis using False lv inv by (auto simp: eq)
    qed
  qed
qed

end
