(* ===== verification/Sent_Handler_Runs.thy ===== *)
theory Sent_Handler_Runs
  imports Sent_Handler_Correct
begin

text \<open>
  Runs of the sent packet handler. The states that its operations reach satisfy the invariant of
  \<open>Sent_Handler_Correct\<close> and two more: who still awaits address validation, and when the loss
  detection timer may be armed. From these follow the properties of the handler: acknowledgements and losses are exact,
  nothing panics, the timer is armed, the amplification limit holds and probe timeouts back off.
\<close>

text \<open>
  Every operation except dropping a packet number space and confirming the handshake keeps the role, the
  set of packet number spaces, and the facts that the peer validated the address and that an
  ack-eliciting packet was sent in the application data space. Only after such a packet the loss time
  of that space may change.
\<close>

definition keeps :: "'f sentPacketHandler \<Rightarrow> 'f sentPacketHandler \<Rightarrow> bool" where
  "keeps h h' \<longleftrightarrow> perspective h' = perspective h \<and> handshakeConfirmed h' = handshakeConfirmed h
     \<and> (sph_initialPackets h' = None \<longleftrightarrow> sph_initialPackets h = None)
     \<and> (sph_handshakePackets h' = None \<longleftrightarrow> sph_handshakePackets h = None)
     \<and> (peerCompletedAddressValidation h \<longrightarrow> peerCompletedAddressValidation h')
     \<and> (0 < lastAckElicitingPacketTime (sph_appDataPackets h) \<longrightarrow> 0 < lastAckElicitingPacketTime (sph_appDataPackets h'))
     \<and> (lossTime (sph_appDataPackets h') = lossTime (sph_appDataPackets h) \<or> 0 < lastAckElicitingPacketTime (sph_appDataPackets h'))"

text \<open>A space whose loss time may change.\<close>

definition timed :: "EncryptionLevel \<Rightarrow> 'f packetNumberSpace \<Rightarrow> bool" where
  "timed l s \<longleftrightarrow> l \<in> {EncryptionInitial, EncryptionHandshake} \<or> 0 < lastAckElicitingPacketTime s"

text \<open>
  After the handshake was confirmed the timer is only armed when an ack-eliciting packet was sent in the
  application data space; so a probe timeout always finds its packet number space.
\<close>

definition timer_inv :: "'f sentPacketHandler \<Rightarrow> bool" where
  "timer_inv h \<longleftrightarrow>
     (lossTime (sph_appDataPackets h) \<noteq> 0 \<longrightarrow> 0 < lastAckElicitingPacketTime (sph_appDataPackets h))
     \<and> (handshakeConfirmed h \<and> alarm h \<noteq> 0 \<longrightarrow> 0 < lastAckElicitingPacketTime (sph_appDataPackets h))"

definition timer_step :: "'f sentPacketHandler \<Rightarrow> 'f sentPacketHandler \<Rightarrow> bool" where
  "timer_step h h' \<longleftrightarrow> (handshakeConfirmed h \<longrightarrow> alarm h' = alarm h \<or> (\<exists>g now. h' = setLossDetectionTimer g now))"

text \<open>
  The states of a handler under the operations of its interface. A packet is recorded under the number that
  was drawn for it; ACK frames were parsed; a timeout is handled when the timer is armed; a probe is
  queued in an existing packet number space; a Retry arrives before any Handshake packet was sent. An
  operation that returns an error ends the connection, so only successful ones continue.
\<close>

inductive sph_reachable :: "'f sentPacketHandler \<Rightarrow> bool" where
  new: "fairRnd rnd \<Longrightarrow> 0 \<le> initialPN \<Longrightarrow> rtt_inv rtt \<Longrightarrow>
    sph_reachable (newSentPacketHandler rnd initialPN mds rtt validated enable pers)"
| send: "sph_reachable h \<Longrightarrow> theSpace h l = Inr s \<Longrightarrow> fairRnd rnd \<Longrightarrow> 0 < t \<Longrightarrow> 0 \<le> size' \<Longrightarrow> markable h ecn \<Longrightarrow>
    sendPacket rnd h t la sf fr l ecn size' probe now = Inr h' \<Longrightarrow> sph_reachable h'"
| ack: "sph_reachable h \<Longrightarrow> theSpace h l = Inr s \<Longrightarrow> validateAckRanges ack \<Longrightarrow> 0 \<le> DelayTime ack \<Longrightarrow>
    ReceivedAck h ack l rcvTime now = Inr (h', Inr b) \<Longrightarrow> sph_reachable h'"
| timeout: "sph_reachable h \<Longrightarrow> alarm h \<noteq> 0 \<Longrightarrow> fairRnd rnd \<Longrightarrow>
    OnLossDetectionTimeout rnd h now = Inr (h', Inr ()) \<Longrightarrow> sph_reachable h'"
| drop: "sph_reachable h \<Longrightarrow> l \<in> {EncryptionInitial, EncryptionHandshake, Encryption0RTT} \<Longrightarrow>
    sph_DropPackets h l now = Inr h' \<Longrightarrow> sph_reachable h'"
| probe: "sph_reachable h \<Longrightarrow> theSpace h l = Inr s \<Longrightarrow> QueueProbePacket h l = Inr (h', b) \<Longrightarrow> sph_reachable h'"
| bytes: "sph_reachable h \<Longrightarrow> sph_reachable (ReceivedBytes h n now)"
| packet: "sph_reachable h \<Longrightarrow> sph_reachable (sph_ReceivedPacket h l now)"
| confirmed: "sph_reachable h \<Longrightarrow> SetHandshakeConfirmed h now = Inr h' \<Longrightarrow> sph_reachable h'"
| mtu: "sph_reachable h \<Longrightarrow> sph_SetMaxDatagramSize h n = Inr h' \<Longrightarrow> sph_reachable h'"
| ecn: "sph_reachable h \<Longrightarrow> ECNMode h short = Inr (h', e) \<Longrightarrow> sph_reachable h'"
| retry: "sph_reachable h \<Longrightarrow> sph_initialPackets h = Some ini \<Longrightarrow> fairRnd rnd \<Longrightarrow> opt_flight (sph_handshakePackets h) = 0 \<Longrightarrow>
    ResetForRetry rnd h now = Inr h' \<Longrightarrow> sph_reachable h'"

definition reach_inv :: "'f sentPacketHandler \<Rightarrow> bool" where
  "reach_inv h \<longleftrightarrow> handler_inv h \<and> addr_inv h \<and> timer_inv h"

text \<open>The deadline of a packet number space, zero if there is none, and the earlier of two deadlines.\<close>

fun deadline :: "'f sentPacketHandler \<Rightarrow> bool \<Rightarrow> 'f packetNumberSpace option \<Rightarrow> time" where
  "deadline h b None = 0"
| "deadline h b (Some s) = (if lastAckElicitingPacketTime s = 0 then 0 else lastAckElicitingPacketTime s + getScaledPTO h b)"

definition earlier :: "time \<Rightarrow> time \<Rightarrow> time" where
  "earlier p t = (if t = 0 then p else if p = 0 \<or> t < p then t else p)"

text \<open>The packets of a datagram, as \<open>sendPackedCoalescedPacket\<close> registers them.\<close>

type_synonym 'f packedPacket = "PacketNumber \<times> 'f Frame list \<times> 'f Frame list \<times> EncryptionLevel \<times> ECN \<times> ByteCount"

fun sendDatagram :: "(int \<Rightarrow> int) \<Rightarrow> 'f sentPacketHandler \<Rightarrow> time \<Rightarrow> 'f packedPacket list \<Rightarrow> time \<Rightarrow> 'f sentPacketHandler result" where
  "sendDatagram rnd h t [] now = Inr h"
| "sendDatagram rnd h t ((la, sf, fr, l, ecn, size') # ps) now =
     bindE (sendPacket rnd h t la sf fr l ecn size' False now) (\<lambda>h. sendDatagram rnd h t ps now)"

text \<open>A new client handler, and one that has sent an Initial packet of 1200 bytes with one frame.\<close>

definition client0 :: "nat sentPacketHandler" where
  "client0 = newSentPacketHandler (\<lambda>n. 0) 0 1252 NewRTTStats False False PerspectiveClient"

definition ini0 :: "nat packet" where
  "ini0 = getPacket\<lparr>SendTime := 1, PacketNumber := 0, EncryptionLevel := EncryptionInitial, Length := 1200,
     Frames := [\<lparr>frame_Frame = 7, frame_Handler = Some 1\<rparr>], includedInBytesInFlight := True\<rparr>"

definition client1 :: "nat sentPacketHandler" where
  "client1 = client0\<lparr>sph_initialPackets := Some \<lparr>history = \<lparr>packets = [Some ini0], numOutstanding = 1, highestPacketNumber = 0\<rparr>,
       pns = newSequentialPacketNumberGenerator 1, lossTime = 0, lastAckElicitingPacketTime = 1,
       largestAcked = -1, largestSent = 0\<rparr>, bytesInFlight := 1200\<rparr>"

subsection \<open>What the operations leave unchanged\<close>

lemma keeps_refl [simp]: "keeps h h"
  by (simp add: keeps_def)

lemma keeps_trans [trans]: "keeps h g \<Longrightarrow> keeps g k \<Longrightarrow> keeps h k"
  by (auto simp: keeps_def)

lemma keeps_set:
  assumes "theSpace h l = Inr s"
    "lastAckElicitingPacketTime s' = lastAckElicitingPacketTime s \<and> lossTime s' = lossTime s \<or> timed l s'"
  shows "keeps h (setSpace h l s')"
  using assms
  by (cases l) (auto simp: keeps_def timed_def theSpace_def getPacketNumberSpace_def setSpace_def split: option.splits)

lemma keeps_timed:
  assumes "keeps h h'" "theSpace h l = Inr s" "theSpace h' l = Inr s'" "timed l s"
  shows "timed l s'"
  using assms(2) by (rule theSpace_cases) (use assms in \<open>auto simp: timed_def keeps_def theSpace_def getPacketNumberSpace_def\<close>)

lemma keeps_fields [simp]:
  "keeps h (g\<lparr>bytesInFlight := x1\<rparr>) = keeps h g" "keeps h (g\<lparr>congestion := x2\<rparr>) = keeps h g"
  "keeps h (g\<lparr>ecnHandler := x3\<rparr>) = keeps h g" "keeps h (g\<lparr>handlerCalls := x4\<rparr>) = keeps h g"
  "keeps h (g\<lparr>rttStats := x5\<rparr>) = keeps h g" "keeps h (g\<lparr>ptoCount := x6\<rparr>) = keeps h g"
  "keeps h (g\<lparr>ptoMode := x7\<rparr>) = keeps h g" "keeps h (g\<lparr>numProbesToSend := x8\<rparr>) = keeps h g"
  "keeps h (g\<lparr>alarm := x9\<rparr>) = keeps h g" "keeps h (g\<lparr>bytesSent := x10\<rparr>) = keeps h g"
  "keeps h (g\<lparr>bytesReceived := x11\<rparr>) = keeps h g" "keeps h (g\<lparr>lowestNotConfirmedAcked := x12\<rparr>) = keeps h g"
  "keeps h (g\<lparr>peerAddressValidated := x13\<rparr>) = keeps h g"
  by (simp_all add: keeps_def)

lemma keeps_congestion [simp]: "keeps (g\<lparr>congestion := c\<rparr>) h = keeps g h"
  by (simp add: keeps_def)

lemma keeps_timer [simp]: "keeps h (setLossDetectionTimer g now) = keeps h g"
  by (rule setLossDetectionTimer_alarm [of g now]) simp

lemma keeps_completed [simp]: "keeps h g \<Longrightarrow> keeps h (g\<lparr>peerCompletedAddressValidation := True\<rparr>)"
  by (simp add: keeps_def)

lemma updHistory_keeps: "updHistory h l f = Inr h' \<Longrightarrow> keeps h h'"
  by (auto simp: updHistory_def resultE intro: keeps_set)

lemma removeFromBytesInFlight_keeps: "removeFromBytesInFlight h p = Inr h' \<Longrightarrow> keeps h h'"
  by (auto simp: removeFromBytesInFlight_def split: if_splits)

lemma queueFrames_keeps: "queueFramesForRetransmission h p = Inr h' \<Longrightarrow> keeps h h'"
  by (auto simp: queueFramesForRetransmission_def split: if_splits)

lemmas keeps_ops = updHistory_keeps removeFromBytesInFlight_keeps queueFrames_keeps

lemma Iterate_keeps:
  assumes "\<And>p s s' c. cb p s = Inr (s', c) \<Longrightarrow> keeps s s'" "Iterate hs cb s = Inr s'"
  shows "keeps s s'"
proof -
  have "Iterate_loop ps cb s = Inr s' \<Longrightarrow> keeps s s'" for ps
  proof (induction ps arbitrary: s)
    case (Cons e ps)
    then show ?case by (cases e) (auto simp: resultE split: if_splits prod.splits intro: keeps_trans dest!: assms(1))
  qed simp
  then show ?thesis using assms(2) by (simp add: Iterate_def)
qed

lemma losePacket_keeps:
  assumes "losePacket l p h = Inr h'"
  shows "keeps h h'"
proof -
  obtain h1 where h1: "updHistory h l (\<lambda>hs. DeclareLost hs (PacketNumber p)) = Inr h1" using assms by (auto simp: losePacket_def resultE)
  show ?thesis
  proof (cases "skippedPacket p")
    case False
    with assms h1 obtain h2 h3 where h3: "removeFromBytesInFlight h1 p = Inr h2" "queueFramesForRetransmission h2 p = Inr h3"
      by (auto simp: losePacket_def resultE)
    have "keeps h3 h'" using assms h1 False h3
      by (cases "ecnHandler h3"; cases "IsPathMTUProbePacket p"; cases "l = Encryption1RTT")
        (auto simp: losePacket_def)
    then show ?thesis using h1 h3 by (blast intro: keeps_trans keeps_ops)
  qed (use assms h1 in \<open>auto simp: losePacket_def dest: keeps_ops\<close>)
qed

lemma keeps_theSpace:
  assumes "keeps h h'" "theSpace h l = Inr s"
  obtains s' where "theSpace h' l = Inr s'"
  using assms(2) by (rule theSpace_cases) (use assms(1) that in \<open>auto simp: keeps_def theSpace_def getPacketNumberSpace_def\<close>)

lemma detectLostPackets_keeps:
  assumes d: "detectLostPackets h now l = Inr h'" and sp: "theSpace h l = Inr s" and t: "timed l s"
  shows "keeps h h'"
proof -
  define R where "R g \<longleftrightarrow> keeps h g" for g
  have cb: "R g'" if g: "R g" and c: "detectLost_cb l t d p g = Inr (g', c)" for t d p g g' c
  proof -
    obtain sg where sg: "theSpace g l = Inr sg" using c by (auto simp: detectLost_cb_def resultE)
    have "timed l sg" using keeps_timed [OF _ sp sg t] g by (simp add: R_def)
    then have "keeps g (setSpace g l (sg\<lparr>lossTime := x\<rparr>))" for x by (intro keeps_set [OF sg]) (simp add: timed_def)
    then have "keeps g g'" using c sg
      by (auto simp: detectLost_cb_def resultE split: if_splits dest!: losePacket_keeps)
    with g show ?thesis unfolding R_def by (rule keeps_trans)
  qed
  have loop: "Iterate_loop ps (detectLost_cb l t d) g = Inr g' \<Longrightarrow> R g \<Longrightarrow> R g'" for ps t d g g'
  proof (induction ps arbitrary: g)
    case (Cons e ps)
    then show ?case by (cases e) (auto simp: resultE split: if_splits prod.splits intro: cb)
  qed simp
  have "R (setSpace h l (s\<lparr>lossTime := 0\<rparr>))" using t unfolding R_def by (intro keeps_set [OF sp]) (simp add: timed_def)
  then show ?thesis using d sp loop unfolding R_def by (auto simp: detectLostPackets_def Iterate_def Let_def)
qed

lemma processAcked_keeps: "processAcked l ps h = Inr (h', e) \<Longrightarrow> keeps h h'"
proof (induction ps arbitrary: h)
  case (Cons p ps)
  define h1 where "h1 = (let h = (if pkt_LargestAcked p \<noteq> InvalidPacketNumber \<and> l = Encryption1RTT
               then h\<lparr>lowestNotConfirmedAcked := max (lowestNotConfirmedAcked h) (pkt_LargestAcked p + 1)\<rparr> else h)
             in h\<lparr>handlerCalls := handlerCalls h @ ackedCalls p\<rparr>)"
  have "keeps h h1" by (simp add: h1_def Let_def)
  moreover have "processAcked l (p # ps) h = (case updHistory h1 l (\<lambda>hs. Remove hs (PacketNumber p)) of
           Inl (Err e) \<Rightarrow> Inr (h1, Some (Err e)) | Inl e \<Rightarrow> Inl e | Inr h \<Rightarrow> processAcked l ps h)"
    unfolding h1_def Let_def processAcked.simps by (rule refl)
  ultimately show ?case using Cons
    by (auto split: sum.splits error.splits intro: keeps_trans dest!: keeps_ops)
qed simp

lemma detectAndRemove_keeps: "detectAndRemoveAckedPackets h ack l = Inr (h', acked, e) \<Longrightarrow> keeps h h'"
  by (auto simp: detectAndRemoveAckedPackets_def resultE split: option.splits prod.splits dest!: processAcked_keeps)

lemma finishAcked_keeps: "finishAcked prior t ps h b = Inr (h', b') \<Longrightarrow> keeps h h'"
proof (induction ps arbitrary: h b)
  case (Cons p ps)
  then show ?case by (auto simp: resultE Let_def split: if_splits intro: keeps_trans dest!: keeps_ops Cons.IH)
qed simp

lemma updateRTTOnAck_keeps: "keeps h (updateRTTOnAck h ack largest acked l t)"
  by (simp add: updateRTTOnAck_def Let_def)

lemma ecnOnAck_keeps: "keeps h (ecnOnAck h ack largest m acked l)"
  by (rule ecnOnAck_frame [of h ack largest m acked l]) simp

lemma ackTail_keeps:
  assumes a: "ackTail ack l rcvTime now largest m prior acked h = Inr (h', r)" and sp: "theSpace h l = Inr s" and t: "timed l s"
  shows "keeps h h'"
proof -
  define h1 where "h1 = ecnOnAck (updateRTTOnAck h ack largest acked l rcvTime) ack largest m acked l"
  have k1: "keeps h h1" unfolding h1_def by (rule keeps_trans [OF updateRTTOnAck_keeps ecnOnAck_keeps])
  obtain s1 where s1: "theSpace h1 l = Inr s1" using keeps_theSpace [OF k1 sp] .
  have t1: "timed l s1" by (rule keeps_timed [OF k1 sp s1 t])
  define s2 where "s2 = s1\<lparr>largestAcked := max (largestAcked s1) largest\<rparr>"
  have k2: "keeps h1 (setSpace h1 l s2)" by (rule keeps_set [OF s1]) (simp add: s2_def)
  obtain h2 h3 b where h2: "detectLostPackets (setSpace h1 l s2) rcvTime l = Inr h2" "finishAcked prior rcvTime acked h2 False = Inr (h3, b)"
    and h': "keeps h3 h'"
    using a s1 by (auto simp: ackTail_def resultE Let_def s2_def simp flip: h1_def)
  have "theSpace (setSpace h1 l s2) l = Inr s2" "timed l s2" using s1 t1 by (auto simp: s2_def timed_def)
  then have "keeps (setSpace h1 l s2) h2" by (rule detectLostPackets_keeps [OF h2(1)])
  with k1 k2 finishAcked_keeps [OF h2(2)] h' show ?thesis by (blast intro: keeps_trans)
qed

lemma acked_timed:
  assumes "space_inv s" "p \<in> set (takeWhile (\<lambda>p. \<not> skippedPacket p) (ackedPackets ack s))"
  shows "timed l s"
proof -
  have "p \<in> set (ackedPackets ack s)" "\<not> skippedPacket p" using set_takeWhileD [OF assms(2)] by auto
  then have "lookup (history s) (PacketNumber p) = Some p" using ackedPackets_tracked(2) [of s p ack] assms(1) by (simp add: space_inv_def)
  with \<open>\<not> skippedPacket p\<close> assms(1) show ?thesis by (auto simp: space_inv_def timed_def)
qed

lemma ReceivedAck_keeps:
  assumes inv: "handler_inv h" and sp: "theSpace h l = Inr s" and v: "validateAckRanges ack"
    and r: "ReceivedAck h ack l rcvTime now = Inr (h', Inr b)"
  shows "keeps h h'"
proof -
  let ?largest = "Largest (AckRanges ack ! 0)"
  have nr: "AckRanges ack \<noteq> []" using v by (simp add: validateAckRanges_iff)
  have si: "space_inv s" using inv sp by (auto simp: handler_inv_def intro: spaces_inv_get)
  obtain h0 where h0: "h0 = (if perspective h = PerspectiveClient \<and> \<not> peerCompletedAddressValidation h
                  \<and> (l = EncryptionHandshake \<or> l = Encryption1RTT)
                then setLossDetectionTimer (h\<lparr>peerCompletedAddressValidation := True\<rparr>) now else h)" by simp
  have k0: "keeps h h0" by (simp add: h0)
  have sp0: "theSpace h0 l = Inr s" using sp by (simp add: h0)
  obtain h1 acked e where d: "detectAndRemoveAckedPackets h0 ack l = Inr (h1, acked, e)"
    "acked = takeWhile (\<lambda>p. \<not> skippedPacket p) (ackedPackets ack s)"
    using detectAndRemove_total [OF sp0 _ v] si by (auto simp: space_inv_def)
  have k1: "keeps h0 h1" by (rule detectAndRemove_keeps [OF d(1)])
  have la: "\<not> largestSent s < ?largest"
    using r by (auto simp: ReceivedAck_def sp LargestAcked_valid [OF nr])
  have eq: "ReceivedAck h ack l rcvTime now = (case e of Some e \<Rightarrow> Inr (h1, Inl e)
      | None \<Rightarrow> if acked = [] then Inr (h1, Inr False) else ackTail ack l rcvTime now ?largest (largestAcked s) (bytesInFlight h0) acked h1)"
    unfolding ReceivedAck_def sp LargestAcked_valid [OF nr] bindE_simps h0 [symmetric] Let_def
    using la d(1) by (simp add: ackTail_def Let_def cong: option.case_cong)
  show ?thesis
  proof (cases "acked = []")
    case True
    then show ?thesis using r k0 k1 by (auto simp: eq split: option.splits intro: keeps_trans)
  next
    case False
    then obtain p where "p \<in> set acked" by (cases acked) auto
    then have t: "timed l s" using acked_timed [OF si] d(2) by blast
    obtain s1 where s1: "theSpace h1 l = Inr s1" using keeps_theSpace [OF k1 sp0] .
    have "ackTail ack l rcvTime now ?largest (largestAcked s) (bytesInFlight h0) acked h1 = Inr (h', Inr b)"
      using r False by (auto simp: eq split: option.splits)
    then have "keeps h1 h'" using s1 keeps_timed [OF k1 sp0 s1 t] by (rule ackTail_keeps)
    with k0 k1 show ?thesis by (blast intro: keeps_trans)
  qed
qed

lemma PopPacketNumber_keeps:
  assumes "PopPacketNumber rnd h l = Inr (h', pn)"
  shows "keeps h h'" "markable h' ecn = markable h ecn"
proof -
  obtain s where s: "theSpace h l = Inr s" using assms by (auto simp: PopPacketNumber_def resultE)
  obtain g sk n where g: "pns_Pop rnd (pns s) = (g, sk, n)" by (cases "pns_Pop rnd (pns s)")
  show "keeps h h'" using assms by (cases sk) (auto simp: PopPacketNumber_def resultE s g intro: keeps_set [OF s])
  show "markable h' ecn = markable h ecn"
    using assms by (cases sk) (auto simp: PopPacketNumber_def resultE s g markable_def)
qed

lemma sph_SentPacket_keeps:
  assumes r: "sph_SentPacket h t pn la sf fr l ecn size' probe now = Inr h'" and t: "0 < t" and ecn: "markable h ecn"
  shows "keeps h h'"
proof -
  obtain s where sp: "theSpace h l = Inr s" using r by (auto simp: sph_SentPacket_def resultE Let_def)
  define elic where "elic \<longleftrightarrow> sf \<noteq> [] \<or> fr \<noteq> []"
  define s2 where "s2 = (if elic then s\<lparr>largestSent := pn, lastAckElicitingPacketTime := t\<rparr> else s\<lparr>largestSent := pn\<rparr>)"
  define p where "p = getPacket\<lparr>SendTime := t, PacketNumber := pn, EncryptionLevel := l, Length := size',
    pkt_LargestAcked := la, StreamFrames := sf, Frames := fr, IsPathMTUProbePacket := probe, includedInBytesInFlight := True\<rparr>"
  have k: "keeps h (setSpace h l s2)" using t by (intro keeps_set [OF sp]) (auto simp: s2_def timed_def)
  obtain n c e g where g: "g = setSpace (h\<lparr>bytesSent := bytesSent h + size', bytesInFlight := bytesInFlight h + (if elic then size' else 0),
        numProbesToSend := n, congestion := c, ecnHandler := e\<rparr>) l s2"
    and eq: "sph_SentPacket h t pn la sf fr l ecn size' probe now =
       (if \<not> elic then bindE (updHistory g l (\<lambda>hs. SentNonAckElicitingPacket hs pn)) (\<lambda>h.
          Inr (if \<not> peerCompletedAddressValidation h then setLossDetectionTimer h now else h))
        else bindE (updHistory g l (\<lambda>hs. SentAckElicitingPacket hs p)) (\<lambda>h. Inr (setLossDetectionTimer h now)))"
    by (rule sph_SentPacket_form [OF sp ecn, where sf = sf and fr = fr and pn = pn and t = t and size' = size' and la = la
        and probe = probe and now = now, folded elic_def, folded s2_def p_def])
  have "keeps h g" using k by (simp add: g flip: setSpace_commute)
  then show ?thesis using r unfolding eq
    by (auto simp: resultE split: if_splits intro: keeps_trans dest!: keeps_ops)
qed

lemma sendPacket_keeps:
  assumes r: "sendPacket rnd h t la sf fr l ecn size' probe now = Inr h'" and t: "0 < t" and m: "markable h ecn"
  shows "keeps h h'"
proof -
  obtain h1 pn where h1: "PopPacketNumber rnd h l = Inr (h1, pn)" and r1: "sph_SentPacket h1 t pn la sf fr l ecn size' probe now = Inr h'"
    using r by (auto simp: sendPacket_def resultE)
  have "keeps h1 h'" using sph_SentPacket_keeps [OF r1 t] PopPacketNumber_keeps(2) [OF h1] m by simp
  with PopPacketNumber_keeps(1) [OF h1] show ?thesis by (rule keeps_trans)
qed

lemma QueueProbePacket_keeps: "QueueProbePacket h l = Inr (h', b) \<Longrightarrow> keeps h h'"
  by (auto simp: QueueProbePacket_def resultE split: option.splits dest!: keeps_ops) (blast intro: keeps_trans)

subsection \<open>The loss detection timer\<close>

lemma addr_inv_keeps: "keeps h h' \<Longrightarrow> addr_inv h \<Longrightarrow> addr_inv h'"
  by (auto simp: keeps_def addr_inv_def)

lemma addr_inv_timer [simp]: "addr_inv (setLossDetectionTimer h now) = addr_inv h"
  by (rule setLossDetectionTimer_alarm [of h now]) (simp add: addr_inv_def)

lemma sph_appDataPackets_timer [simp]: "sph_appDataPackets (setLossDetectionTimer h now) = sph_appDataPackets h"
  and handshakeConfirmed_timer [simp]: "handshakeConfirmed (setLossDetectionTimer h now) = handshakeConfirmed h"
  by (rule setLossDetectionTimer_alarm [of h now]; simp)+

lemma setLossDetectionTimer_confirmed:
  assumes "spaces_inv g" "addr_inv g" "handshakeConfirmed g" "alarm (setLossDetectionTimer g now) \<noteq> 0"
    "lossTime (sph_appDataPackets g) \<noteq> 0 \<Longrightarrow> 0 < lastAckElicitingPacketTime (sph_appDataPackets g)"
  shows "0 < lastAckElicitingPacketTime (sph_appDataPackets g)"
proof (rule ccontr)
  assume n: "\<not> ?thesis"
  have g: "sph_initialPackets g = None" "sph_handshakePackets g = None" "peerCompletedAddressValidation g"
    using assms(2,3) by (auto simp: addr_inv_def)
  have "\<not> HasOutstandingPackets (history (sph_appDataPackets g))"
    using outstanding_time assms(1) n by (auto simp: spaces_inv_def)
  then have "\<not> hasOutstandingPackets g" using g by (simp add: hasOutstandingPackets_def hasOutstandingCryptoPackets_def)
  moreover have "getLossTimeAndSpace g = (0, Encryption1RTT)"
    using g assms(5) n by (auto simp: getLossTimeAndSpace_def time_IsZero_def)
  ultimately have "alarm (setLossDetectionTimer g now) = 0" using g by (simp add: setLossDetectionTimer_def time_IsZero_def)
  with assms(4) show False by simp
qed

lemma timer_inv_step:
  assumes "timer_inv h" "addr_inv h" "keeps h h'" "spaces_inv h'" "timer_step h h'"
  shows "addr_inv h'" "timer_inv h'"
proof -
  show a: "addr_inv h'" using assms(2,3) addr_inv_keeps by blast
  have l: "lossTime (sph_appDataPackets h') \<noteq> 0 \<Longrightarrow> 0 < lastAckElicitingPacketTime (sph_appDataPackets h')"
    using assms(1,3) by (auto simp: timer_inv_def keeps_def)
  have "0 < lastAckElicitingPacketTime (sph_appDataPackets h')" if c: "handshakeConfirmed h'" and al: "alarm h' \<noteq> 0"
  proof -
    have "handshakeConfirmed h" using c assms(3) by (simp add: keeps_def)
    with assms(5) consider "alarm h' = alarm h" | g now where "h' = setLossDetectionTimer g now" by (auto simp: timer_step_def)
    then show ?thesis
    proof cases
      case 1
      then show ?thesis using al assms(1,3) \<open>handshakeConfirmed h\<close> by (auto simp: timer_inv_def keeps_def)
    next
      case 2
      then show ?thesis using setLossDetectionTimer_confirmed [of g now] a assms(4) c al l by simp
    qed
  qed
  with l show "timer_inv h'" by (simp add: timer_inv_def)
qed

lemma updHistory_alarm: "updHistory h l f = Inr h' \<Longrightarrow> alarm h' = alarm h \<and> handshakeConfirmed h' = handshakeConfirmed h
    \<and> peerCompletedAddressValidation h' = peerCompletedAddressValidation h"
  by (auto simp: updHistory_def resultE)

lemma PopPacketNumber_alarm:
  assumes "PopPacketNumber rnd h l = Inr (h', pn)"
  shows "alarm h' = alarm h \<and> handshakeConfirmed h' = handshakeConfirmed h"
proof -
  obtain s where s: "theSpace h l = Inr s" using assms by (auto simp: PopPacketNumber_def resultE)
  obtain g sk n where g: "pns_Pop rnd (pns s) = (g, sk, n)" by (cases "pns_Pop rnd (pns s)")
  show ?thesis using assms by (cases sk) (auto simp: PopPacketNumber_def resultE s g)
qed

lemma sendPacket_timer:
  assumes r: "sendPacket rnd h t la sf fr l ecn size' probe now = Inr h'" and ecn: "markable h ecn"
  shows "timer_step h h'"
proof -
  obtain h1 pn where h1: "PopPacketNumber rnd h l = Inr (h1, pn)" and r1: "sph_SentPacket h1 t pn la sf fr l ecn size' probe now = Inr h'"
    using r by (auto simp: sendPacket_def resultE)
  have ecn1: "markable h1 ecn" using ecn PopPacketNumber_keeps(2) [OF h1] by simp
  obtain s where sp: "theSpace h1 l = Inr s" using r1 by (auto simp: sph_SentPacket_def resultE Let_def)
  obtain n c e g where g: "g = setSpace (h1\<lparr>bytesSent := bytesSent h1 + size', bytesInFlight := bytesInFlight h1 + (if sf \<noteq> [] \<or> fr \<noteq> [] then size' else 0),
        numProbesToSend := n, congestion := c, ecnHandler := e\<rparr>) l
        (if sf \<noteq> [] \<or> fr \<noteq> [] then s\<lparr>largestSent := pn, lastAckElicitingPacketTime := t\<rparr> else s\<lparr>largestSent := pn\<rparr>)"
    and eq: "sph_SentPacket h1 t pn la sf fr l ecn size' probe now =
       (if \<not> (sf \<noteq> [] \<or> fr \<noteq> []) then bindE (updHistory g l (\<lambda>hs. SentNonAckElicitingPacket hs pn)) (\<lambda>h.
          Inr (if \<not> peerCompletedAddressValidation h then setLossDetectionTimer h now else h))
        else bindE (updHistory g l (\<lambda>hs. SentAckElicitingPacket hs (getPacket\<lparr>SendTime := t, PacketNumber := pn, EncryptionLevel := l,
          Length := size', pkt_LargestAcked := la, StreamFrames := sf, Frames := fr, IsPathMTUProbePacket := probe,
          includedInBytesInFlight := True\<rparr>))) (\<lambda>h. Inr (setLossDetectionTimer h now)))"
    by (rule sph_SentPacket_form [OF sp ecn1, where sf = sf and fr = fr and pn = pn and t = t and size' = size' and la = la
        and probe = probe and now = now])
  have "alarm g = alarm h1" by (simp add: g)
  then show ?thesis using r1 PopPacketNumber_alarm [OF h1] unfolding eq timer_step_def
    by (auto simp: resultE split: if_splits dest!: updHistory_alarm)
qed

lemma getLoss_timed:
  assumes "timer_inv h" "getLossTimeAndSpace h = (t, l)" "t \<noteq> 0" "theSpace h l = Inr s"
  shows "timed l s"
  using assms(4) by (rule theSpace_cases) (use assms(1-3) in
    \<open>auto simp: timed_def timer_inv_def getLossTimeAndSpace_def Let_def split: option.splits if_splits\<close>)

lemma OnLossDetectionTimeout_keeps:
  assumes ti: "timer_inv h" and r: "OnLossDetectionTimeout rnd h now = Inr (h', e)"
  shows "keeps h h'" "timer_step h h'"
proof -
  obtain t l where tl: "getLossTimeAndSpace h = (t, l)" by fastforce
  obtain pt pl ok where p: "getPTOTimeAndSpace h now = (pt, pl, ok)" by (cases "getPTOTimeAndSpace h now")
  have "\<exists>g. h' = setLossDetectionTimer g now \<and> keeps h g"
  proof (cases "t = 0")
    case False
    then obtain g where g: "detectLostPackets h now l = Inr g" "h' = setLossDetectionTimer g now"
      using r by (auto simp: OnLossDetectionTimeout_def tl time_IsZero_def resultE)
    obtain s where s: "theSpace h l = Inr s" using getLoss_level [OF tl False] by blast
    show ?thesis using g detectLostPackets_keeps [OF g(1) s getLoss_timed [OF ti tl False s]] by blast
  next
    case True
    define h1 where "h1 = h\<lparr>ptoCount := ptoCount h + 1, numProbesToSend := numProbesToSend h + 2\<rparr>"
    have k1: "keeps h h1" by (simp add: h1_def)
    have app: "keeps h g" if "PopPacketNumber rnd h1 Encryption1RTT = Inr (a, pn)"
        "updHistory a Encryption1RTT f = Inr b" "g = b\<lparr>ptoMode := SendPTOAppData\<rparr>" for a b pn f g
      using that k1 PopPacketNumber_keeps(1) [OF that(1)] updHistory_keeps [OF that(2)] by (auto intro: keeps_trans)
    show ?thesis using r True app unfolding OnLossDetectionTimeout_def tl p h1_def
      by (auto simp: time_IsZero_def Let_def resultE split: if_splits EncryptionLevel.splits)
  qed
  then show "keeps h h'" "timer_step h h'" by (auto simp: timer_step_def)
qed

lemma ReceivedAck_timer:
  assumes inv: "handler_inv h" and a: "addr_inv h" and sp: "theSpace h l = Inr s" and v: "validateAckRanges ack"
    and r: "ReceivedAck h ack l rcvTime now = Inr (h', Inr b)"
  shows "timer_step h h'"
  unfolding timer_step_def
proof
  assume c: "handshakeConfirmed h"
  have nr: "AckRanges ack \<noteq> []" using v by (simp add: validateAckRanges_iff)
  have "peerCompletedAddressValidation h" using a c by (auto simp: addr_inv_def)
  moreover have "sent_inv (history s)" using inv spaces_inv_get [OF _ sp] by (simp add: handler_inv_def space_inv_def)
  then obtain hs low acked e where d: "detectAndRemoveAckedPackets h ack l = Inr (setSpace (h\<lparr>lowestNotConfirmedAcked := low,
        handlerCalls := handlerCalls h @ concat (map ackedCalls acked)\<rparr>) l (s\<lparr>history := hs\<rparr>), acked, e)"
    using detectAndRemove_total [OF sp _ v] by blast
  ultimately show "alarm h' = alarm h \<or> (\<exists>g now. h' = setLossDetectionTimer g now)"
    using r by (auto simp: ReceivedAck_def sp LargestAcked_valid [OF nr] resultE Let_def split: option.splits if_splits)
qed

lemma QueueProbePacket_timer:
  assumes "QueueProbePacket h l = Inr (h', b)"
  shows "timer_step h h'"
  using assms
  by (auto simp: QueueProbePacket_def resultE timer_step_def queueFramesForRetransmission_def removeFromBytesInFlight_def
      split: option.splits if_splits dest!: updHistory_alarm)

text \<open>New packet number spaces and the reset after a Retry.\<close>

lemma newPacketNumberSpace_inv:
  assumes "fairRnd rnd" "0 \<le> initialPN"
  shows "space_inv (newPacketNumberSpace rnd initialPN skip)" "inFlight (history (newPacketNumberSpace rnd initialPN skip)) = 0"
proof -
  have "pns_inv (pns (newPacketNumberSpace rnd initialPN skip)) \<and> pns_next (pns (newPacketNumberSpace rnd initialPN skip)) = initialPN"
    using newSkipping_inv [OF assms(1), of SkipPacketInitialPeriod SkipPacketMaxPeriod initialPN]
    by (simp add: newPacketNumberSpace_def newSequentialPacketNumberGenerator_def SkipPacketInitialPeriod_def SkipPacketMaxPeriod_def)
  moreover have "history (newPacketNumberSpace rnd initialPN skip) = newSentPacketHistory" by (simp add: newPacketNumberSpace_def)
  ultimately show "space_inv (newPacketNumberSpace rnd initialPN skip)" "inFlight (history (newPacketNumberSpace rnd initialPN skip)) = 0"
    using assms(2) newSentPacketHistory_inv
    by (simp_all add: space_inv_def linked_def inFlight_def newPacketNumberSpace_def newSentPacketHistory_def lookup_def InvalidPacketNumber_def)
qed

lemma requeue_all:
  assumes "\<And>p. p \<in> set (present (packets hs)) \<Longrightarrow> packet_ok p"
  shows "\<exists>c. Iterate hs (\<lambda>p h. if \<not> declaredLost p \<and> \<not> skippedPacket p
       then bindE (queueFramesForRetransmission h p) (\<lambda>h. Inr (h, True)) else Inr (h, True)) h = Inr (h\<lparr>handlerCalls := c\<rparr>)"
    and "\<exists>fs c. Iterate hs (\<lambda>p (firstSend, h).
           let firstSend = (if time_IsZero firstSend then SendTime p else firstSend) in
           if declaredLost p \<or> skippedPacket p then Inr ((firstSend, h), True)
           else bindE (queueFramesForRetransmission h p) (\<lambda>h. Inr ((firstSend, h), True))) (0, h) = Inr (fs, h\<lparr>handlerCalls := c\<rparr>)"
proof -
  define I where "I ps g \<longleftrightarrow> (\<forall>p \<in> set (present ps). packet_ok p) \<and> (\<exists>c. g = h\<lparr>handlerCalls := c\<rparr>)" for ps :: "'a packet option list" and g
  have q: "\<exists>c. queueFramesForRetransmission (h\<lparr>handlerCalls := x\<rparr>) p = Inr (h\<lparr>handlerCalls := c\<rparr>)"
    if "packet_ok p" "\<not> skippedPacket p" for x p
    using that by (intro exI [of _ "x @ lostCalls p"]) (auto simp: queueFramesForRetransmission_def packet_ok_def)
  have "\<exists>c. h = h\<lparr>handlerCalls := c\<rparr>" by (rule exI [of _ "handlerCalls h"]) simp
  then have i0: "I (packets hs) h" unfolding I_def using assms by blast
  have "\<exists>g. Iterate hs (\<lambda>p h. if \<not> declaredLost p \<and> \<not> skippedPacket p
       then bindE (queueFramesForRetransmission h p) (\<lambda>h. Inr (h, True)) else Inr (h, True)) h = Inr g \<and> (\<exists>c. g = h\<lparr>handlerCalls := c\<rparr>)"
  proof (rule Iterate_rule [of I])
    fix p ps g assume "I (Some p # ps) g"
    then obtain x where x: "packet_ok p" "\<forall>p \<in> set (present ps). packet_ok p" "g = h\<lparr>handlerCalls := x\<rparr>" by (auto simp: I_def)
    then obtain g' where "\<not> declaredLost p \<Longrightarrow> \<not> skippedPacket p \<Longrightarrow> queueFramesForRetransmission g p = Inr g'" "\<exists>c. g' = h\<lparr>handlerCalls := c\<rparr>"
      using q [of p x] by blast
    with x show "\<exists>g' c. (if \<not> declaredLost p \<and> \<not> skippedPacket p
       then bindE (queueFramesForRetransmission g p) (\<lambda>h. Inr (h, True)) else Inr (g, True)) = Inr (g', c)
        \<and> (if c then I ps g' else \<exists>c. g' = h\<lparr>handlerCalls := c\<rparr>)"
      unfolding I_def by (cases "\<not> declaredLost p \<and> \<not> skippedPacket p") (auto simp del: sentPacketHandler.update_convs)
  qed (use i0 in \<open>auto simp: I_def\<close>)
  then show "\<exists>c. Iterate hs (\<lambda>p h. if \<not> declaredLost p \<and> \<not> skippedPacket p
       then bindE (queueFramesForRetransmission h p) (\<lambda>h. Inr (h, True)) else Inr (h, True)) h = Inr (h\<lparr>handlerCalls := c\<rparr>)" by blast
  define J where "J ps st \<longleftrightarrow> I ps (snd st)" for ps and st :: "time \<times> 'a sentPacketHandler"
  let ?cb = "\<lambda>p (firstSend, h).
           let firstSend = (if time_IsZero firstSend then SendTime p else firstSend) in
           if declaredLost p \<or> skippedPacket p then Inr ((firstSend, h), True)
           else bindE (queueFramesForRetransmission h p) (\<lambda>h. Inr ((firstSend, h), True))"
  have "\<exists>st. Iterate hs ?cb (0, h) = Inr st \<and> (\<exists>c. snd st = h\<lparr>handlerCalls := c\<rparr>)"
  proof (rule Iterate_rule [of J])
    fix p ps and st :: "time \<times> 'a sentPacketHandler" assume "J (Some p # ps) st"
    then obtain fs x where x: "packet_ok p" "\<forall>p \<in> set (present ps). packet_ok p" "st = (fs, h\<lparr>handlerCalls := x\<rparr>)"
      by (cases st) (auto simp: I_def J_def)
    then obtain g' where "\<not> skippedPacket p \<Longrightarrow> queueFramesForRetransmission (h\<lparr>handlerCalls := x\<rparr>) p = Inr g'" "\<exists>c. g' = h\<lparr>handlerCalls := c\<rparr>"
      using q [of p x] by blast
    with x show "\<exists>g' c. ?cb p st = Inr (g', c) \<and> (if c then J ps g' else \<exists>c. snd g' = h\<lparr>handlerCalls := c\<rparr>)"
      unfolding I_def J_def by (cases "declaredLost p \<or> skippedPacket p") (auto simp: Let_def)
  qed (use i0 in \<open>auto simp: I_def J_def\<close>)
  then show "\<exists>fs c. Iterate hs ?cb (0, h) = Inr (fs, h\<lparr>handlerCalls := c\<rparr>)" by force
qed

lemma pns_Peek_nonneg: "space_inv s \<Longrightarrow> 0 \<le> pns_Peek (pns s)"
proof -
  assume s: "space_inv s"
  have f: "fairRnd (\<lambda>n. 0)" by (simp add: fairRnd_def)
  obtain g sk pn where p: "pns_Pop (\<lambda>n. 0) (pns s) = (g, sk, pn)" by (cases "pns_Pop (\<lambda>n. 0) (pns s)")
  show ?thesis using pnsgen.pop_step [OF f _ p] s by (auto simp: space_inv_def linked_def split: if_splits)
qed

lemma ResetForRetry_ok:
  assumes inv: "handler_inv h" and ini: "sph_initialPackets h = Some ini" and r: "fairRnd rnd"
    and hs: "opt_flight (sph_handshakePackets h) = 0"
  shows "\<exists>c rtt. rtt_inv rtt \<and> ResetForRetry rnd h now = Inr (h\<lparr>bytesInFlight := 0, handlerCalls := c, rttStats := rtt,
      sph_initialPackets := Some (newPacketNumberSpace rnd (pns_Peek (pns ini)) False),
      sph_appDataPackets := newPacketNumberSpace rnd (pns_Peek (pns (sph_appDataPackets h))) True, alarm := 0, ptoCount := 0\<rparr>)"
    and "handler_inv (h\<lparr>bytesInFlight := 0, handlerCalls := c, rttStats := rtt,
      sph_initialPackets := Some (newPacketNumberSpace rnd (pns_Peek (pns ini)) False),
      sph_appDataPackets := newPacketNumberSpace rnd (pns_Peek (pns (sph_appDataPackets h))) True, alarm := 0, ptoCount := 0\<rparr>)
      = rtt_inv rtt"
proof -
  have si: "space_inv ini" "space_inv (sph_appDataPackets h)" "opt_inv (sph_handshakePackets h)"
    using inv ini by (auto simp: handler_inv_def spaces_inv_def)
  have ok: "packet_ok p" if "p \<in> set (present (packets (history s)))" "space_inv s" for p s
    using that present_lookup [of "history s" p] by (auto simp: space_inv_def)
  have sp: "theSpace (h\<lparr>bytesInFlight := 0\<rparr>) EncryptionInitial = Inr ini" using ini by (simp add: theSpace_def getPacketNumberSpace_def)
  obtain fs k where k: "Iterate (history ini) (\<lambda>p (firstSend, h).
           let firstSend = (if time_IsZero firstSend then SendTime p else firstSend) in
           if declaredLost p \<or> skippedPacket p then Inr ((firstSend, h), True)
           else bindE (queueFramesForRetransmission h p) (\<lambda>h. Inr ((firstSend, h), True))) (0, h\<lparr>bytesInFlight := 0\<rparr>)
         = Inr (fs, h\<lparr>bytesInFlight := 0, handlerCalls := k\<rparr>)"
    using requeue_all(2) [of "history ini" "h\<lparr>bytesInFlight := 0\<rparr>"] ok si(1) by blast
  obtain k' where k': "Iterate (history (sph_appDataPackets h)) (\<lambda>p h. if \<not> declaredLost p \<and> \<not> skippedPacket p
       then bindE (queueFramesForRetransmission h p) (\<lambda>h. Inr (h, True)) else Inr (h, True)) (h\<lparr>bytesInFlight := 0, handlerCalls := k\<rparr>)
      = Inr (h\<lparr>bytesInFlight := 0, handlerCalls := k'\<rparr>)"
    using requeue_all(1) [of "history (sph_appDataPackets h)" "h\<lparr>bytesInFlight := 0, handlerCalls := k\<rparr>"] ok si(2) by auto
  have i: "rtt_inv (rttStats h)" "rtt_inv (UpdateRTT (rttStats h) (max minRTTAfterRetry (time_Sub now fs)) 0)"
    using inv UpdateRTT_inv by (auto simp: handler_inv_def)
  show "\<exists>c rtt. rtt_inv rtt \<and> ResetForRetry rnd h now = Inr (h\<lparr>bytesInFlight := 0, handlerCalls := c, rttStats := rtt,
      sph_initialPackets := Some (newPacketNumberSpace rnd (pns_Peek (pns ini)) False),
      sph_appDataPackets := newPacketNumberSpace rnd (pns_Peek (pns (sph_appDataPackets h))) True, alarm := 0, ptoCount := 0\<rparr>)"
    by (intro exI [of _ k'] exI [of _ "if ptoCount h = 0 then UpdateRTT (rttStats h) (max minRTTAfterRetry (time_Sub now fs)) 0 else rttStats h"])
      (use sp k k' i in \<open>simp add: ResetForRetry_def\<close>)
  show "handler_inv (h\<lparr>bytesInFlight := 0, handlerCalls := c, rttStats := rtt,
      sph_initialPackets := Some (newPacketNumberSpace rnd (pns_Peek (pns ini)) False),
      sph_appDataPackets := newPacketNumberSpace rnd (pns_Peek (pns (sph_appDataPackets h))) True, alarm := 0, ptoCount := 0\<rparr>)
      = rtt_inv rtt"
    using si hs by (simp add: handler_inv_def spaces_inv_def total_flight_def newPacketNumberSpace_inv [OF r pns_Peek_nonneg [OF si(1)]]
        newPacketNumberSpace_inv [OF r pns_Peek_nonneg [OF si(2)]])
qed

subsection \<open>Reachable states\<close>

lemma reach_inv_step: "reach_inv h \<Longrightarrow> handler_inv h' \<Longrightarrow> keeps h h' \<Longrightarrow> timer_step h h' \<Longrightarrow> reach_inv h'"
  using timer_inv_step [of h h'] by (simp add: reach_inv_def handler_inv_def)

lemma new_reach_inv:
  assumes "fairRnd rnd" "0 \<le> initialPN" "rtt_inv rtt"
  shows "reach_inv (newSentPacketHandler rnd initialPN mds rtt validated enable pers)"
  using assms by (auto simp: reach_inv_def handler_inv_def spaces_inv_def total_flight_def addr_inv_def timer_inv_def
      newSentPacketHandler_def newPacketNumberSpace_inv) (simp add: newPacketNumberSpace_def)

lemma ReceivedBytes_reach_inv: "reach_inv h \<Longrightarrow> reach_inv (ReceivedBytes h n now)"
  by (rule reach_inv_step) (auto simp: ReceivedBytes_def Let_def timer_step_def reach_inv_def handler_inv_def)

lemma sph_ReceivedPacket_reach_inv: "reach_inv h \<Longrightarrow> reach_inv (sph_ReceivedPacket h l now)"
  by (rule reach_inv_step) (auto simp: sph_ReceivedPacket_def timer_step_def reach_inv_def handler_inv_def)

lemma ECNMode_reach_inv: "reach_inv h \<Longrightarrow> ECNMode h short = Inr (h', e) \<Longrightarrow> reach_inv h'"
  by (rule reach_inv_step) (auto simp: ECNMode_def timer_step_def reach_inv_def handler_inv_def Let_def
      split: if_splits option.splits prod.splits)

lemma SetMaxDatagramSize_reach_inv: "reach_inv h \<Longrightarrow> sph_SetMaxDatagramSize h n = Inr h' \<Longrightarrow> reach_inv h'"
  by (rule reach_inv_step) (auto simp: sph_SetMaxDatagramSize_def resultE timer_step_def reach_inv_def handler_inv_def)

lemma SetHandshakeConfirmed_reach_inv:
  assumes "reach_inv h" "SetHandshakeConfirmed h now = Inr h'"
  shows "reach_inv h'"
proof -
  define g where "g = h\<lparr>handshakeConfirmed := True\<rparr>"
  have h': "h' = setLossDetectionTimer g now" "sph_initialPackets h = None" "sph_handshakePackets h = None"
    using assms(2) by (auto simp: SetHandshakeConfirmed_def g_def split: if_splits)
  have g: "handler_inv g" "addr_inv g"
    using assms(1) h'(2,3) by (auto simp: g_def reach_inv_def handler_inv_def addr_inv_def spaces_inv_def total_flight_def)
  have "lossTime (sph_appDataPackets g) \<noteq> 0 \<Longrightarrow> 0 < lastAckElicitingPacketTime (sph_appDataPackets g)"
    using assms(1) by (auto simp: g_def reach_inv_def timer_inv_def)
  then have "timer_inv h'" using setLossDetectionTimer_confirmed [of g now] g by (auto simp: h' timer_inv_def handler_inv_def)
  then show ?thesis using g by (simp add: reach_inv_def h')
qed

lemma DropPackets_reach_inv:
  assumes inv: "reach_inv h" and l: "l \<in> {EncryptionInitial, EncryptionHandshake, Encryption0RTT}" and r: "sph_DropPackets h l now = Inr h'"
  shows "reach_inv h'"
proof -
  have hi: "handler_inv h'" using DropPackets_ok [of h l now] inv l r by (auto simp: reach_inv_def)
  have fk: "keeps k g" if "Iterate hs (\<lambda>p h. bindE (removeFromBytesInFlight h p) (\<lambda>h. Inr (h, True))) k = Inr g"
    for hs and k g :: "'a sentPacketHandler"
    by (rule Iterate_keeps [OF _ that]) (auto simp: resultE dest: removeFromBytesInFlight_keeps)
  have dropped: ?thesis if "keeps h g" "addr_inv h'" "\<not> handshakeConfirmed h" "handshakeConfirmed h' = handshakeConfirmed g"
    "sph_appDataPackets h' = sph_appDataPackets g" for g
    using that inv hi by (auto simp: reach_inv_def timer_inv_def keeps_def)
  consider (ini) "l = EncryptionInitial" | (hs) "l = EncryptionHandshake" | (z) "l = Encryption0RTT" using l by auto
  then show ?thesis
  proof cases
    case ini
    show ?thesis
    proof (cases "sph_initialPackets h")
      case None
      then show ?thesis using r inv ini by (simp add: sph_DropPackets_def)
    next
      case (Some s)
      then obtain g where g: "keeps h g" "h' = setLossDetectionTimer (g\<lparr>sph_initialPackets := None, ptoCount := 0, numProbesToSend := 0, ptoMode := SendNone\<rparr>) now"
        using r ini by (auto simp: sph_DropPackets_def resultE dest!: fk)
      have "\<not> handshakeConfirmed h" using Some inv by (auto simp: reach_inv_def addr_inv_def)
      moreover have "addr_inv (g\<lparr>sph_initialPackets := None, ptoCount := 0, numProbesToSend := 0, ptoMode := SendNone\<rparr>)"
        using addr_inv_keeps [OF g(1)] inv by (auto simp: reach_inv_def addr_inv_def)
      ultimately show ?thesis by (intro dropped [OF g(1)]) (simp_all add: g(2))
    qed
  next
    case hs
    define h1 where "h1 = (if perspective h = PerspectiveClient then h\<lparr>peerCompletedAddressValidation := True\<rparr> else h)"
    have k1: "keeps h h1" by (simp add: h1_def)
    have a1: "peerCompletedAddressValidation h1" using inv by (cases "perspective h") (auto simp: h1_def reach_inv_def addr_inv_def)
    show ?thesis
    proof (cases "sph_handshakePackets h")
      case None
      then have "h' = h1" using r hs by (auto simp: sph_DropPackets_def h1_def)
      then show ?thesis using inv k1 hi by (intro reach_inv_step [OF inv]) (auto simp: timer_step_def h1_def)
    next
      case (Some s)
      have eq: "sph_DropPackets h l now = bindE (Iterate (history s) (\<lambda>p h. bindE (removeFromBytesInFlight h p) (\<lambda>h. Inr (h, True))) h1)
          (\<lambda>h. Inr (setLossDetectionTimer (h\<lparr>sph_handshakePackets := None, ptoCount := 0, numProbesToSend := 0, ptoMode := SendNone\<rparr>) now))"
        using hs Some by (simp add: sph_DropPackets_def h1_def)
      obtain g where g: "keeps h1 g" "h' = setLossDetectionTimer (g\<lparr>sph_handshakePackets := None, ptoCount := 0, numProbesToSend := 0, ptoMode := SendNone\<rparr>) now"
        using r unfolding eq by (auto simp: resultE dest!: fk)
      have kg: "keeps h g" using k1 g(1) by (rule keeps_trans)
      have "peerCompletedAddressValidation g" using g(1) a1 by (simp add: keeps_def)
      moreover have c: "\<not> handshakeConfirmed h" using Some inv by (auto simp: reach_inv_def addr_inv_def)
      ultimately have "addr_inv (g\<lparr>sph_handshakePackets := None, ptoCount := 0, numProbesToSend := 0, ptoMode := SendNone\<rparr>)"
        using kg by (simp add: addr_inv_def keeps_def)
      then show ?thesis using c by (intro dropped [OF kg]) (simp_all add: g(2))
    qed
  next
    case z
    have cb: "keeps k g" if "drop0RTT_cb p k = Inr (g, c)" for p k c and g :: "'a sentPacketHandler"
      using that by (auto simp: drop0RTT_cb_def resultE keeps_def removeFromBytesInFlight_def split: if_splits sum.splits error.splits)
    obtain g where g: "keeps h g" "h' = setLossDetectionTimer (g\<lparr>ptoCount := 0, numProbesToSend := 0, ptoMode := SendNone\<rparr>) now"
      using r z by (auto simp: sph_DropPackets_def resultE dest!: Iterate_keeps [rotated, OF _ cb])
    then show ?thesis using hi by (intro reach_inv_step [OF inv]) (auto simp: timer_step_def)
  qed
qed

lemma ReceivedAck_rejected:
  assumes inv: "handler_inv h" and sp: "theSpace h l = Inr s" and v: "validateAckRanges ack"
  shows "largestSent s < Largest (AckRanges ack ! 0) \<Longrightarrow>
      ReceivedAck h ack l rcvTime now = Inr (h, Inl (TransportError ProtocolViolation 0))"
    and "Largest (AckRanges ack ! 0) \<le> largestSent s \<Longrightarrow> list_ex skippedPacket (ackedPackets ack s) \<Longrightarrow>
      \<exists>h'. ReceivedAck h ack l rcvTime now = Inr (h', Inl (TransportError ProtocolViolation 0))"
    and "Largest (AckRanges ack ! 0) \<le> largestSent s \<Longrightarrow> ackedPackets ack s = [] \<Longrightarrow>
      \<exists>h' s'. ReceivedAck h ack l rcvTime now = Inr (h', Inr False) \<and> handler_inv h' \<and> theSpace h' l = Inr s'
        \<and> lookup (history s') = lookup (history s) \<and> handlerCalls h' = handlerCalls h"
proof -
  let ?largest = "Largest (AckRanges ack ! 0)"
  have nr: "AckRanges ack \<noteq> []" using v by (simp add: validateAckRanges_iff)
  have hi: "sent_inv (history s)" using inv spaces_inv_get [OF _ sp] by (auto simp: handler_inv_def space_inv_def)
  obtain h0 where h0: "h0 = (if perspective h = PerspectiveClient \<and> \<not> peerCompletedAddressValidation h
                  \<and> (l = EncryptionHandshake \<or> l = Encryption1RTT)
                then setLossDetectionTimer (h\<lparr>peerCompletedAddressValidation := True\<rparr>) now else h)" by simp
  have h0': "handler_inv h0" "theSpace h0 l = Inr s" "handlerCalls h0 = handlerCalls h" using inv sp by (auto simp: h0 handler_inv_def)
  obtain hs low acked where d: "detectAndRemoveAckedPackets h0 ack l = Inr (setSpace (h0\<lparr>lowestNotConfirmedAcked := low,
        handlerCalls := handlerCalls h0 @ concat (map ackedCalls acked)\<rparr>) l (s\<lparr>history := hs\<rparr>),
        acked, if list_ex skippedPacket (ackedPackets ack s) then Some (TransportError ProtocolViolation 0) else None)"
      "removes (history s) acked hs" "acked = takeWhile (\<lambda>p. \<not> skippedPacket p) (ackedPackets ack s)"
    using detectAndRemove_total [OF h0'(2) hi v] by blast
  show "largestSent s < ?largest \<Longrightarrow> ReceivedAck h ack l rcvTime now = Inr (h, Inl (TransportError ProtocolViolation 0))"
    by (simp add: ReceivedAck_def sp LargestAcked_valid [OF nr])
  have eq: "?largest \<le> largestSent s \<Longrightarrow> ReceivedAck h ack l rcvTime now = (case (if list_ex skippedPacket (ackedPackets ack s) then Some (TransportError ProtocolViolation 0) else None) of
      Some e \<Rightarrow> Inr (setSpace (h0\<lparr>lowestNotConfirmedAcked := low,
        handlerCalls := handlerCalls h0 @ concat (map ackedCalls acked)\<rparr>) l (s\<lparr>history := hs\<rparr>), Inl e)
      | None \<Rightarrow> if acked = [] then Inr (setSpace (h0\<lparr>lowestNotConfirmedAcked := low,
        handlerCalls := handlerCalls h0 @ concat (map ackedCalls acked)\<rparr>) l (s\<lparr>history := hs\<rparr>), Inr False)
        else ackTail ack l rcvTime now ?largest (largestAcked s) (bytesInFlight h0) acked (setSpace (h0\<lparr>lowestNotConfirmedAcked := low,
        handlerCalls := handlerCalls h0 @ concat (map ackedCalls acked)\<rparr>) l (s\<lparr>history := hs\<rparr>)))"
    unfolding ReceivedAck_def sp LargestAcked_valid [OF nr] bindE_simps h0 [symmetric] Let_def
    using d(1) by (simp add: ackTail_def Let_def cong: option.case_cong)
  show "?largest \<le> largestSent s \<Longrightarrow> list_ex skippedPacket (ackedPackets ack s) \<Longrightarrow>
      \<exists>h'. ReceivedAck h ack l rcvTime now = Inr (h', Inl (TransportError ProtocolViolation 0))" by (simp add: eq)
  assume la: "?largest \<le> largestSent s" and none: "ackedPackets ack s = []"
  then have a: "acked = []" using d(3) by simp
  have sm: "sent_inv hs" "highestPacketNumber hs = highestPacketNumber (history s)"
    using d(2) a by (auto simp: removes_def)
  have si: "space_inv s" using inv spaces_inv_get [OF _ sp] by (auto simp: handler_inv_def)
  define h1 where "h1 = setSpace (h0\<lparr>lowestNotConfirmedAcked := low, handlerCalls := handlerCalls h0\<rparr>) l (s\<lparr>history := hs\<rparr>)"
  have h1: "detectAndRemoveAckedPackets h0 ack l = Inr (h1, [], None)" using d(1) a none by (simp add: h1_def)
  have "processAcked l [] h0 = Inr (h0, None)" by simp
  moreover obtain st where st: "Iterate (history s) (detectAcked_cb ack (Smallest (AckRanges ack ! (length (AckRanges ack) - 1)))
      ?largest) ([], 0, None) = Inr st" "scanResult ack (present (packets (history s))) st"
    using detectAcked_scan [OF v hi] by blast
  then obtain i where "st = ([], i, None)"
    using none by (cases st) (auto simp: scanResult_def ackedPackets_def Let_def)
  ultimately have "detectAndRemoveAckedPackets h0 ack l = Inr (h0, [], None)"
    using st(1) by (simp add: detectAndRemoveAckedPackets_def h0' LargestAcked_valid [OF nr] LowestAcked_valid [OF nr])
  then have "h1 = h0" using h1 by simp
  then have "ReceivedAck h ack l rcvTime now = Inr (h0, Inr False)" using la none a by (simp add: eq h1_def)
  then show "\<exists>h' s'. ReceivedAck h ack l rcvTime now = Inr (h', Inr False) \<and> handler_inv h' \<and> theSpace h' l = Inr s'
        \<and> lookup (history s') = lookup (history s) \<and> handlerCalls h' = handlerCalls h" using h0' by auto
qed

lemma ReceivedAck_inv:
  assumes inv: "reach_inv h" and sp: "theSpace h l = Inr s" and v: "validateAckRanges ack" and d: "0 \<le> DelayTime ack"
    and r: "ReceivedAck h ack l rcvTime now = Inr (h', Inr b)"
  shows "reach_inv h'"
proof -
  have hi: "handler_inv h" using inv by (simp add: reach_inv_def)
  consider "largestSent s < Largest (AckRanges ack ! 0)" | "Largest (AckRanges ack ! 0) \<le> largestSent s" "list_ex skippedPacket (ackedPackets ack s)"
    | "Largest (AckRanges ack ! 0) \<le> largestSent s" "ackedPackets ack s = []"
    | "Largest (AckRanges ack ! 0) \<le> largestSent s" "\<not> list_ex skippedPacket (ackedPackets ack s)" "ackedPackets ack s \<noteq> []" by linarith
  then have "handler_inv h'"
  proof cases
    case 4
    then show ?thesis using ReceivedAck_ok [OF hi sp v d 4(1,2,3), of rcvTime now] r by auto
  qed (use ReceivedAck_rejected [OF hi sp v, of rcvTime now] r in auto)
  then show ?thesis using ReceivedAck_keeps [OF hi sp v r] ReceivedAck_timer [OF hi _ sp v r] inv
    by (intro reach_inv_step [OF inv]) (auto simp: reach_inv_def)
qed

lemma sph_reachable_inv: "sph_reachable h \<Longrightarrow> reach_inv h"
proof (induction rule: sph_reachable.induct)
  case (send h l s rnd t size' ecn la sf fr probe now h')
  then have hi: "handler_inv h" by (simp add: reach_inv_def)
  have "handler_inv h'" using sendPacket_ok [OF hi send(2,3,4,5,6), where la = la and sf = sf and fr = fr and probe = probe and now = now] send(7) by auto
  then show ?case using sendPacket_keeps [OF send(7,4,6)] sendPacket_timer [OF send(7,6)] by (rule reach_inv_step [OF send.IH])
next
  case (ack h l s ack rcvTime now h' b)
  then show ?case using ReceivedAck_inv by blast
next
  case (timeout h rnd now h')
  then have i: "handler_inv h" "addr_inv h" "timer_inv h" by (simp_all add: reach_inv_def)
  have "handshakeConfirmed h \<Longrightarrow> 0 < lastAckElicitingPacketTime (sph_appDataPackets h)" using i(3) timeout(2) by (simp add: timer_inv_def)
  then have "handler_inv h'" using OnLossDetectionTimeout_ok [OF i(1,2) timeout(3), of now] timeout(4) by auto
  then show ?case using OnLossDetectionTimeout_keeps [OF i(3) timeout(4)] by (intro reach_inv_step [OF timeout.IH])
next
  case (probe h l s h' b)
  then have hi: "handler_inv h" by (simp add: reach_inv_def)
  have "handler_inv h'" using QueueProbePacket_ok [OF hi probe(2)] probe(3) by auto
  then show ?case using QueueProbePacket_keeps [OF probe(3)] QueueProbePacket_timer [OF probe(3)] by (rule reach_inv_step [OF probe.IH])
next
  case (retry h ini rnd now h')
  then have i: "handler_inv h" "addr_inv h" by (simp_all add: reach_inv_def)
  obtain c rtt where "rtt_inv rtt" and h': "h' = h\<lparr>bytesInFlight := 0, handlerCalls := c, rttStats := rtt,
      sph_initialPackets := Some (newPacketNumberSpace rnd (pns_Peek (pns ini)) False),
      sph_appDataPackets := newPacketNumberSpace rnd (pns_Peek (pns (sph_appDataPackets h))) True, alarm := 0, ptoCount := 0\<rparr>"
    using ResetForRetry_ok(1) [OF i(1) retry(2,3,4), of now] retry(5) by auto
  then have "handler_inv h'" using ResetForRetry_ok(2) [OF i(1) retry(2,3,4)] by simp
  moreover have "addr_inv h'" "timer_inv h'" using i(2) retry(2) by (auto simp: h' addr_inv_def timer_inv_def) (simp_all add: newPacketNumberSpace_def)
  ultimately show ?case by (simp add: reach_inv_def)
qed (auto intro: new_reach_inv ReceivedBytes_reach_inv sph_ReceivedPacket_reach_inv ECNMode_reach_inv
    SetMaxDatagramSize_reach_inv SetHandshakeConfirmed_reach_inv DropPackets_reach_inv)

subsection \<open>Probe timeouts\<close>

lemma getScaledPTO_bounds: "0 < getScaledPTO h b" "getScaledPTO h b \<le> maxPTODuration"
  by (auto simp: getScaledPTO_def Let_def maxPTODuration_def)

lemma getScaledPTO_exact:
  assumes "rtt_inv (rttStats h)" "PTO (rttStats h) b * 2 ^ unat (ptoCount h) < 2 ^ 63"
  shows "getScaledPTO h b = min maxPTODuration (PTO (rttStats h) b * 2 ^ unat (ptoCount h))"
proof -
  have p: "0 < PTO (rttStats h) b * 2 ^ unat (ptoCount h)" using PTO_pos [OF assms(1)] by simp
  then have "wrap64 (push_bit (unat (ptoCount h)) (PTO (rttStats h) b)) = PTO (rttStats h) b * 2 ^ unat (ptoCount h)"
    using assms(2) by (simp add: push_bit_eq_mult wrap64_id)
  then show ?thesis using p by (simp add: getScaledPTO_def Let_def min_def)
qed

lemma deadline_nonneg: "opt_inv s \<Longrightarrow> 0 \<le> deadline h b s"
  using getScaledPTO_bounds(1) [of h b] by (cases s) (auto simp: space_inv_def)

lemma earlier_least:
  assumes "0 \<le> p" "0 \<le> t"
  shows "0 \<le> earlier p t" "0 < p \<Longrightarrow> 0 < earlier p t \<and> earlier p t \<le> p" "0 < t \<Longrightarrow> 0 < earlier p t \<and> earlier p t \<le> t"
  using assms by (auto simp: earlier_def)

lemma getPTO_earliest:
  assumes "handshakeConfirmed h \<or> hasOutstandingCryptoPackets h" "spaces_inv h"
  shows "\<exists>k. getPTOTimeAndSpace h now = (earlier (earlier (deadline h False (sph_initialPackets h)) (deadline h False (sph_handshakePackets h)))
      (if handshakeConfirmed h then deadline h True (Some (sph_appDataPackets h)) else 0), k, True)"
proof -
  have pos: "lastAckElicitingPacketTime s + getScaledPTO h x \<noteq> 0" if "opt_inv (Some s)" "lastAckElicitingPacketTime s \<noteq> 0" for s x
    using that getScaledPTO_bounds(1) [of h x] by (auto simp: space_inv_def)
  have inv: "opt_inv (sph_initialPackets h)" "opt_inv (sph_handshakePackets h)" "opt_inv (Some (sph_appDataPackets h))"
    using assms(2) by (auto simp: spaces_inv_def)
  define e where "e p l t k = (if time_IsZero p \<or> (\<not> time_IsZero t \<and> t < p) then (t, k) else (p, l))"
    for p t :: "time" and l k :: EncryptionLevel
  have e: "\<exists>m. e p l t k = (earlier p t, m)" if "t \<noteq> 0" for p l t k
    using that by (auto simp: e_def earlier_def time_IsZero_def)
  obtain pi li where i: "(case sph_initialPackets h of
                None \<Rightarrow> (0, EncryptionUnset)
              | Some s \<Rightarrow>
                  if time_IsZero (lastAckElicitingPacketTime s) then (0, EncryptionInitial)
                  else (time_Add (lastAckElicitingPacketTime s) (getScaledPTO h False), EncryptionInitial)) = (pi, li)"
    "pi = deadline h False (sph_initialPackets h)"
    by (cases "sph_initialPackets h") (auto simp: time_IsZero_def time_Add_def)
  obtain ph lh where hs: "(case sph_handshakePackets h of
                None \<Rightarrow> (pi, li)
              | Some s \<Rightarrow>
                  if time_IsZero (lastAckElicitingPacketTime s) then (pi, li)
                  else e pi li (time_Add (lastAckElicitingPacketTime s) (getScaledPTO h False)) EncryptionHandshake) = (ph, lh)"
    "ph = earlier pi (deadline h False (sph_handshakePackets h))"
  proof (cases "sph_handshakePackets h")
    case (Some s)
    then show ?thesis using that inv(2) pos [of s False] e [of "lastAckElicitingPacketTime s + getScaledPTO h False" pi li EncryptionHandshake]
      by (cases "lastAckElicitingPacketTime s = 0") (auto simp: time_IsZero_def time_Add_def earlier_def)
  qed (use that in \<open>auto simp: earlier_def\<close>)
  obtain pa la where a: "(if handshakeConfirmed h \<and> \<not> time_IsZero (lastAckElicitingPacketTime (sph_appDataPackets h)) then
                  e ph lh (time_Add (lastAckElicitingPacketTime (sph_appDataPackets h)) (getScaledPTO h True)) Encryption1RTT
                else (ph, lh)) = (pa, la)"
    "pa = earlier ph (if handshakeConfirmed h then deadline h True (Some (sph_appDataPackets h)) else 0)"
  proof (cases "handshakeConfirmed h \<and> lastAckElicitingPacketTime (sph_appDataPackets h) \<noteq> 0")
    case True
    then show ?thesis using that pos [OF inv(3), of True]
        e [of "lastAckElicitingPacketTime (sph_appDataPackets h) + getScaledPTO h True" ph lh Encryption1RTT]
      by (auto simp: time_IsZero_def time_Add_def)
  qed (use that in \<open>auto simp: earlier_def time_IsZero_def\<close>)
  have "getPTOTimeAndSpace h now = (pa, la, True)"
    unfolding getPTOTimeAndSpace_def Let_def i(1) prod.case hs(1) [unfolded e_def] a(1) [unfolded e_def] using assms(1) by auto
  then show ?thesis using a(2) hs(2) i(2) by auto
qed

lemma getPTO_armed:
  assumes si: "spaces_inv h" and sp: "theSpace h l = Inr s" and t: "0 < lastAckElicitingPacketTime s"
    and l: "l \<in> {EncryptionInitial, EncryptionHandshake} \<and> HasOutstandingPackets (history s) \<or> handshakeConfirmed h"
  shows "\<exists>p k. getPTOTimeAndSpace h now = (p, k, True) \<and> 0 < p \<and> p \<le> lastAckElicitingPacketTime s + maxPTODuration"
proof -
  define di dh da where d: "di = deadline h False (sph_initialPackets h)" "dh = deadline h False (sph_handshakePackets h)"
    "da = (if handshakeConfirmed h then deadline h True (Some (sph_appDataPackets h)) else 0)"
  have nn: "0 \<le> di" "0 \<le> dh" "0 \<le> da"
    using si deadline_nonneg unfolding d by (auto simp: spaces_inv_def simp del: deadline.simps intro!: deadline_nonneg)
  have c: "handshakeConfirmed h \<or> hasOutstandingCryptoPackets h"
    using sp l by (auto elim!: theSpace_cases simp: hasOutstandingCryptoPackets_def)
  obtain x where x: "x \<in> {di, dh, da}" "0 < x" "x \<le> lastAckElicitingPacketTime s + maxPTODuration"
  proof -
    have "\<exists>x \<in> {di, dh, da}. \<exists>b. x = lastAckElicitingPacketTime s + getScaledPTO h b"
      using sp by (rule theSpace_cases) (use l t in \<open>auto simp: d\<close>)
    then show ?thesis using that t getScaledPTO_bounds [of h] by (smt (verit))
  qed
  have "0 < earlier (earlier di dh) da \<and> earlier (earlier di dh) da \<le> x"
    using x(1,2) earlier_least [OF nn(1,2)] earlier_least [OF earlier_least(1) [OF nn(1,2)] nn(3)] by force
  then show ?thesis using getPTO_earliest [OF c si, of now, folded d] x(3) by auto
qed

lemma getLoss_nonneg: "spaces_inv h \<Longrightarrow> 0 \<le> fst (getLossTimeAndSpace h)"
  by (auto simp: getLossTimeAndSpace_def spaces_inv_def space_inv_def Let_def split: option.splits)

lemma setLossDetectionTimer_armed:
  assumes si: "spaces_inv g" and sp: "theSpace g l = Inr s" and t: "0 < lastAckElicitingPacketTime s"
    and o: "HasOutstandingPackets (history s)" and l: "l \<in> {EncryptionInitial, EncryptionHandshake} \<or> handshakeConfirmed g"
    and a: "\<not> isAmplificationLimited g"
  shows "0 < alarm (setLossDetectionTimer g now)"
    "fst (getLossTimeAndSpace g) = 0 \<Longrightarrow> alarm (setLossDetectionTimer g now) \<le> lastAckElicitingPacketTime s + maxPTODuration"
proof -
  obtain p k where p: "getPTOTimeAndSpace g now = (p, k, True)" "0 < p" "p \<le> lastAckElicitingPacketTime s + maxPTODuration"
    using getPTO_armed [OF si sp t] l o by blast
  have "hasOutstandingPackets g" using sp o
    by (auto elim!: theSpace_cases simp: hasOutstandingPackets_def hasOutstandingCryptoPackets_def)
  moreover obtain x y where xy: "getLossTimeAndSpace g = (x, y)" by fastforce
  ultimately have "alarm (setLossDetectionTimer g now) = (if x \<noteq> 0 then x else p)"
    using a p(1) by (simp add: setLossDetectionTimer_def time_IsZero_def)
  then show "0 < alarm (setLossDetectionTimer g now)"
    "fst (getLossTimeAndSpace g) = 0 \<Longrightarrow> alarm (setLossDetectionTimer g now) \<le> lastAckElicitingPacketTime s + maxPTODuration"
    using p(2,3) getLoss_nonneg [OF si] xy by auto
qed

lemma timer_preserves [simp]:
  "isAmplificationLimited (setLossDetectionTimer g now) = isAmplificationLimited g"
  "getLossTimeAndSpace (setLossDetectionTimer g now) = getLossTimeAndSpace g"
  by (rule setLossDetectionTimer_alarm [of g now]; simp add: isAmplificationLimited_def getLossTimeAndSpace_def)+

lemma updHistory_counts: "updHistory h l f = Inr h' \<Longrightarrow> bytesSent h' = bytesSent h \<and> bytesReceived h' = bytesReceived h
    \<and> peerAddressValidated h' = peerAddressValidated h"
  by (auto simp: updHistory_def resultE)

lemma sph_SentPacket_counts:
  assumes r: "sph_SentPacket h t pn la sf fr l ecn size' probe now = Inr h'"
  shows "bytesSent h' = bytesSent h + size' \<and> bytesReceived h' = bytesReceived h \<and> peerAddressValidated h' = peerAddressValidated h"
proof -
  obtain s where sp: "theSpace h l = Inr s" using r by (auto simp: sph_SentPacket_def bindE_def split: sum.splits)
  show ?thesis
  proof (cases "sf = [] \<and> fr = []")
    case True
    then show ?thesis using r sp
      by (cases "ecnHandler h"; cases "l = Encryption1RTT"; cases "peerCompletedAddressValidation h")
        (auto simp: sph_SentPacket_def resultE split: if_splits dest!: updHistory_counts)
  next
    case False
    then show ?thesis using r sp
      by (cases "ecnHandler h"; cases "l = Encryption1RTT"; cases "0 < numProbesToSend h")
        (auto simp: sph_SentPacket_def resultE dest!: updHistory_counts)
  qed
qed

lemma sendPacket_counts:
  assumes "sendPacket rnd h t la sf fr l ecn size' probe now = Inr h'"
  shows "bytesSent h' = bytesSent h + size' \<and> bytesReceived h' = bytesReceived h \<and> peerAddressValidated h' = peerAddressValidated h"
proof -
  obtain h1 pn where h1: "PopPacketNumber rnd h l = Inr (h1, pn)" and r1: "sph_SentPacket h1 t pn la sf fr l ecn size' probe now = Inr h'"
    using assms by (auto simp: sendPacket_def resultE)
  obtain s where s: "theSpace h l = Inr s" using h1 by (auto simp: PopPacketNumber_def resultE)
  obtain g sk n where g: "pns_Pop rnd (pns s) = (g, sk, n)" by (cases "pns_Pop rnd (pns s)")
  have "bytesSent h1 = bytesSent h \<and> bytesReceived h1 = bytesReceived h \<and> peerAddressValidated h1 = peerAddressValidated h"
    using h1 by (cases sk) (auto simp: PopPacketNumber_def resultE s g)
  then show ?thesis using sph_SentPacket_counts [OF r1] by simp
qed

lemma sendDatagram_counts:
  assumes "sendDatagram rnd h t ps now = Inr h'"
  shows "bytesSent h' = bytesSent h + (\<Sum>(la, sf, fr, l, ecn, size')\<leftarrow>ps. size') \<and> bytesReceived h' = bytesReceived h
    \<and> peerAddressValidated h' = peerAddressValidated h"
  using assms
proof (induction ps arbitrary: h)
  case (Cons p ps)
  obtain la sf fr l ecn size' where p: "p = (la, sf, fr, l, ecn, size')" by (cases p)
  obtain h1 where "sendPacket rnd h t la sf fr l ecn size' False now = Inr h1" "sendDatagram rnd h1 t ps now = Inr h'"
    using Cons.prems by (auto simp: p resultE)
  then show ?case using sendPacket_counts [of rnd h t la sf fr l ecn size' False now h1] Cons.IH [of h1] by (simp add: p)
qed simp

subsection \<open>Properties\<close>

text \<open>
  C1. Processing an ACK frame in a state that satisfies the invariant. An ACK of an unsent packet is
  rejected without any change, an ACK of a skipped packet number is rejected, both as protocol
  violations. Otherwise exactly the acknowledged packets leave the history (skipped numbers next to
  them may go too), exactly the packets that the packet or the time threshold declares lost follow, the
  bytes in flight stay the sizes of the tracked packets, and the frame handlers are called once for
  every frame, first those of acknowledged packets, then those of lost ones.
\<close>

theorem ReceivedAck_correct:
  assumes inv: "handler_inv h" and sp: "theSpace h l = Inr s" and v: "validateAckRanges ack" and d: "0 \<le> DelayTime ack"
  shows "(largestSent s < Largest (AckRanges ack ! 0) \<longrightarrow>
        ReceivedAck h ack l rcvTime now = Inr (h, Inl (TransportError ProtocolViolation 0)))
    \<and> (Largest (AckRanges ack ! 0) \<le> largestSent s \<and> list_ex skippedPacket (ackedPackets ack s) \<longrightarrow>
        (\<exists>h'. ReceivedAck h ack l rcvTime now = Inr (h', Inl (TransportError ProtocolViolation 0))))
    \<and> (Largest (AckRanges ack ! 0) \<le> largestSent s \<and> \<not> list_ex skippedPacket (ackedPackets ack s) \<longrightarrow>
        (\<exists>h' s' hs lost. ReceivedAck h ack l rcvTime now = Inr (h', Inr (list_ex (\<lambda>p. EncryptionLevel p = Encryption1RTT) (ackedPackets ack s)))
          \<and> handler_inv h' \<and> theSpace h' l = Inr s' \<and> removes (history s) (ackedPackets ack s) hs
          \<and> (ackedPackets ack s \<noteq> [] \<longrightarrow> lost = filter (lostBy (max (largestAcked s) (Largest (AckRanges ack ! 0)))
                (rcvTime - lossDelay (rttStats h'))) (present (packets hs)))
          \<and> (ackedPackets ack s = [] \<longrightarrow> lost = [] \<and> hs = history s)
          \<and> lookup (history s') = (\<lambda>pn. if pn \<in> PacketNumber ` set lost then None else lookup hs pn)
          \<and> handlerCalls h' = handlerCalls h @ concat (map ackedCalls (ackedPackets ack s)) @ concat (map lostCalls lost)))"
proof (intro conjI impI)
  assume a: "Largest (AckRanges ack ! 0) \<le> largestSent s \<and> \<not> list_ex skippedPacket (ackedPackets ack s)"
  show "\<exists>h' s' hs lost. ReceivedAck h ack l rcvTime now = Inr (h', Inr (list_ex (\<lambda>p. EncryptionLevel p = Encryption1RTT) (ackedPackets ack s)))
          \<and> handler_inv h' \<and> theSpace h' l = Inr s' \<and> removes (history s) (ackedPackets ack s) hs
          \<and> (ackedPackets ack s \<noteq> [] \<longrightarrow> lost = filter (lostBy (max (largestAcked s) (Largest (AckRanges ack ! 0)))
                (rcvTime - lossDelay (rttStats h'))) (present (packets hs)))
          \<and> (ackedPackets ack s = [] \<longrightarrow> lost = [] \<and> hs = history s)
          \<and> lookup (history s') = (\<lambda>pn. if pn \<in> PacketNumber ` set lost then None else lookup hs pn)
          \<and> handlerCalls h' = handlerCalls h @ concat (map ackedCalls (ackedPackets ack s)) @ concat (map lostCalls lost)"
  proof (cases "ackedPackets ack s = []")
    case True
    have "sent_inv (history s)" using inv spaces_inv_get [OF _ sp] by (auto simp: handler_inv_def space_inv_def)
    then show ?thesis using ReceivedAck_rejected(3) [OF inv sp v _ True, of rcvTime now] a removes_Nil [of "history s"]
      unfolding True by auto
  next
    case False
    then show ?thesis using ReceivedAck_ok [OF inv sp v d conjunct1 [OF a] conjunct2 [OF a] False, of rcvTime now]
      by (elim exE conjE) (intro exI conjI impI; (assumption | contradiction))
  qed
qed (use ReceivedAck_rejected [OF inv sp v, of rcvTime now] in auto)

text \<open>
  C2. In every reachable state the bytes in flight are the sizes of the tracked packets and not negative,
  and no operation of the handler panics: not sending, not an ACK frame with valid ranges, not a timeout of
  an armed timer, not dropping the keys of a level, not queueing a probe, not the reset after a Retry.
\<close>

theorem sent_handler_never_panics:
  assumes r: "sph_reachable h"
  shows "bytesInFlight h = total_flight h \<and> 0 \<le> bytesInFlight h
    \<and> (theSpace h l = Inr s \<and> fairRnd rnd \<and> 0 < t \<and> 0 \<le> size' \<and> markable h ecn \<longrightarrow>
        (\<exists>h'. sendPacket rnd h t la sf fr l ecn size' probe now = Inr h'))
    \<and> (theSpace h l = Inr s \<and> validateAckRanges ack \<and> 0 \<le> DelayTime ack \<longrightarrow> (\<exists>h' res. ReceivedAck h ack l rcvTime now = Inr (h', res)))
    \<and> (alarm h \<noteq> 0 \<and> fairRnd rnd \<longrightarrow> (\<exists>h' res. OnLossDetectionTimeout rnd h now = Inr (h', res)))
    \<and> (l \<in> {EncryptionInitial, EncryptionHandshake, Encryption0RTT} \<longrightarrow> (\<exists>h'. sph_DropPackets h l now = Inr h'))
    \<and> (theSpace h l = Inr s \<longrightarrow> (\<exists>h' b. QueueProbePacket h l = Inr (h', b)))
    \<and> (sph_initialPackets h = Some ini \<and> fairRnd rnd \<and> opt_flight (sph_handshakePackets h) = 0 \<longrightarrow> (\<exists>h'. ResetForRetry rnd h now = Inr h'))"
proof -
  have inv: "handler_inv h" "addr_inv h" "timer_inv h" using sph_reachable_inv [OF r] by (simp_all add: reach_inv_def)
  have "bytesInFlight h = total_flight h" "0 \<le> bytesInFlight h" using inv(1) total_flight_nonneg [of h] by (auto simp: handler_inv_def)
  moreover have "\<exists>h'. sendPacket rnd h t la sf fr l ecn size' probe now = Inr h'"
    if "theSpace h l = Inr s \<and> fairRnd rnd \<and> 0 < t \<and> 0 \<le> size' \<and> markable h ecn"
    using sendPacket_ok [OF inv(1), of l s rnd t size' ecn la sf fr probe now] that by blast
  moreover have "\<exists>h' res. ReceivedAck h ack l rcvTime now = Inr (h', res)"
    if a: "theSpace h l = Inr s \<and> validateAckRanges ack \<and> 0 \<le> DelayTime ack"
  proof -
    note a' = conjunct1 [OF a] conjunct1 [OF conjunct2 [OF a]] conjunct2 [OF conjunct2 [OF a]]
    consider "largestSent s < Largest (AckRanges ack ! 0)" | "Largest (AckRanges ack ! 0) \<le> largestSent s" "list_ex skippedPacket (ackedPackets ack s)"
      | "Largest (AckRanges ack ! 0) \<le> largestSent s" "ackedPackets ack s = []"
      | "Largest (AckRanges ack ! 0) \<le> largestSent s" "\<not> list_ex skippedPacket (ackedPackets ack s)" "ackedPackets ack s \<noteq> []" by linarith
    then show ?thesis
    proof cases
      case 4
      then show ?thesis using ReceivedAck_ok [OF inv(1) a' 4(1,2,3), of rcvTime now] by blast
    qed (use ReceivedAck_rejected [OF inv(1) a'(1,2), of rcvTime now] in blast)+
  qed
  moreover have "\<exists>h' res. OnLossDetectionTimeout rnd h now = Inr (h', res)" if "alarm h \<noteq> 0 \<and> fairRnd rnd"
    using OnLossDetectionTimeout_ok [OF inv(1,2), of rnd now] inv(3) that by (auto simp: timer_inv_def)
  moreover have "\<exists>h'. sph_DropPackets h l now = Inr h'" if "l \<in> {EncryptionInitial, EncryptionHandshake, Encryption0RTT}"
    using DropPackets_ok [OF inv(1) that] by blast
  moreover have "\<exists>h' b. QueueProbePacket h l = Inr (h', b)" if "theSpace h l = Inr s" using QueueProbePacket_ok [OF inv(1) that] by blast
  moreover have "\<exists>h'. ResetForRetry rnd h now = Inr h'"
    if "sph_initialPackets h = Some ini \<and> fairRnd rnd \<and> opt_flight (sph_handshakePackets h) = 0"
    using ResetForRetry_ok(1) [OF inv(1), of ini rnd now] that by blast
  ultimately show ?thesis by blast
qed

lemma setLossDetectionTimer_cases:
  assumes "h' = setLossDetectionTimer g now"
  shows "fst (getLossTimeAndSpace h') \<noteq> 0 \<Longrightarrow> GetLossDetectionTimeout h' = fst (getLossTimeAndSpace h')"
    and "fst (getLossTimeAndSpace h') = 0 \<Longrightarrow> isAmplificationLimited h' \<Longrightarrow> GetLossDetectionTimeout h' = 0"
proof -
  obtain a where a: "h' = g\<lparr>alarm := a\<rparr>" using assms setLossDetectionTimer_alarm [of g now] by metis
  have s: "getLossTimeAndSpace h' = getLossTimeAndSpace g" "isAmplificationLimited h' = isAmplificationLimited g"
    unfolding a by (simp_all add: getLossTimeAndSpace_def isAmplificationLimited_def)
  obtain t l where tl: "getLossTimeAndSpace g = (t, l)" by fastforce
  have "t \<noteq> 0 \<Longrightarrow> GetLossDetectionTimeout h' = t" "t = 0 \<Longrightarrow> isAmplificationLimited g \<Longrightarrow> GetLossDetectionTimeout h' = 0"
    unfolding assms by (simp_all add: setLossDetectionTimer_def tl time_IsZero_def GetLossDetectionTimeout_def)
  then show "fst (getLossTimeAndSpace h') \<noteq> 0 \<Longrightarrow> GetLossDetectionTimeout h' = fst (getLossTimeAndSpace h')"
    "fst (getLossTimeAndSpace h') = 0 \<Longrightarrow> isAmplificationLimited h' \<Longrightarrow> GetLossDetectionTimeout h' = 0"
    unfolding s tl by simp_all
qed

text \<open>
  C3. The loss detection timer after an ack-eliciting packet that is not an MTU probe was sent in the Initial or
  the Handshake space, or in any space once the handshake is confirmed: with a pending loss time the timer is set to
  it; otherwise it is off when the amplification limit forbids to send, and armed when not, at most the
  maximal probe timeout of 60 seconds after the packet.
\<close>

theorem loss_timer_armed:
  assumes r: "sph_reachable h" and sp: "theSpace h l = Inr s" and f: "fairRnd rnd" and t: "0 < t" "0 \<le> size'" and e: "markable h ecn"
    and fr: "sf \<noteq> [] \<or> fr \<noteq> []" and l: "l \<in> {EncryptionInitial, EncryptionHandshake} \<or> handshakeConfirmed h"
  shows "\<exists>h'. sendPacket rnd h t la sf fr l ecn size' False now = Inr h'
    \<and> (if fst (getLossTimeAndSpace h') \<noteq> 0 then GetLossDetectionTimeout h' = fst (getLossTimeAndSpace h')
       else if isAmplificationLimited h' then GetLossDetectionTimeout h' = 0
       else 0 < GetLossDetectionTimeout h' \<and> GetLossDetectionTimeout h' \<le> t + maxPTODuration)"
proof -
  have inv: "handler_inv h" using sph_reachable_inv [OF r] by (simp add: reach_inv_def)
  obtain h' g s' where h': "sendPacket rnd h t la sf fr l ecn size' False now = Inr h'" "handler_inv h'" "h' = setLossDetectionTimer g now"
    "theSpace g l = Inr s'" "lastAckElicitingPacketTime s' = t" "HasOutstandingPackets (history s')"
    using sendPacket_ok [OF inv sp f t e, of la sf fr False now] fr by auto
  have "spaces_inv g" using h'(2,3) by (simp add: handler_inv_def)
  moreover have "handshakeConfirmed g = handshakeConfirmed h" using sendPacket_keeps [OF h'(1) t(1) e] h'(3) by (simp add: keeps_def)
  ultimately have "\<not> isAmplificationLimited h' \<longrightarrow> 0 < GetLossDetectionTimeout h'
      \<and> (fst (getLossTimeAndSpace h') = 0 \<longrightarrow> GetLossDetectionTimeout h' \<le> t + maxPTODuration)"
    using setLossDetectionTimer_armed [of g l s' now] h' t(1) l by (auto simp: GetLossDetectionTimeout_def)
  then show ?thesis using h'(1) setLossDetectionTimer_cases [OF h'(3)] by auto
qed

text \<open>
  C5. The probe timeout is positive and at most 60 seconds, and as long as the shift does not overflow
  64 bits it is the exponential backoff of the round-trip estimate, capped at 60 seconds.
\<close>

theorem pto_backoff:
  assumes "sph_reachable h"
  shows "0 < getScaledPTO h b \<and> getScaledPTO h b \<le> 60 * Second
    \<and> (PTO (rttStats h) b * 2 ^ unat (ptoCount h) < 2 ^ 63 \<longrightarrow>
         getScaledPTO h b = min (60 * Second) (PTO (rttStats h) b * 2 ^ unat (ptoCount h)))"
  using sph_reachable_inv [OF assms] getScaledPTO_bounds [of h b] getScaledPTO_exact [of h b]
  by (simp add: reach_inv_def handler_inv_def maxPTODuration_def)

subsection \<open>Witnesses\<close>

lemma client0_reachable: "sph_reachable client0"
  unfolding client0_def by (rule sph_reachable.new) (simp_all add: fairRnd_def NewRTTStats_def rtt_inv_def)

lemma client0_space: "\<exists>s. theSpace client0 EncryptionInitial = Inr s"
  by (simp add: client0_def newSentPacketHandler_def theSpace_def getPacketNumberSpace_def)

lemma client1_inv: "handler_inv client1"
proof -
  have "handler_inv client0" using sph_reachable_inv [OF client0_reachable] by (simp add: reach_inv_def)
  moreover have "lookup \<lparr>packets = [Some ini0], numOutstanding = 1, highestPacketNumber = 0\<rparr> pn = (if pn = 0 then Some ini0 else None)" for pn
    by (auto simp: lookup_def ini0_def getPacket_def)
  ultimately show ?thesis
    by (simp add: client1_def handler_inv_def spaces_inv_def total_flight_def space_inv_def linked_def inFlight_def sent_inv_def
        flightOf_def packet_ok_def newSequentialPacketNumberGenerator_def ini0_def getPacket_def outstanding_def
        client0_def newSentPacketHandler_def newPacketNumberSpace_def newSentPacketHistory_def InvalidPacketNumber_def)
qed

theorem ReceivedAck_correct_witness:
  "\<exists>h'. ReceivedAck client1 \<lparr>AckRanges = [\<lparr>Smallest = 0, Largest = 0\<rparr>], DelayTime = 0, fECT0 = 0, fECT1 = 0, fECNCE = 0\<rparr>
        EncryptionInitial 2 2 = Inr (h', Inr False)
     \<and> handler_inv h' \<and> handlerCalls h' = [OnAcked 1 7]"
proof -
  define ack where "ack = \<lparr>AckRanges = [\<lparr>Smallest = 0, Largest = 0\<rparr>], DelayTime = 0, fECT0 = 0, fECT1 = 0, fECNCE = 0\<rparr>"
  obtain s where s: "theSpace client1 EncryptionInitial = Inr s" "largestSent s = 0" "packets (history s) = [Some ini0]"
    "highestPacketNumber (history s) = 0" "handlerCalls client1 = []"
    by (simp add: client1_def client0_def newSentPacketHandler_def theSpace_def getPacketNumberSpace_def)
  have a: "validateAckRanges ack" "0 \<le> DelayTime ack" "Largest (AckRanges ack ! 0) \<le> largestSent s"
    by (simp_all add: ack_def validateAckRanges_def s)
  have p: "ackedPackets ack s = [ini0]" "\<not> skippedPacket ini0" "EncryptionLevel ini0 \<noteq> Encryption1RTT"
    "ackedCalls ini0 = [OnAcked 1 7]"
    by (simp_all add: ackedPackets_def s ack_def ackedBy_def ini0_def getPacket_def ackedCalls_def)
  obtain h' s' hs lost where h': "ReceivedAck client1 ack EncryptionInitial 2 2 = Inr (h', Inr False)" "handler_inv h'"
    "removes (history s) [ini0] hs" "lost = filter (lostBy (max (largestAcked s) (Largest (AckRanges ack ! 0)))
                (2 - lossDelay (rttStats h'))) (present (packets hs))"
    "handlerCalls h' = [OnAcked 1 7] @ concat (map lostCalls lost)"
    using ReceivedAck_correct [OF client1_inv s(1) a(1,2), of 2 2] a(3) p s(5) by auto
  have "\<not> (\<exists>p. p \<in> set (present (packets hs)))"
  proof
    assume "\<exists>p. p \<in> set (present (packets hs))"
    then obtain p where "lookup hs (PacketNumber p) = Some p" using h'(3) present_lookup [of hs] by (auto simp: removes_def)
    moreover have "lookup (history s) q = None" if "q \<noteq> 0" for q using that s(3) by (auto simp: lookup_def ini0_def getPacket_def)
    moreover have "PacketNumber ini0 = 0" by (simp add: ini0_def)
    ultimately show False using h'(3) unfolding removes_def by (metis (no_types, lifting) image_iff list.set(1) list.set(2) option.distinct(1) singletonD singletonI)
  qed
  then have "lost = []" using h'(4) by (simp add: filter_empty_conv)
  then show ?thesis using h'(1,2,5) unfolding ack_def by auto
qed

theorem sent_handler_never_panics_witness:
  "bytesInFlight client0 = total_flight client0
    \<and> (\<exists>h'. sendPacket (\<lambda>n. 0) client0 1 (-1) [] [\<lparr>frame_Frame = 7, frame_Handler = Some 1\<rparr>] EncryptionInitial ECNNon 1200 False 1 = Inr h')"
proof -
  obtain s where s: "theSpace client0 EncryptionInitial = Inr s" using client0_space by blast
  show ?thesis using sent_handler_never_panics [OF client0_reachable, where l = EncryptionInitial and s = s and rnd = "\<lambda>n. 0"
      and t = 1 and size' = 1200 and ecn = ECNNon and sf = "[]" and fr = "[\<lparr>frame_Frame = 7, frame_Handler = Some 1\<rparr>]" and now = 1 and la = "-1" and probe = False]
      s by (simp add: fairRnd_def markable_def)
qed

theorem loss_timer_armed_witness:
  "\<exists>h'. sendPacket (\<lambda>n. 0) client0 1 (-1) [] [\<lparr>frame_Frame = 7, frame_Handler = Some 1\<rparr>] EncryptionInitial ECNNon 1200 False 1 = Inr h'
     \<and> (if fst (getLossTimeAndSpace h') \<noteq> 0 then GetLossDetectionTimeout h' = fst (getLossTimeAndSpace h')
       else if isAmplificationLimited h' then GetLossDetectionTimeout h' = 0
       else 0 < GetLossDetectionTimeout h' \<and> GetLossDetectionTimeout h' \<le> 1 + maxPTODuration)"
proof -
  obtain s where s: "theSpace client0 EncryptionInitial = Inr s" using client0_space by blast
  show ?thesis by (rule loss_timer_armed [OF client0_reachable s]) (simp_all add: fairRnd_def markable_def)
qed

theorem pto_backoff_witness: "getScaledPTO client0 True = 200 * Millisecond"
  using pto_backoff [OF client0_reachable, of True]
  by (simp add: client0_def newSentPacketHandler_def PTO_def NewRTTStats_def defaultInitialRTT_def)

end
