(* ===== verification/Flow_Control.thy ===== *)
theory Flow_Control
  imports Floats Rtt_Stats
begin

text \<open>
  Flow control of streams and of the connection, from \<open>internal/flowcontrol\<close>. A stream flow
  controller holds a pointer to the one of the connection, so its operations take and return both. The
  callbacks that queue a window update are the booleans of the results; the clock, the round-trip
  statistics and the callback that permits a larger window are arguments. Locks and logging are
  left out.
\<close>

subsection \<open>Base flow controller\<close>

definition WindowUpdateThreshold :: flt where "WindowUpdateThreshold = (1, 2)"
definition ConnectionFlowControlMultiplier :: flt where "ConnectionFlowControlMultiplier = (3, 1)"

record baseFlowController =
  fc_bytesSent :: ByteCount
  sendWindow :: ByteCount
  lastBlockedAt :: ByteCount
  bytesRead :: ByteCount
  highestReceived :: ByteCount
  receiveWindow :: ByteCount
  receiveWindowSize :: ByteCount
  maxReceiveWindowSize :: ByteCount
  epochStartTime :: "time"
  epochStartOffset :: ByteCount

definition sendWindowSize :: "'a baseFlowController_scheme \<Rightarrow> ByteCount" where
  "sendWindowSize c = (if fc_bytesSent c > sendWindow c then 0 else sendWindow c - fc_bytesSent c)"

definition IsNewlyBlocked :: "'a baseFlowController_scheme \<Rightarrow> 'a baseFlowController_scheme \<times> bool \<times> ByteCount" where
  "IsNewlyBlocked c =
     (if sendWindowSize c \<noteq> 0 \<or> sendWindow c = lastBlockedAt c then (c, False, 0)
      else (c\<lparr>lastBlockedAt := sendWindow c\<rparr>, True, sendWindow c))"

definition base_AddBytesSent :: "'a baseFlowController_scheme \<Rightarrow> ByteCount \<Rightarrow> 'a baseFlowController_scheme" where
  "base_AddBytesSent c n = c\<lparr>fc_bytesSent := fc_bytesSent c + n\<rparr>"

definition UpdateSendWindow :: "'a baseFlowController_scheme \<Rightarrow> ByteCount \<Rightarrow> 'a baseFlowController_scheme" where
  "UpdateSendWindow c offset = (if offset > sendWindow c then c\<lparr>sendWindow := offset\<rparr> else c)"

definition startNewAutoTuningEpoch :: "'a baseFlowController_scheme \<Rightarrow> time \<Rightarrow> 'a baseFlowController_scheme" where
  "startNewAutoTuningEpoch c now = c\<lparr>epochStartTime := now, epochStartOffset := bytesRead c\<rparr>"

definition base_addBytesRead :: "'a baseFlowController_scheme \<Rightarrow> ByteCount \<Rightarrow> time \<Rightarrow> 'a baseFlowController_scheme" where
  "base_addBytesRead c n now =
     (let c = (if bytesRead c = 0 then startNewAutoTuningEpoch c now else c)
      in c\<lparr>bytesRead := bytesRead c + n\<rparr>)"

definition hasWindowUpdate :: "'a baseFlowController_scheme \<Rightarrow> bool" where
  "hasWindowUpdate c =
     (let bytesRemaining = receiveWindow c - bytesRead c
      in bytesRemaining \<le> flt_trunc (flt_mul 53 (float64 (receiveWindowSize c)) (flt_sub 53 (1, 0) WindowUpdateThreshold)))"

definition maybeAdjustWindowSize ::
  "'a baseFlowController_scheme \<Rightarrow> (ByteCount \<Rightarrow> bool) option \<Rightarrow> RTTStats \<Rightarrow> time \<Rightarrow> 'a baseFlowController_scheme" where
  "maybeAdjustWindowSize c allow rtt now =
     (let bytesReadInEpoch = bytesRead c - epochStartOffset c in
      if bytesReadInEpoch \<le> tdiv (receiveWindowSize c) 2 then c
      else if smoothedRTT rtt = 0 then c
      else
        let fraction = flt_div 53 (float64 bytesReadInEpoch) (float64 (receiveWindowSize c));
            c = (if time_Sub now (epochStartTime c) < flt_trunc (flt_mul 53 (flt_mul 53 (4, 0) fraction) (float64 (smoothedRTT rtt)))
                 then
                   let newSize = min (2 * receiveWindowSize c) (maxReceiveWindowSize c) in
                   if newSize > receiveWindowSize c
                      \<and> (case allow of None \<Rightarrow> True | Some f \<Rightarrow> f (newSize - receiveWindowSize c))
                   then c\<lparr>receiveWindowSize := newSize\<rparr> else c
                 else c)
        in startNewAutoTuningEpoch c now)"

definition base_getWindowUpdate ::
  "'a baseFlowController_scheme \<Rightarrow> (ByteCount \<Rightarrow> bool) option \<Rightarrow> RTTStats \<Rightarrow> time \<Rightarrow> 'a baseFlowController_scheme \<times> ByteCount" where
  "base_getWindowUpdate c allow rtt now =
     (if \<not> hasWindowUpdate c then (c, 0)
      else
        let c = maybeAdjustWindowSize c allow rtt now;
            c = c\<lparr>receiveWindow := bytesRead c + receiveWindowSize c\<rparr>
        in (c, receiveWindow c))"

definition checkFlowControlViolation :: "'a baseFlowController_scheme \<Rightarrow> bool" where
  "checkFlowControlViolation c \<longleftrightarrow> highestReceived c > receiveWindow c"

subsection \<open>Connection flow controller\<close>

type_synonym connectionFlowController = baseFlowController

definition NewConnectionFlowController :: "ByteCount \<Rightarrow> ByteCount \<Rightarrow> connectionFlowController" where
  "NewConnectionFlowController rcvWindow maxReceiveWindow =
     \<lparr>fc_bytesSent = 0, sendWindow = 0, lastBlockedAt = 0, bytesRead = 0, highestReceived = 0,
      receiveWindow = rcvWindow, receiveWindowSize = rcvWindow, maxReceiveWindowSize = maxReceiveWindow,
      epochStartTime = 0, epochStartOffset = 0\<rparr>"

definition IncrementHighestReceived ::
  "connectionFlowController \<Rightarrow> ByteCount \<Rightarrow> connectionFlowController \<times> unit result" where
  "IncrementHighestReceived c increment =
     (let c = c\<lparr>highestReceived := highestReceived c + increment\<rparr>
      in (c, if checkFlowControlViolation c then Inl (TransportError FlowControlError 0) else Inr ()))"

definition conn_AddBytesRead :: "connectionFlowController \<Rightarrow> ByteCount \<Rightarrow> time \<Rightarrow> connectionFlowController \<times> bool" where
  "conn_AddBytesRead c n now = (let c = base_addBytesRead c n now in (c, hasWindowUpdate c))"

definition conn_GetWindowUpdate ::
  "connectionFlowController \<Rightarrow> (ByteCount \<Rightarrow> bool) option \<Rightarrow> RTTStats \<Rightarrow> time \<Rightarrow> connectionFlowController \<times> ByteCount" where
  "conn_GetWindowUpdate c allow rtt now = base_getWindowUpdate c allow rtt now"

text \<open>The callback is called without a test for nil here.\<close>

definition EnsureMinimumWindowSize ::
  "connectionFlowController \<Rightarrow> (ByteCount \<Rightarrow> bool) option \<Rightarrow> ByteCount \<Rightarrow> time \<Rightarrow> connectionFlowController result" where
  "EnsureMinimumWindowSize c allow inc now =
     (if inc > receiveWindowSize c then
        let newSize = min inc (maxReceiveWindowSize c); delta = newSize - receiveWindowSize c in
        bindE (if delta > 0 then
                 (case allow of None \<Rightarrow> Inl (Panic ''nil pointer dereference'')
                  | Some f \<Rightarrow> Inr (if f delta then c\<lparr>receiveWindowSize := newSize\<rparr> else c))
               else Inr c) (\<lambda>c.
        Inr (startNewAutoTuningEpoch c now))
      else Inr c)"

definition fc_Reset :: "connectionFlowController \<Rightarrow> connectionFlowController result" where
  "fc_Reset c =
     (if bytesRead c > 0 \<or> highestReceived c > 0 \<or> \<not> time_IsZero (epochStartTime c)
      then Inl (Err ''flow controller reset after reading data'')
      else Inr (c\<lparr>fc_bytesSent := 0, lastBlockedAt := 0\<rparr>))"

subsection \<open>Stream flow controller\<close>

record streamFlowController = baseFlowController +
  fc_streamID :: StreamID
  receivedFinalOffset :: bool

definition NewStreamFlowController :: "StreamID \<Rightarrow> ByteCount \<Rightarrow> ByteCount \<Rightarrow> ByteCount \<Rightarrow> streamFlowController" where
  "NewStreamFlowController sid rcvWindow maxReceiveWindow initialSendWindow =
     \<lparr>fc_bytesSent = 0, sendWindow = initialSendWindow, lastBlockedAt = 0, bytesRead = 0, highestReceived = 0,
      receiveWindow = rcvWindow, receiveWindowSize = rcvWindow, maxReceiveWindowSize = maxReceiveWindow,
      epochStartTime = 0, epochStartOffset = 0, fc_streamID = sid, receivedFinalOffset = False\<rparr>"

definition UpdateHighestReceived ::
  "streamFlowController \<Rightarrow> connectionFlowController \<Rightarrow> ByteCount \<Rightarrow> bool
   \<Rightarrow> streamFlowController \<times> connectionFlowController \<times> unit result" where
  "UpdateHighestReceived c conn offset final =
     (if receivedFinalOffset c \<and> final \<and> offset \<noteq> highestReceived c then (c, conn, Inl (TransportError FinalSizeError 0))
      else if receivedFinalOffset c \<and> offset > highestReceived c then (c, conn, Inl (TransportError FinalSizeError 0))
      else
        let c = (if final then c\<lparr>receivedFinalOffset := True\<rparr> else c) in
        if offset = highestReceived c then (c, conn, Inr ())
        else if offset \<le> highestReceived c then
          (c, conn, if final then Inl (TransportError FinalSizeError 0) else Inr ())
        else
          let increment = offset - highestReceived c;
              c = c\<lparr>highestReceived := offset\<rparr>
          in if checkFlowControlViolation c then (c, conn, Inl (TransportError FlowControlError 0))
             else let (conn, r) = IncrementHighestReceived conn increment in (c, conn, r))"

definition shouldQueueWindowUpdate :: "streamFlowController \<Rightarrow> bool" where
  "shouldQueueWindowUpdate c \<longleftrightarrow> \<not> receivedFinalOffset c \<and> hasWindowUpdate c"

definition stream_AddBytesRead ::
  "streamFlowController \<Rightarrow> connectionFlowController \<Rightarrow> ByteCount \<Rightarrow> time
   \<Rightarrow> streamFlowController \<times> connectionFlowController \<times> bool \<times> bool" where
  "stream_AddBytesRead c conn n now =
     (let c = base_addBytesRead c n now;
          queueStream = shouldQueueWindowUpdate c;
          (conn, queueConn) = conn_AddBytesRead conn n now
      in (c, conn, queueStream, queueConn))"

definition Abandon :: "streamFlowController \<Rightarrow> connectionFlowController \<Rightarrow> time \<Rightarrow> connectionFlowController \<times> bool" where
  "Abandon c conn now =
     (let unread = highestReceived c - bytesRead c
      in if unread > 0 then conn_AddBytesRead conn unread now else (conn, False))"

definition stream_AddBytesSent ::
  "streamFlowController \<Rightarrow> connectionFlowController \<Rightarrow> ByteCount \<Rightarrow> streamFlowController \<times> connectionFlowController" where
  "stream_AddBytesSent c conn n = (base_AddBytesSent c n, base_AddBytesSent conn n)"

definition stream_SendWindowSize :: "streamFlowController \<Rightarrow> connectionFlowController \<Rightarrow> ByteCount" where
  "stream_SendWindowSize c conn = min (sendWindowSize c) (sendWindowSize conn)"

definition stream_GetWindowUpdate ::
  "streamFlowController \<Rightarrow> connectionFlowController \<Rightarrow> (ByteCount \<Rightarrow> bool) option \<Rightarrow> RTTStats \<Rightarrow> time
   \<Rightarrow> (streamFlowController \<times> connectionFlowController \<times> ByteCount) result" where
  "stream_GetWindowUpdate c conn allow rtt now =
     (if receivedFinalOffset c then Inr (c, conn, 0)
      else
        let oldWindowSize = receiveWindowSize c;
            (c, offset) = base_getWindowUpdate c None rtt now in
        bindE (if receiveWindowSize c > oldWindowSize
               then EnsureMinimumWindowSize conn allow
                      (flt_trunc (flt_mul 53 (float64 (receiveWindowSize c)) ConnectionFlowControlMultiplier)) now
               else Inr conn) (\<lambda>conn.
        Inr (c, conn, offset)))"

text \<open>
  All streams of a connection with its flow controller, and the streams on which reading was abandoned. Data
  is read after it was received; reading is abandoned once, when the final offset is known. Sending is not
  limited here: before the transport parameters of the peer arrive, more may be sent than the window. When
  0-RTT is rejected, the connection is reset and its streams are gone.
\<close>

record flowState =
  fs_conn :: connectionFlowController
  fs_streams :: "StreamID \<rightharpoonup> streamFlowController"
  fs_abandoned :: "StreamID set"

inductive fc_reachable :: "flowState \<Rightarrow> bool" where
  new: "0 \<le> w \<Longrightarrow> fc_reachable \<lparr>fs_conn = NewConnectionFlowController w m, fs_streams = Map.empty, fs_abandoned = {}\<rparr>"
| opened: "fc_reachable f \<Longrightarrow> fs_streams f sid = None \<Longrightarrow> sid \<notin> fs_abandoned f \<Longrightarrow> 0 \<le> w \<Longrightarrow> 0 \<le> sw \<Longrightarrow>
    fc_reachable (f\<lparr>fs_streams := (fs_streams f)(sid \<mapsto> NewStreamFlowController sid w m sw)\<rparr>)"
| received: "fc_reachable f \<Longrightarrow> fs_streams f sid = Some c \<Longrightarrow> 0 \<le> offset \<Longrightarrow>
    UpdateHighestReceived c (fs_conn f) offset final = (c', conn', Inr ()) \<Longrightarrow>
    fc_reachable (f\<lparr>fs_streams := (fs_streams f)(sid \<mapsto> c'), fs_conn := conn'\<rparr>)"
| read: "fc_reachable f \<Longrightarrow> fs_streams f sid = Some c \<Longrightarrow> sid \<notin> fs_abandoned f \<Longrightarrow> 0 \<le> n \<Longrightarrow> bytesRead c + n \<le> highestReceived c \<Longrightarrow>
    stream_AddBytesRead c (fs_conn f) n now = (c', conn', q, q') \<Longrightarrow>
    fc_reachable (f\<lparr>fs_streams := (fs_streams f)(sid \<mapsto> c'), fs_conn := conn'\<rparr>)"
| abandoned: "fc_reachable f \<Longrightarrow> fs_streams f sid = Some c \<Longrightarrow> sid \<notin> fs_abandoned f \<Longrightarrow> receivedFinalOffset c \<Longrightarrow>
    Abandon c (fs_conn f) now = (conn', q) \<Longrightarrow>
    fc_reachable (f\<lparr>fs_conn := conn', fs_abandoned := insert sid (fs_abandoned f)\<rparr>)"
| sent: "fc_reachable f \<Longrightarrow> fs_streams f sid = Some c \<Longrightarrow> 0 \<le> n \<Longrightarrow>
    stream_AddBytesSent c (fs_conn f) n = (c', conn') \<Longrightarrow>
    fc_reachable (f\<lparr>fs_streams := (fs_streams f)(sid \<mapsto> c'), fs_conn := conn'\<rparr>)"
| reset: "fc_reachable f \<Longrightarrow> fc_Reset (fs_conn f) = Inr conn' \<Longrightarrow>
    fc_reachable \<lparr>fs_conn = conn', fs_streams = Map.empty, fs_abandoned = {}\<rparr>"
| maxData: "fc_reachable f \<Longrightarrow> fc_reachable (f\<lparr>fs_conn := UpdateSendWindow (fs_conn f) offset\<rparr>)"
| maxStreamData: "fc_reachable f \<Longrightarrow> fs_streams f sid = Some c \<Longrightarrow>
    fc_reachable (f\<lparr>fs_streams := (fs_streams f)(sid \<mapsto> UpdateSendWindow c offset)\<rparr>)"
| blocked: "fc_reachable f \<Longrightarrow> IsNewlyBlocked (fs_conn f) = (conn', b, off) \<Longrightarrow> fc_reachable (f\<lparr>fs_conn := conn'\<rparr>)"
| streamBlocked: "fc_reachable f \<Longrightarrow> fs_streams f sid = Some c \<Longrightarrow> IsNewlyBlocked c = (c', b, off) \<Longrightarrow>
    fc_reachable (f\<lparr>fs_streams := (fs_streams f)(sid \<mapsto> c')\<rparr>)"
| update: "fc_reachable f \<Longrightarrow> conn_GetWindowUpdate (fs_conn f) allow rtt now = (conn', off) \<Longrightarrow> fc_reachable (f\<lparr>fs_conn := conn'\<rparr>)"
| streamUpdate: "fc_reachable f \<Longrightarrow> fs_streams f sid = Some c \<Longrightarrow>
    stream_GetWindowUpdate c (fs_conn f) allow rtt now = Inr (c', conn', off) \<Longrightarrow>
    fc_reachable (f\<lparr>fs_streams := (fs_streams f)(sid \<mapsto> c'), fs_conn := conn'\<rparr>)"

definition streamSum :: "(StreamID \<Rightarrow> streamFlowController \<Rightarrow> int) \<Rightarrow> (StreamID \<rightharpoonup> streamFlowController) \<Rightarrow> int" where
  "streamSum g m = (\<Sum>sid \<in> dom m. g sid (the (m sid)))"

text \<open>What was consumed of a stream: what was read, or everything once reading was abandoned.\<close>

definition consumed :: "StreamID set \<Rightarrow> StreamID \<Rightarrow> streamFlowController \<Rightarrow> ByteCount" where
  "consumed ab sid c = (if sid \<in> ab then highestReceived c else bytesRead c)"

definition base_inv :: "'a baseFlowController_scheme \<Rightarrow> bool" where
  "base_inv c \<longleftrightarrow> 0 \<le> bytesRead c \<and> bytesRead c \<le> highestReceived c \<and> highestReceived c \<le> receiveWindow c
     \<and> 0 \<le> receiveWindowSize c \<and> receiveWindow c \<le> bytesRead c + receiveWindowSize c
     \<and> 0 \<le> fc_bytesSent c"

definition flow_inv :: "flowState \<Rightarrow> bool" where
  "flow_inv f \<longleftrightarrow> finite (dom (fs_streams f)) \<and> fs_abandoned f \<subseteq> dom (fs_streams f)
     \<and> (\<forall>sid c. fs_streams f sid = Some c \<longrightarrow> base_inv c \<and> (sid \<in> fs_abandoned f \<longrightarrow> receivedFinalOffset c))
     \<and> base_inv (fs_conn f)
     \<and> highestReceived (fs_conn f) = streamSum (\<lambda>sid. highestReceived) (fs_streams f)
     \<and> bytesRead (fs_conn f) = streamSum (consumed (fs_abandoned f)) (fs_streams f)
     \<and> fc_bytesSent (fs_conn f) = streamSum (\<lambda>sid. fc_bytesSent) (fs_streams f)"

definition finalSizeViolated :: "streamFlowController \<Rightarrow> ByteCount \<Rightarrow> bool \<Rightarrow> bool" where
  "finalSizeViolated c offset final \<longleftrightarrow>
     (receivedFinalOffset c \<and> (offset > highestReceived c \<or> final \<and> offset \<noteq> highestReceived c))
     \<or> (final \<and> offset < highestReceived c)"

definition creditExceeded :: "streamFlowController \<Rightarrow> connectionFlowController \<Rightarrow> ByteCount \<Rightarrow> bool" where
  "creditExceeded c conn offset \<longleftrightarrow> offset > highestReceived c
     \<and> (offset > receiveWindow c \<or> highestReceived conn + (offset - highestReceived c) > receiveWindow conn)"

subsection \<open>Streams and their connection\<close>

lemma streamSum_upd:
  assumes "finite (dom m)" "m sid = Some c"
  shows "streamSum g (m(sid \<mapsto> c')) = streamSum g m - g sid c + g sid c'"
proof -
  have d: "dom (m(sid \<mapsto> c')) = dom m" "sid \<in> dom m" using assms(2) by auto
  have "streamSum g (m(sid \<mapsto> c')) = g sid c' + (\<Sum>s \<in> dom m - {sid}. g s (the (m s)))"
    unfolding streamSum_def d(1) using assms(1) d(2) by (subst sum.remove [of _ sid]) (auto intro: sum.cong)
  moreover have "streamSum g m = g sid c + (\<Sum>s \<in> dom m - {sid}. g s (the (m s)))"
    unfolding streamSum_def using assms d(2) by (subst sum.remove [of _ sid]) auto
  ultimately show ?thesis by simp
qed

lemma streamSum_new:
  assumes "finite (dom m)" "m sid = None"
  shows "streamSum g (m(sid \<mapsto> c)) = streamSum g m + g sid c"
proof -
  have "sid \<notin> dom m" using assms(2) by auto
  then have "streamSum g (m(sid \<mapsto> c)) = g sid c + (\<Sum>s \<in> dom m. g s (the ((m(sid \<mapsto> c)) s)))"
    unfolding streamSum_def using assms(1) by simp
  also have "(\<Sum>s \<in> dom m. g s (the ((m(sid \<mapsto> c)) s))) = streamSum g m"
    unfolding streamSum_def using \<open>sid \<notin> dom m\<close> by (intro sum.cong) auto
  finally show ?thesis by (simp del: fun_upd_apply)
qed

lemma streamSum_abandon:
  assumes "finite (dom m)" "m sid = Some c" "sid \<notin> ab"
  shows "streamSum (consumed (insert sid ab)) m = streamSum (consumed ab) m + highestReceived c - bytesRead c"
proof -
  have d: "sid \<in> dom m" using assms(2) by auto
  have "streamSum (consumed (insert sid ab)) m = highestReceived c + (\<Sum>s \<in> dom m - {sid}. consumed ab s (the (m s)))"
    unfolding streamSum_def using assms(1,2) d by (subst sum.remove [of _ sid]) (auto simp: consumed_def intro: sum.cong)
  moreover have "streamSum (consumed ab) m = bytesRead c + (\<Sum>s \<in> dom m - {sid}. consumed ab s (the (m s)))"
    unfolding streamSum_def using assms d by (subst sum.remove [of _ sid]) (auto simp: consumed_def)
  ultimately show ?thesis by simp
qed

subsection \<open>Operations keep the invariant\<close>

lemma maybeAdjustWindowSize_frame:
  "\<exists>w t e. maybeAdjustWindowSize c allow rtt now = c\<lparr>receiveWindowSize := w, epochStartTime := t, epochStartOffset := e\<rparr>
     \<and> receiveWindowSize c \<le> w \<and> w \<le> max (receiveWindowSize c) (maxReceiveWindowSize c)"
proof (cases "bytesRead c - epochStartOffset c \<le> tdiv (receiveWindowSize c) 2 \<or> smoothedRTT rtt = 0")
  case True
  then have m: "maybeAdjustWindowSize c allow rtt now = c" unfolding maybeAdjustWindowSize_def Let_def by auto
  show ?thesis unfolding m
    by (rule exI [of _ "receiveWindowSize c"], rule exI [of _ "epochStartTime c"], rule exI [of _ "epochStartOffset c"]) simp
next
  case False
  define fast where "fast \<longleftrightarrow> time_Sub now (epochStartTime c) < flt_trunc (flt_mul 53 (flt_mul 53 (4, 0)
      (flt_div 53 (float64 (bytesRead c - epochStartOffset c)) (float64 (receiveWindowSize c)))) (float64 (smoothedRTT rtt)))"
  define new where "new = min (2 * receiveWindowSize c) (maxReceiveWindowSize c)"
  define k where "k = (if fast \<and> new > receiveWindowSize c \<and> (case allow of None \<Rightarrow> True | Some f \<Rightarrow> f (new - receiveWindowSize c))
    then new else receiveWindowSize c)"
  have "maybeAdjustWindowSize c allow rtt now = startNewAutoTuningEpoch (if fast then
        if new > receiveWindowSize c \<and> (case allow of None \<Rightarrow> True | Some f \<Rightarrow> f (new - receiveWindowSize c))
        then c\<lparr>receiveWindowSize := new\<rparr> else c else c) now"
    using False unfolding maybeAdjustWindowSize_def Let_def fast_def new_def by simp
  also have "\<dots> = c\<lparr>receiveWindowSize := k, epochStartTime := now, epochStartOffset := bytesRead c\<rparr>"
    by (simp add: startNewAutoTuningEpoch_def k_def)
  finally show ?thesis by (intro exI conjI) (assumption, auto simp: k_def new_def)
qed

lemma base_getWindowUpdate_frame:
  assumes "base_getWindowUpdate c allow rtt now = (c', off)"
  obtains w rw t e where "c' = c\<lparr>receiveWindowSize := w, epochStartTime := t, epochStartOffset := e, receiveWindow := rw\<rparr>"
    "receiveWindowSize c \<le> w" "w \<le> max (receiveWindowSize c) (maxReceiveWindowSize c)"
    "\<not> hasWindowUpdate c \<and> w = receiveWindowSize c \<and> rw = receiveWindow c \<and> off = 0 \<or> hasWindowUpdate c \<and> rw = bytesRead c + w \<and> off = rw"
proof (cases "hasWindowUpdate c")
  case True
  obtain w t e where "maybeAdjustWindowSize c allow rtt now = c\<lparr>receiveWindowSize := w, epochStartTime := t, epochStartOffset := e\<rparr>"
     "receiveWindowSize c \<le> w" "w \<le> max (receiveWindowSize c) (maxReceiveWindowSize c)"
    using maybeAdjustWindowSize_frame by blast
  then show ?thesis using True assms
    by (intro that [where w = w and t = t and e = e and rw = "bytesRead c + w"]) (auto simp: base_getWindowUpdate_def Let_def)
next
  case False
  then show ?thesis using assms
    by (intro that [where w = "receiveWindowSize c" and t = "epochStartTime c" and e = "epochStartOffset c" and rw = "receiveWindow c"])
      (auto simp: base_getWindowUpdate_def)
qed

lemma base_inv_window:
  assumes "base_inv c" "base_getWindowUpdate c allow rtt now = (c', off)"
  shows "base_inv c' \<and> receiveWindow c \<le> receiveWindow c' \<and> (off = 0 \<or> off = receiveWindow c')"
  by (rule base_getWindowUpdate_frame [OF assms(2)]) (use assms(1) in \<open>auto simp: base_inv_def\<close>)

lemma base_inv_simple:
  "base_inv c \<Longrightarrow> base_inv (UpdateSendWindow c offset)"
  "base_inv c \<Longrightarrow> IsNewlyBlocked c = (c', b, off) \<Longrightarrow> base_inv c'"
  "base_inv c \<Longrightarrow> 0 \<le> n \<Longrightarrow> base_inv (base_AddBytesSent c n)"
  "base_inv c \<Longrightarrow> 0 \<le> n \<Longrightarrow> bytesRead c + n \<le> highestReceived c \<Longrightarrow> base_inv (base_addBytesRead c n now)"
  by (auto simp: base_inv_def UpdateSendWindow_def IsNewlyBlocked_def base_AddBytesSent_def sendWindowSize_def
      base_addBytesRead_def startNewAutoTuningEpoch_def Let_def split: if_splits)

lemma EnsureMinimumWindowSize_frame:
  assumes "EnsureMinimumWindowSize c allow inc now = Inr c'"
  obtains w t e where "c' = c\<lparr>receiveWindowSize := w, epochStartTime := t, epochStartOffset := e\<rparr>" "receiveWindowSize c \<le> w"
proof (cases "inc > receiveWindowSize c")
  case True
  then show ?thesis using assms
    by (intro that [where w = "receiveWindowSize c'" and t = now and e = "bytesRead c"])
      (auto simp: EnsureMinimumWindowSize_def startNewAutoTuningEpoch_def Let_def resultE split: if_splits option.splits)
next
  case False
  then show ?thesis using assms
    by (intro that [where w = "receiveWindowSize c" and t = "epochStartTime c" and e = "epochStartOffset c"])
      (auto simp: EnsureMinimumWindowSize_def)
qed

text \<open>The frames of the operations: which fields they change.\<close>

lemma flow_frame [simp]:
  "highestReceived (UpdateSendWindow c offset) = highestReceived c" "bytesRead (UpdateSendWindow c offset) = bytesRead c"
  "fc_bytesSent (UpdateSendWindow c offset) = fc_bytesSent c"
  "highestReceived (base_AddBytesSent c n) = highestReceived c" "bytesRead (base_AddBytesSent c n) = bytesRead c"
  "fc_bytesSent (base_AddBytesSent c n) = fc_bytesSent c + n"
  "highestReceived (base_addBytesRead c n now) = highestReceived c" "bytesRead (base_addBytesRead c n now) = bytesRead c + n"
  "fc_bytesSent (base_addBytesRead c n now) = fc_bytesSent c"
  by (auto simp: UpdateSendWindow_def base_AddBytesSent_def base_addBytesRead_def startNewAutoTuningEpoch_def Let_def)

lemma IsNewlyBlocked_frame:
  assumes "IsNewlyBlocked c = (c', b, off)"
  shows "highestReceived c' = highestReceived c \<and> bytesRead c' = bytesRead c \<and> fc_bytesSent c' = fc_bytesSent c"
  using assms by (auto simp: IsNewlyBlocked_def split: if_splits)

lemma base_getWindowUpdate_fields:
  assumes "base_getWindowUpdate c allow rtt now = (c', off)"
  shows "highestReceived c' = highestReceived c \<and> bytesRead c' = bytesRead c \<and> fc_bytesSent c' = fc_bytesSent c"
  by (rule base_getWindowUpdate_frame [OF assms]) auto

lemma final_frame [simp]:
  "receivedFinalOffset (UpdateSendWindow c offset) = receivedFinalOffset c"
  "receivedFinalOffset (base_AddBytesSent c n) = receivedFinalOffset c"
  "receivedFinalOffset (base_addBytesRead c n now) = receivedFinalOffset c"
  by (auto simp: UpdateSendWindow_def base_AddBytesSent_def base_addBytesRead_def startNewAutoTuningEpoch_def Let_def)

lemma final_frame_ops:
  "IsNewlyBlocked c = (c', b, off) \<Longrightarrow> receivedFinalOffset c' = receivedFinalOffset c"
  "base_getWindowUpdate d allow rtt now = (d', off') \<Longrightarrow> receivedFinalOffset d' = receivedFinalOffset d"
proof -
  show "IsNewlyBlocked c = (c', b, off) \<Longrightarrow> receivedFinalOffset c' = receivedFinalOffset c"
    by (auto simp: IsNewlyBlocked_def split: if_splits)
  assume "base_getWindowUpdate d allow rtt now = (d', off')"
  then show "receivedFinalOffset d' = receivedFinalOffset d" by (rule base_getWindowUpdate_frame) simp
qed

lemma UpdateHighestReceived_cases:
  assumes "UpdateHighestReceived c conn offset final = (c', conn', r)"
  shows "r = (if finalSizeViolated c offset final then Inl (TransportError FinalSizeError 0)
      else if creditExceeded c conn offset then Inl (TransportError FlowControlError 0) else Inr ())"
    "r = Inr () \<Longrightarrow> c' = c\<lparr>highestReceived := max (highestReceived c) offset, receivedFinalOffset := receivedFinalOffset c \<or> final\<rparr>
      \<and> conn' = conn\<lparr>highestReceived := highestReceived conn + max 0 (offset - highestReceived c)\<rparr>"
proof -
  show r: "r = (if finalSizeViolated c offset final then Inl (TransportError FinalSizeError 0)
      else if creditExceeded c conn offset then Inl (TransportError FlowControlError 0) else Inr ())"
    using assms by (auto simp: UpdateHighestReceived_def finalSizeViolated_def creditExceeded_def IncrementHighestReceived_def
        checkFlowControlViolation_def Let_def split: if_splits)
  assume "r = Inr ()"
  then have n: "\<not> finalSizeViolated c offset final" "\<not> creditExceeded c conn offset" using r by (auto split: if_splits)
  consider "offset = highestReceived c" | "offset < highestReceived c" | "offset > highestReceived c" by linarith
  then show "c' = c\<lparr>highestReceived := max (highestReceived c) offset, receivedFinalOffset := receivedFinalOffset c \<or> final\<rparr>
      \<and> conn' = conn\<lparr>highestReceived := highestReceived conn + max 0 (offset - highestReceived c)\<rparr>"
  proof cases
    case 1
    then show ?thesis using assms n by (cases final) (auto simp: UpdateHighestReceived_def finalSizeViolated_def Let_def)
  next
    case 2
    then show ?thesis using assms n by (cases final) (auto simp: UpdateHighestReceived_def finalSizeViolated_def Let_def)
  next
    case 3
    then show ?thesis using assms n
      by (cases final) (auto simp: UpdateHighestReceived_def finalSizeViolated_def creditExceeded_def
          IncrementHighestReceived_def checkFlowControlViolation_def Let_def)
  qed
qed

lemma flow_inv_upd:
  assumes "flow_inv f" "fs_streams f sid = Some c" "base_inv c'" "base_inv conn'"
    "sid \<in> fs_abandoned f \<Longrightarrow> receivedFinalOffset c'"
    "highestReceived conn' = highestReceived (fs_conn f) - highestReceived c + highestReceived c'"
    "bytesRead conn' = bytesRead (fs_conn f) - consumed (fs_abandoned f) sid c + consumed (fs_abandoned f) sid c'"
    "fc_bytesSent conn' = fc_bytesSent (fs_conn f) - fc_bytesSent c + fc_bytesSent c'"
  shows "flow_inv (f\<lparr>fs_streams := (fs_streams f)(sid \<mapsto> c'), fs_conn := conn'\<rparr>)"
  using assms by (auto simp: flow_inv_def streamSum_upd)

lemma flow_inv_conn:
  assumes "flow_inv f" "base_inv conn'" "highestReceived conn' = highestReceived (fs_conn f)" "bytesRead conn' = bytesRead (fs_conn f)"
    "fc_bytesSent conn' = fc_bytesSent (fs_conn f)"
  shows "flow_inv (f\<lparr>fs_conn := conn'\<rparr>)"
  using assms by (auto simp: flow_inv_def)

lemma flow_inv_get:
  assumes "flow_inv f" "fs_streams f sid = Some c"
  shows "base_inv c" "base_inv (fs_conn f)" "sid \<in> fs_abandoned f \<Longrightarrow> receivedFinalOffset c"
  using assms by (auto simp: flow_inv_def)

text \<open>What is unread on one stream is unread on the connection.\<close>

lemma unread_le:
  assumes "flow_inv f" "fs_streams f sid = Some c" "sid \<notin> fs_abandoned f"
  shows "highestReceived c - bytesRead c \<le> highestReceived (fs_conn f) - bytesRead (fs_conn f)"
proof -
  let ?d = "\<lambda>s. highestReceived (the (fs_streams f s)) - consumed (fs_abandoned f) s (the (fs_streams f s))"
  have fin: "finite (dom (fs_streams f))" "sid \<in> dom (fs_streams f)" using assms by (auto simp: flow_inv_def)
  have nn: "0 \<le> ?d s" if "s \<in> dom (fs_streams f)" for s
    using that assms(1) by (auto simp: flow_inv_def base_inv_def consumed_def)
  have "?d sid \<le> (\<Sum>s \<in> dom (fs_streams f). ?d s)"
    using fin nn by (intro member_le_sum) auto
  also have "\<dots> = highestReceived (fs_conn f) - bytesRead (fs_conn f)"
    using assms(1) by (simp add: flow_inv_def streamSum_def sum_subtractf)
  finally show ?thesis using assms(2,3) by (simp add: consumed_def)
qed

lemma fc_reachable_inv: "fc_reachable f \<Longrightarrow> flow_inv f"
proof (induction rule: fc_reachable.induct)
  case (new w m)
  then show ?case by (simp add: flow_inv_def base_inv_def NewConnectionFlowController_def streamSum_def)
next
  case (opened f sid w sw m)
  have b: "base_inv (NewStreamFlowController sid w m sw)" using opened by (simp add: base_inv_def NewStreamFlowController_def)
  show ?case using opened b
    by (auto simp: flow_inv_def streamSum_new consumed_def) (auto simp: NewStreamFlowController_def)
next
  case (received f sid c offset final c' conn')
  note u = UpdateHighestReceived_cases [OF received.hyps(4)]
  have eq: "c' = c\<lparr>highestReceived := max (highestReceived c) offset, receivedFinalOffset := receivedFinalOffset c \<or> final\<rparr>"
    "conn' = (fs_conn f)\<lparr>highestReceived := highestReceived (fs_conn f) + max 0 (offset - highestReceived c)\<rparr>" using u(2) by auto
  have n: "\<not> finalSizeViolated c offset final" "\<not> creditExceeded c (fs_conn f) offset" using u(1) by (auto split: if_splits)
  note g = flow_inv_get [OF received.IH received.hyps(2)]
  have "offset \<le> highestReceived c" if "sid \<in> fs_abandoned f" using n(1) g(3) [OF that] by (auto simp: finalSizeViolated_def)
  then show ?case using received.IH received.hyps(2,3) g n(2) unfolding eq
    by (intro flow_inv_upd) (auto simp: base_inv_def creditExceeded_def consumed_def)
next
  case (read f sid c n now c' conn' q q')
  note g = flow_inv_get [OF read.IH read.hyps(2)]
  have eq: "c' = base_addBytesRead c n now" "conn' = base_addBytesRead (fs_conn f) n now"
    using read.hyps(6) by (auto simp: stream_AddBytesRead_def conn_AddBytesRead_def Let_def)
  show ?case using read.IH read.hyps(2-5) g unread_le [OF read.IH read.hyps(2,3)] unfolding eq
    by (intro flow_inv_upd base_inv_simple(4)) (auto simp: consumed_def)
next
  case (abandoned f sid c now conn' q)
  note g = flow_inv_get [OF abandoned.IH abandoned.hyps(2)]
  have u: "highestReceived c - bytesRead c \<le> highestReceived (fs_conn f) - bytesRead (fs_conn f)"
    by (rule unread_le [OF abandoned.IH abandoned.hyps(2,3)])
  have d: "finite (dom (fs_streams f))" "sid \<in> dom (fs_streams f)" using abandoned by (auto simp: flow_inv_def)
  define n where "n = highestReceived c - bytesRead c"
  have nn: "0 \<le> n" using g(1) by (simp add: n_def base_inv_def)
  have i: "base_inv conn'" "highestReceived conn' = highestReceived (fs_conn f)" "bytesRead conn' = bytesRead (fs_conn f) + n"
    "fc_bytesSent conn' = fc_bytesSent (fs_conn f)"
    using abandoned.hyps(5) g(2) u nn
    by (auto simp: Abandon_def conn_AddBytesRead_def Let_def n_def intro!: base_inv_simple(4) split: if_splits)
  then show ?case using abandoned.IH abandoned.hyps d streamSum_abandon [OF d(1) abandoned.hyps(2,3)]
    by (auto simp: flow_inv_def n_def)
next
  case (sent f sid c n c' conn')
  note g = flow_inv_get [OF sent.IH sent.hyps(2)]
  show ?case using sent.IH sent.hyps g
    by (intro flow_inv_upd) (auto simp: stream_AddBytesSent_def consumed_def intro!: base_inv_simple(3))
next
  case (reset f conn')
  then have "bytesRead conn' = 0" "highestReceived conn' = 0" "fc_bytesSent conn' = 0" "base_inv conn'"
    by (auto simp: fc_Reset_def flow_inv_def base_inv_def split: if_splits)
  then show ?case by (simp add: flow_inv_def streamSum_def)
next
  case (maxData f offset)
  then show ?case using base_inv_simple(1) by (intro flow_inv_conn) (auto simp: flow_inv_def)
next
  case (maxStreamData f sid c offset)
  note g = flow_inv_get [OF maxStreamData.IH maxStreamData.hyps(2)]
  have "flow_inv (f\<lparr>fs_streams := (fs_streams f)(sid \<mapsto> UpdateSendWindow c offset), fs_conn := fs_conn f\<rparr>)"
    using maxStreamData g by (intro flow_inv_upd) (auto simp: consumed_def intro: base_inv_simple(1))
  then show ?case by simp
next
  case (blocked f conn' b off)
  then show ?case using IsNewlyBlocked_frame [OF blocked.hyps(2)] base_inv_simple(2) [OF _ blocked.hyps(2)]
    by (intro flow_inv_conn) (auto simp: flow_inv_def)
next
  case (streamBlocked f sid c c' b off)
  note g = flow_inv_get [OF streamBlocked.IH streamBlocked.hyps(2)]
  have "flow_inv (f\<lparr>fs_streams := (fs_streams f)(sid \<mapsto> c'), fs_conn := fs_conn f\<rparr>)"
    using streamBlocked g IsNewlyBlocked_frame [OF streamBlocked.hyps(3)] final_frame_ops(1) [OF streamBlocked.hyps(3)]
      base_inv_simple(2) [OF _ streamBlocked.hyps(3)] by (intro flow_inv_upd) (auto simp: consumed_def)
  then show ?case by simp
next
  case (update f allow rtt now conn' off)
  have u: "base_getWindowUpdate (fs_conn f) allow rtt now = (conn', off)" using update.hyps(2) by (simp add: conn_GetWindowUpdate_def)
  show ?case using update.IH base_getWindowUpdate_fields [OF u] base_inv_window [OF _ u]
    by (intro flow_inv_conn) (auto simp: flow_inv_def)
next
  case (streamUpdate f sid c allow rtt now c' conn' off)
  note g = flow_inv_get [OF streamUpdate.IH streamUpdate.hyps(2)]
  show ?case
  proof (cases "receivedFinalOffset c")
    case True
    then have eq: "c' = c" "conn' = fs_conn f" using streamUpdate.hyps(3) by (auto simp: stream_GetWindowUpdate_def)
    show ?thesis unfolding eq using streamUpdate g by (intro flow_inv_upd) auto
  next
    case False
    obtain d off' where d: "base_getWindowUpdate c None rtt now = (d, off')" by fastforce
    then have eq: "c' = d" and e: "conn' = fs_conn f \<or> (\<exists>inc. EnsureMinimumWindowSize (fs_conn f) allow inc now = Inr conn')"
      using streamUpdate.hyps(3) False by (auto simp: stream_GetWindowUpdate_def Let_def resultE split: if_splits)
    have k: "base_inv conn' \<and> highestReceived conn' = highestReceived (fs_conn f) \<and> bytesRead conn' = bytesRead (fs_conn f)
      \<and> fc_bytesSent conn' = fc_bytesSent (fs_conn f)"
      using e g(2) by (auto simp: base_inv_def elim!: EnsureMinimumWindowSize_frame)
    show ?thesis unfolding eq using streamUpdate.IH streamUpdate.hyps(2) g k base_getWindowUpdate_fields [OF d] base_inv_window [OF _ d]
        final_frame_ops(2) [OF d] by (intro flow_inv_upd) (auto simp: consumed_def)
  qed
qed

lemma hasWindowUpdate_iff:
  assumes "0 \<le> receiveWindowSize c" "receiveWindowSize c < 2 ^ 51"
  shows "hasWindowUpdate c \<longleftrightarrow> 4 * (receiveWindow c - bytesRead c) \<le> 3 * receiveWindowSize c"
proof -
  have n: "nat (receiveWindowSize c) < 2 ^ 51" using assms by (simp add: nat_less_iff)
  then have "nat (receiveWindowSize c) < 2 ^ 53" "nat (receiveWindowSize c) * 3 < 2 ^ 53" by simp_all
  then have "round_sig 53 (nat (receiveWindowSize c)) = nat (receiveWindowSize c)"
    "round_sig 53 (nat (receiveWindowSize c) * 3) = nat (receiveWindowSize c) * 3" using round_sig_exact by blast+
  moreover have "flt_sub 53 (1, 0) WindowUpdateThreshold = (3, 2)" by (simp add: flt_sub_def WindowUpdateThreshold_def round_sig_exact)
  ultimately have "flt_trunc (flt_mul 53 (float64 (receiveWindowSize c)) (flt_sub 53 (1, 0) WindowUpdateThreshold))
      = int (nat (receiveWindowSize c) * 3 div 4)"
    by (simp add: flt_trunc_def flt_mul_def flt_of_def)
  also have "\<dots> = receiveWindowSize c * 3 div 4" using assms(1) by (simp add: zdiv_int)
  finally show ?thesis by (auto simp: hasWindowUpdate_def Let_def)
qed

subsection \<open>Properties\<close>

text \<open>
  C33. Accounting of flow control over all streams of a connection, in every reachable state: the connection
  counts exactly the bytes received, consumed and sent on its streams, and neither a stream nor the
  connection has received more than it granted. What a stream may send is exactly what is left of its own
  window and of the window of the connection, and nothing when more was sent than the peer granted.
\<close>

theorem flow_control_accounting:
  assumes "fc_reachable f"
  shows "highestReceived (fs_conn f) = (\<Sum>sid \<in> dom (fs_streams f). highestReceived (the (fs_streams f sid)))
    \<and> bytesRead (fs_conn f) = (\<Sum>sid \<in> dom (fs_streams f). consumed (fs_abandoned f) sid (the (fs_streams f sid)))
    \<and> fc_bytesSent (fs_conn f) = (\<Sum>sid \<in> dom (fs_streams f). fc_bytesSent (the (fs_streams f sid)))
    \<and> bytesRead (fs_conn f) \<le> highestReceived (fs_conn f) \<and> highestReceived (fs_conn f) \<le> receiveWindow (fs_conn f)
    \<and> (fs_streams f sid = Some c \<longrightarrow> bytesRead c \<le> highestReceived c \<and> highestReceived c \<le> receiveWindow c
         \<and> stream_SendWindowSize c (fs_conn f)
             = max 0 (min (sendWindow c - fc_bytesSent c) (sendWindow (fs_conn f) - fc_bytesSent (fs_conn f))))"
  using fc_reachable_inv [OF assms]
  by (auto simp: flow_inv_def base_inv_def streamSum_def stream_SendWindowSize_def sendWindowSize_def)

theorem flow_control_accounting_witness:
  "\<exists>f c. fc_reachable f \<and> fs_streams f 4 = Some c \<and> highestReceived c = 700 \<and> highestReceived (fs_conn f) \<le> receiveWindow (fs_conn f)"
proof -
  define conn c0 where c: "conn = NewConnectionFlowController 1000 2000" "c0 = NewStreamFlowController 4 800 1600 500"
  define f0 where "f0 = \<lparr>fs_conn = conn, fs_streams = Map.empty, fs_abandoned = {}\<rparr>"
  have r0: "fc_reachable f0" unfolding f0_def c(1) by (rule fc_reachable.new) simp
  have r1: "fc_reachable (f0\<lparr>fs_streams := (fs_streams f0)(4 \<mapsto> c0)\<rparr>)" unfolding c(2)
    by (rule fc_reachable.opened [OF r0]) (simp_all add: f0_def)
  obtain c' conn' where u: "UpdateHighestReceived c0 conn 700 False = (c', conn', Inr ())" "highestReceived c' = 700"
    by (simp add: c UpdateHighestReceived_def NewConnectionFlowController_def NewStreamFlowController_def IncrementHighestReceived_def
        checkFlowControlViolation_def)
  have r2: "fc_reachable ((f0\<lparr>fs_streams := (fs_streams f0)(4 \<mapsto> c0)\<rparr>)\<lparr>fs_streams := (fs_streams (f0\<lparr>fs_streams := (fs_streams f0)(4 \<mapsto> c0)\<rparr>))(4 \<mapsto> c'), fs_conn := conn'\<rparr>)"
    by (rule fc_reachable.received [OF r1, of 4 c0 700 False]) (use u in \<open>simp_all add: f0_def\<close>)
  show ?thesis using flow_control_accounting [OF r2, of 4 c'] r2 u(2) by (intro exI conjI) (assumption | simp)+
qed

text \<open>
  C34. A new offset on a stream is judged exactly: it violates the final size if it contradicts a known or
  an announced final offset, it exceeds the credit if it is beyond the window of the stream or takes the
  connection beyond its own, and otherwise stream and connection advance by the new bytes.
\<close>

theorem UpdateHighestReceived_exact:
  shows "case UpdateHighestReceived c conn offset final of (c', conn', r) \<Rightarrow>
     r = (if finalSizeViolated c offset final then Inl (TransportError FinalSizeError 0)
          else if creditExceeded c conn offset then Inl (TransportError FlowControlError 0) else Inr ())
     \<and> (\<not> finalSizeViolated c offset final \<and> \<not> creditExceeded c conn offset \<longrightarrow>
          c' = c\<lparr>highestReceived := max (highestReceived c) offset, receivedFinalOffset := receivedFinalOffset c \<or> final\<rparr>
          \<and> conn' = conn\<lparr>highestReceived := highestReceived conn + max 0 (offset - highestReceived c)\<rparr>)"
proof -
  obtain c' conn' r where u: "UpdateHighestReceived c conn offset final = (c', conn', r)" by (cases "UpdateHighestReceived c conn offset final")
  show ?thesis using UpdateHighestReceived_cases [OF u] unfolding u prod.case by auto
qed

theorem UpdateHighestReceived_exact_witness:
  "case UpdateHighestReceived (NewStreamFlowController 4 800 1600 500) (NewConnectionFlowController 1000 2000) 900 False of
     (c', conn', r) \<Rightarrow> r = Inl (TransportError FlowControlError 0)"
  using UpdateHighestReceived_exact [where c = "NewStreamFlowController 4 800 1600 500" and conn = "NewConnectionFlowController 1000 2000"
      and offset = 900 and final = False]
  by (auto simp: finalSizeViolated_def creditExceeded_def NewStreamFlowController_def split: prod.splits)

text \<open>
  C35. Window updates make progress: one is due exactly when a quarter of the window was consumed, in
  particular when everything was read; it raises the limit strictly, to a full window beyond what was
  read, and the size of the window never exceeds its maximum or its old value.
\<close>

theorem window_update_progress:
  assumes inv: "base_inv c" and w: "0 < receiveWindowSize c" "receiveWindowSize c < 2 ^ 51"
    and u: "base_getWindowUpdate c allow rtt now = (c', off)"
  shows "(off \<noteq> 0 \<longleftrightarrow> 4 * (receiveWindow c - bytesRead c) \<le> 3 * receiveWindowSize c)
    \<and> (bytesRead c = receiveWindow c \<longrightarrow> off \<noteq> 0)
    \<and> (off \<noteq> 0 \<longrightarrow> receiveWindow c < off \<and> off = receiveWindow c' \<and> off = bytesRead c' + receiveWindowSize c')
    \<and> receiveWindowSize c \<le> receiveWindowSize c' \<and> receiveWindowSize c' \<le> max (receiveWindowSize c) (maxReceiveWindowSize c)"
proof -
  have h: "hasWindowUpdate c \<longleftrightarrow> 4 * (receiveWindow c - bytesRead c) \<le> 3 * receiveWindowSize c"
    using w by (intro hasWindowUpdate_iff) auto
  show ?thesis
    by (rule base_getWindowUpdate_frame [OF u]) (use inv w h in \<open>auto simp: base_inv_def\<close>)
qed

theorem window_update_progress_witness:
  "case base_getWindowUpdate ((NewConnectionFlowController 1000 2000)\<lparr>bytesRead := 600, highestReceived := 700\<rparr>) None NewRTTStats 5 of
     (c', off) \<Rightarrow> off \<noteq> 0 \<and> off = receiveWindow c'"
proof -
  obtain c' off where u: "base_getWindowUpdate ((NewConnectionFlowController 1000 2000)\<lparr>bytesRead := 600, highestReceived := 700\<rparr>) None NewRTTStats 5 = (c', off)"
    by fastforce
  show ?thesis using window_update_progress [OF _ _ _ u] unfolding u
    by (simp add: base_inv_def NewConnectionFlowController_def)
qed

end
