(* ===== verification/Frames.thy ===== *)
theory Frames
  imports Ack_Frame
begin

text \<open>
  The frames of QUIC other than ACK, from \<open>internal/wire\<close>: parsing, serialising, length, and the
  splitting of CRYPTO and STREAM frames. Parsers take the bytes after the frame type and return the
  frame and the bytes that are left. A byte slice is a list; nil and empty slices are not distinguished.
  The buffer pool of STREAM frames matters only through the capacity of its buffers.
\<close>

subsection \<open>Frame types\<close>

definition pingFrameType :: u64 where "pingFrameType = 0x1"
definition resetStreamFrameType :: u64 where "resetStreamFrameType = 0x4"
definition stopSendingFrameType :: u64 where "stopSendingFrameType = 0x5"
definition cryptoFrameType :: u64 where "cryptoFrameType = 0x6"
definition newTokenFrameType :: u64 where "newTokenFrameType = 0x7"
definition maxDataFrameType :: u64 where "maxDataFrameType = 0x10"
definition maxStreamDataFrameType :: u64 where "maxStreamDataFrameType = 0x11"
definition bidiMaxStreamsFrameType :: u64 where "bidiMaxStreamsFrameType = 0x12"
definition uniMaxStreamsFrameType :: u64 where "uniMaxStreamsFrameType = 0x13"
definition dataBlockedFrameType :: u64 where "dataBlockedFrameType = 0x14"
definition streamDataBlockedFrameType :: u64 where "streamDataBlockedFrameType = 0x15"
definition bidiStreamBlockedFrameType :: u64 where "bidiStreamBlockedFrameType = 0x16"
definition uniStreamBlockedFrameType :: u64 where "uniStreamBlockedFrameType = 0x17"
definition newConnectionIDFrameType :: u64 where "newConnectionIDFrameType = 0x18"
definition retireConnectionIDFrameType :: u64 where "retireConnectionIDFrameType = 0x19"
definition pathChallengeFrameType :: u64 where "pathChallengeFrameType = 0x1a"
definition pathResponseFrameType :: u64 where "pathResponseFrameType = 0x1b"
definition connectionCloseFrameType :: u64 where "connectionCloseFrameType = 0x1c"
definition applicationCloseFrameType :: u64 where "applicationCloseFrameType = 0x1d"
definition handshakeDoneFrameType :: u64 where "handshakeDoneFrameType = 0x1e"

subsection \<open>Connection IDs\<close>

type_synonym ConnectionID = "byte list"

definition maxConnectionIDLen :: nat where "maxConnectionIDLen = 20"

definition ReadConnectionID :: "byte list \<Rightarrow> nat \<Rightarrow> (ConnectionID \<times> byte list) result" where
  "ReadConnectionID r l =
     (if l = 0 then Inr ([], r)
      else if l > maxConnectionIDLen then Inl (Err ''invalid Connection ID length'')
      else case readFull r l of Inl ErrUnexpectedEOF \<Rightarrow> Inl EOF | x \<Rightarrow> x)"

subsection \<open>CONNECTION_CLOSE\<close>

record ConnectionCloseFrame =
  IsApplicationError :: bool
  cc_ErrorCode :: u64
  cc_FrameType :: u64
  ReasonPhrase :: "byte list"

definition parseConnectionCloseFrame :: "byte list \<Rightarrow> u64 \<Rightarrow> (ConnectionCloseFrame \<times> byte list) result" where
  "parseConnectionCloseFrame r typ =
     (let app = (typ = applicationCloseFrameType) in
      bindE (varint_Read r) (\<lambda>(ec, r).
      bindE (if \<not> app then varint_Read r else Inr (0, r)) (\<lambda>(ft, r).
      bindE (varint_Read r) (\<lambda>(reasonPhraseLen, r).
      if int64_of reasonPhraseLen > int (length r) then Inl EOF
      else bindE (readFull r (unat reasonPhraseLen)) (\<lambda>(reason, r).
        Inr (\<lparr>IsApplicationError = app, cc_ErrorCode = ec, cc_FrameType = ft, ReasonPhrase = reason\<rparr>, r))))))"

definition ConnectionCloseFrame_Length :: "ConnectionCloseFrame \<Rightarrow> ByteCount result" where
  "ConnectionCloseFrame_Length f =
     bindE (varint_Len (cc_ErrorCode f)) (\<lambda>l1.
     bindE (varint_Len (word_of_nat (length (ReasonPhrase f)))) (\<lambda>l2.
     let length' = 1 + l1 + l2 + int (length (ReasonPhrase f)) in
     if \<not> IsApplicationError f then bindE (varint_Len (cc_FrameType f)) (\<lambda>l3. Inr (length' + l3))
     else Inr length'))"

definition ConnectionCloseFrame_Append :: "byte list \<Rightarrow> ConnectionCloseFrame \<Rightarrow> byte list result" where
  "ConnectionCloseFrame_Append b f =
     (let b = b @ [if IsApplicationError f then ucast applicationCloseFrameType else ucast connectionCloseFrameType] in
      bindE (varint_Append b (cc_ErrorCode f)) (\<lambda>b.
      bindE (if \<not> IsApplicationError f then varint_Append b (cc_FrameType f) else Inr b) (\<lambda>b.
      bindE (varint_Append b (word_of_nat (length (ReasonPhrase f)))) (\<lambda>b.
      Inr (b @ ReasonPhrase f)))))"

subsection \<open>CRYPTO\<close>

record CryptoFrame =
  crypto_Offset :: ByteCount
  crypto_Data :: "byte list"

definition parseCryptoFrame :: "byte list \<Rightarrow> (CryptoFrame \<times> byte list) result" where
  "parseCryptoFrame r =
     bindE (varint_Read r) (\<lambda>(offset, r).
     bindE (varint_Read r) (\<lambda>(dataLen, r).
     if unat dataLen > length r then Inl EOF
     else if dataLen \<noteq> 0 then
       bindE (readFull r (unat dataLen)) (\<lambda>(data, r).
       Inr (\<lparr>crypto_Offset = int64_of offset, crypto_Data = data\<rparr>, r))
     else Inr (\<lparr>crypto_Offset = int64_of offset, crypto_Data = []\<rparr>, r)))"

definition CryptoFrame_Append :: "byte list \<Rightarrow> CryptoFrame \<Rightarrow> byte list result" where
  "CryptoFrame_Append b f =
     (let b = b @ [ucast cryptoFrameType] in
      bindE (varint_Append b (uint64_of (crypto_Offset f))) (\<lambda>b.
      bindE (varint_Append b (word_of_nat (length (crypto_Data f)))) (\<lambda>b.
      Inr (b @ crypto_Data f))))"

definition CryptoFrame_Length :: "CryptoFrame \<Rightarrow> ByteCount result" where
  "CryptoFrame_Length f =
     bindE (varint_Len (uint64_of (crypto_Offset f))) (\<lambda>l1.
     bindE (varint_Len (word_of_nat (length (crypto_Data f)))) (\<lambda>l2.
     Inr (1 + l1 + l2 + int (length (crypto_Data f)))))"

definition CryptoFrame_MaxDataLen :: "CryptoFrame \<Rightarrow> ByteCount \<Rightarrow> ByteCount result" where
  "CryptoFrame_MaxDataLen f maxSize =
     bindE (varint_Len (uint64_of (crypto_Offset f))) (\<lambda>l.
     let headerLen = 1 + l + 1 in
     if headerLen > maxSize then Inr 0
     else
       let maxDataLen = maxSize - headerLen in
       bindE (varint_Len (uint64_of maxDataLen)) (\<lambda>l.
       Inr (if l \<noteq> 1 then maxDataLen - 1 else maxDataLen)))"

text \<open>The result is the frame that is left, the frame that was split off, and whether a split was required.\<close>

definition CryptoFrame_MaybeSplitOffFrame ::
  "CryptoFrame \<Rightarrow> ByteCount \<Rightarrow> (CryptoFrame \<times> CryptoFrame option \<times> bool) result" where
  "CryptoFrame_MaybeSplitOffFrame f maxSize =
     bindE (CryptoFrame_Length f) (\<lambda>l.
     if l \<le> maxSize then Inr (f, None, False)
     else
       bindE (CryptoFrame_MaxDataLen f maxSize) (\<lambda>n.
       if n = 0 then Inr (f, None, True)
       else if n > int (length (crypto_Data f)) then Inl (Panic ''makeslice: len out of range'')
       else Inr (\<lparr>crypto_Offset = crypto_Offset f + n, crypto_Data = drop (nat n) (crypto_Data f)\<rparr>,
                 Some \<lparr>crypto_Offset = crypto_Offset f, crypto_Data = take (nat n) (crypto_Data f)\<rparr>, True)))"

subsection \<open>DATA_BLOCKED, MAX_DATA, RETIRE_CONNECTION_ID\<close>

record DataBlockedFrame =
  db_MaximumData :: ByteCount

definition parseDataBlockedFrame :: "byte list \<Rightarrow> (DataBlockedFrame \<times> byte list) result" where
  "parseDataBlockedFrame r = bindE (varint_Read r) (\<lambda>(offset, r). Inr (\<lparr>db_MaximumData = int64_of offset\<rparr>, r))"

definition DataBlockedFrame_Append :: "byte list \<Rightarrow> DataBlockedFrame \<Rightarrow> byte list result" where
  "DataBlockedFrame_Append b f = varint_Append (b @ [ucast dataBlockedFrameType]) (uint64_of (db_MaximumData f))"

definition DataBlockedFrame_Length :: "DataBlockedFrame \<Rightarrow> ByteCount result" where
  "DataBlockedFrame_Length f = bindE (varint_Len (uint64_of (db_MaximumData f))) (\<lambda>l. Inr (1 + l))"

record MaxDataFrame =
  md_MaximumData :: ByteCount

definition parseMaxDataFrame :: "byte list \<Rightarrow> (MaxDataFrame \<times> byte list) result" where
  "parseMaxDataFrame r = bindE (varint_Read r) (\<lambda>(byteOffset, r). Inr (\<lparr>md_MaximumData = int64_of byteOffset\<rparr>, r))"

definition MaxDataFrame_Append :: "byte list \<Rightarrow> MaxDataFrame \<Rightarrow> byte list result" where
  "MaxDataFrame_Append b f = varint_Append (b @ [ucast maxDataFrameType]) (uint64_of (md_MaximumData f))"

definition MaxDataFrame_Length :: "MaxDataFrame \<Rightarrow> ByteCount result" where
  "MaxDataFrame_Length f = bindE (varint_Len (uint64_of (md_MaximumData f))) (\<lambda>l. Inr (1 + l))"

record RetireConnectionIDFrame =
  rc_SequenceNumber :: u64

definition parseRetireConnectionIDFrame :: "byte list \<Rightarrow> (RetireConnectionIDFrame \<times> byte list) result" where
  "parseRetireConnectionIDFrame r = bindE (varint_Read r) (\<lambda>(seq, r). Inr (\<lparr>rc_SequenceNumber = seq\<rparr>, r))"

definition RetireConnectionIDFrame_Append :: "byte list \<Rightarrow> RetireConnectionIDFrame \<Rightarrow> byte list result" where
  "RetireConnectionIDFrame_Append b f = varint_Append (b @ [ucast retireConnectionIDFrameType]) (rc_SequenceNumber f)"

definition RetireConnectionIDFrame_Length :: "RetireConnectionIDFrame \<Rightarrow> ByteCount result" where
  "RetireConnectionIDFrame_Length f = bindE (varint_Len (rc_SequenceNumber f)) (\<lambda>l. Inr (1 + l))"

subsection \<open>MAX_STREAM_DATA, STREAM_DATA_BLOCKED\<close>

record MaxStreamDataFrame =
  msd_StreamID :: StreamID
  msd_MaximumStreamData :: ByteCount

definition parseMaxStreamDataFrame :: "byte list \<Rightarrow> (MaxStreamDataFrame \<times> byte list) result" where
  "parseMaxStreamDataFrame r =
     bindE (varint_Read r) (\<lambda>(sid, r).
     bindE (varint_Read r) (\<lambda>(offset, r).
     Inr (\<lparr>msd_StreamID = int64_of sid, msd_MaximumStreamData = int64_of offset\<rparr>, r)))"

definition MaxStreamDataFrame_Append :: "byte list \<Rightarrow> MaxStreamDataFrame \<Rightarrow> byte list result" where
  "MaxStreamDataFrame_Append b f =
     bindE (varint_Append (b @ [ucast maxStreamDataFrameType]) (uint64_of (msd_StreamID f))) (\<lambda>b.
     varint_Append b (uint64_of (msd_MaximumStreamData f)))"

definition MaxStreamDataFrame_Length :: "MaxStreamDataFrame \<Rightarrow> ByteCount result" where
  "MaxStreamDataFrame_Length f =
     bindE (varint_Len (uint64_of (msd_StreamID f))) (\<lambda>l1.
     bindE (varint_Len (uint64_of (msd_MaximumStreamData f))) (\<lambda>l2. Inr (1 + l1 + l2)))"

record StreamDataBlockedFrame =
  sdb_StreamID :: StreamID
  sdb_MaximumStreamData :: ByteCount

definition parseStreamDataBlockedFrame :: "byte list \<Rightarrow> (StreamDataBlockedFrame \<times> byte list) result" where
  "parseStreamDataBlockedFrame r =
     bindE (varint_Read r) (\<lambda>(sid, r).
     bindE (varint_Read r) (\<lambda>(offset, r).
     Inr (\<lparr>sdb_StreamID = int64_of sid, sdb_MaximumStreamData = int64_of offset\<rparr>, r)))"

definition StreamDataBlockedFrame_Append :: "byte list \<Rightarrow> StreamDataBlockedFrame \<Rightarrow> byte list result" where
  "StreamDataBlockedFrame_Append b f =
     bindE (varint_Append (b @ [0x15]) (uint64_of (sdb_StreamID f))) (\<lambda>b.
     varint_Append b (uint64_of (sdb_MaximumStreamData f)))"

definition StreamDataBlockedFrame_Length :: "StreamDataBlockedFrame \<Rightarrow> ByteCount result" where
  "StreamDataBlockedFrame_Length f =
     bindE (varint_Len (uint64_of (sdb_StreamID f))) (\<lambda>l1.
     bindE (varint_Len (uint64_of (sdb_MaximumStreamData f))) (\<lambda>l2. Inr (1 + l1 + l2)))"

subsection \<open>MAX_STREAMS, STREAMS_BLOCKED\<close>

text \<open>The zero value of a stream type is \<^const>\<open>StreamTypeUni\<close>.\<close>

record MaxStreamsFrame =
  ms_Type :: StreamType
  MaxStreamNum :: StreamNum

definition parseMaxStreamsFrame :: "byte list \<Rightarrow> u64 \<Rightarrow> (MaxStreamsFrame \<times> byte list) result" where
  "parseMaxStreamsFrame r typ =
     (let t = (if typ = bidiMaxStreamsFrameType then StreamTypeBidi else StreamTypeUni) in
      bindE (varint_Read r) (\<lambda>(streamID, r).
      if int64_of streamID > MaxStreamCount then Inl (Err ''exceeds the maximum stream count'')
      else Inr (\<lparr>ms_Type = t, MaxStreamNum = int64_of streamID\<rparr>, r)))"

definition MaxStreamsFrame_Append :: "byte list \<Rightarrow> MaxStreamsFrame \<Rightarrow> byte list result" where
  "MaxStreamsFrame_Append b f =
     (let b = (case ms_Type f of StreamTypeBidi \<Rightarrow> b @ [ucast bidiMaxStreamsFrameType]
               | StreamTypeUni \<Rightarrow> b @ [ucast uniMaxStreamsFrameType]) in
      varint_Append b (uint64_of (MaxStreamNum f)))"

definition MaxStreamsFrame_Length :: "MaxStreamsFrame \<Rightarrow> ByteCount result" where
  "MaxStreamsFrame_Length f = bindE (varint_Len (uint64_of (MaxStreamNum f))) (\<lambda>l. Inr (1 + l))"

record StreamsBlockedFrame =
  sb_Type :: StreamType
  StreamLimit :: StreamNum

definition parseStreamsBlockedFrame :: "byte list \<Rightarrow> u64 \<Rightarrow> (StreamsBlockedFrame \<times> byte list) result" where
  "parseStreamsBlockedFrame r typ =
     (let t = (if typ = bidiStreamBlockedFrameType then StreamTypeBidi else StreamTypeUni) in
      bindE (varint_Read r) (\<lambda>(streamLimit, r).
      if int64_of streamLimit > MaxStreamCount then Inl (Err ''exceeds the maximum stream count'')
      else Inr (\<lparr>sb_Type = t, StreamLimit = int64_of streamLimit\<rparr>, r)))"

definition StreamsBlockedFrame_Append :: "byte list \<Rightarrow> StreamsBlockedFrame \<Rightarrow> byte list result" where
  "StreamsBlockedFrame_Append b f =
     (let b = (case sb_Type f of StreamTypeBidi \<Rightarrow> b @ [ucast bidiStreamBlockedFrameType]
               | StreamTypeUni \<Rightarrow> b @ [ucast uniStreamBlockedFrameType]) in
      varint_Append b (uint64_of (StreamLimit f)))"

definition StreamsBlockedFrame_Length :: "StreamsBlockedFrame \<Rightarrow> ByteCount result" where
  "StreamsBlockedFrame_Length f = bindE (varint_Len (uint64_of (StreamLimit f))) (\<lambda>l. Inr (1 + l))"

subsection \<open>NEW_CONNECTION_ID, NEW_TOKEN\<close>

record NewConnectionIDFrame =
  nc_SequenceNumber :: u64
  RetirePriorTo :: u64
  nc_ConnectionID :: ConnectionID
  StatelessResetToken :: "byte list"

definition readArray :: "byte list \<Rightarrow> nat \<Rightarrow> (byte list \<times> byte list) result" where
  "readArray r n = (case readFull r n of Inl ErrUnexpectedEOF \<Rightarrow> Inl EOF | x \<Rightarrow> x)"

definition parseNewConnectionIDFrame :: "byte list \<Rightarrow> (NewConnectionIDFrame \<times> byte list) result" where
  "parseNewConnectionIDFrame r =
     bindE (varint_Read r) (\<lambda>(seq, r).
     bindE (varint_Read r) (\<lambda>(ret, r).
     if ret > seq then Inl (Err ''Retire Prior To value larger than Sequence Number'')
     else
       bindE (readByte r) (\<lambda>(connIDLen, r).
       bindE (ReadConnectionID r (unat connIDLen)) (\<lambda>(connID, r).
       bindE (readArray r 16) (\<lambda>(token, r).
       Inr (\<lparr>nc_SequenceNumber = seq, RetirePriorTo = ret, nc_ConnectionID = connID,
             StatelessResetToken = token\<rparr>, r))))))"

definition NewConnectionIDFrame_Append :: "byte list \<Rightarrow> NewConnectionIDFrame \<Rightarrow> byte list result" where
  "NewConnectionIDFrame_Append b f =
     bindE (varint_Append (b @ [ucast newConnectionIDFrameType]) (nc_SequenceNumber f)) (\<lambda>b.
     bindE (varint_Append b (RetirePriorTo f)) (\<lambda>b.
     let connIDLen = length (nc_ConnectionID f) in
     if connIDLen > MaxConnIDLen then Inl (Err ''invalid connection ID length'')
     else Inr (b @ [word_of_nat connIDLen] @ nc_ConnectionID f @ StatelessResetToken f)))"

definition NewConnectionIDFrame_Length :: "NewConnectionIDFrame \<Rightarrow> ByteCount result" where
  "NewConnectionIDFrame_Length f =
     bindE (varint_Len (nc_SequenceNumber f)) (\<lambda>l1.
     bindE (varint_Len (RetirePriorTo f)) (\<lambda>l2.
     Inr (1 + l1 + l2 + 1 + int (length (nc_ConnectionID f)) + 16)))"

record NewTokenFrame =
  Token :: "byte list"

definition parseNewTokenFrame :: "byte list \<Rightarrow> (NewTokenFrame \<times> byte list) result" where
  "parseNewTokenFrame r =
     bindE (varint_Read r) (\<lambda>(tokenLen, r).
     if length r < unat tokenLen then Inl EOF
     else if tokenLen = 0 then Inl (Err ''token must not be empty'')
     else bindE (readFull r (unat tokenLen)) (\<lambda>(token, r). Inr (\<lparr>Token = token\<rparr>, r)))"

definition NewTokenFrame_Append :: "byte list \<Rightarrow> NewTokenFrame \<Rightarrow> byte list result" where
  "NewTokenFrame_Append b f =
     bindE (varint_Append (b @ [ucast newTokenFrameType]) (word_of_nat (length (Token f)))) (\<lambda>b.
     Inr (b @ Token f))"

definition NewTokenFrame_Length :: "NewTokenFrame \<Rightarrow> ByteCount result" where
  "NewTokenFrame_Length f =
     bindE (varint_Len (word_of_nat (length (Token f)))) (\<lambda>l. Inr (1 + l + int (length (Token f))))"

subsection \<open>PATH_CHALLENGE, PATH_RESPONSE, PING, HANDSHAKE_DONE\<close>

record PathChallengeFrame =
  pc_Data :: "byte list"

definition parsePathChallengeFrame :: "byte list \<Rightarrow> (PathChallengeFrame \<times> byte list) result" where
  "parsePathChallengeFrame r = bindE (readArray r 8) (\<lambda>(d, r). Inr (\<lparr>pc_Data = d\<rparr>, r))"

definition PathChallengeFrame_Append :: "byte list \<Rightarrow> PathChallengeFrame \<Rightarrow> byte list result" where
  "PathChallengeFrame_Append b f = Inr (b @ [ucast pathChallengeFrameType] @ pc_Data f)"

definition PathChallengeFrame_Length :: "PathChallengeFrame \<Rightarrow> ByteCount result" where
  "PathChallengeFrame_Length f = Inr (1 + 8)"

record PathResponseFrame =
  presp_Data :: "byte list"

definition parsePathResponseFrame :: "byte list \<Rightarrow> (PathResponseFrame \<times> byte list) result" where
  "parsePathResponseFrame r = bindE (readArray r 8) (\<lambda>(d, r). Inr (\<lparr>presp_Data = d\<rparr>, r))"

definition PathResponseFrame_Append :: "byte list \<Rightarrow> PathResponseFrame \<Rightarrow> byte list result" where
  "PathResponseFrame_Append b f = Inr (b @ [ucast pathResponseFrameType] @ presp_Data f)"

definition PathResponseFrame_Length :: "PathResponseFrame \<Rightarrow> ByteCount result" where
  "PathResponseFrame_Length f = Inr (1 + 8)"

definition PingFrame_Append :: "byte list \<Rightarrow> byte list result" where
  "PingFrame_Append b = Inr (b @ [ucast pingFrameType])"

definition PingFrame_Length :: "ByteCount result" where
  "PingFrame_Length = Inr 1"

definition HandshakeDoneFrame_Append :: "byte list \<Rightarrow> byte list result" where
  "HandshakeDoneFrame_Append b = Inr (b @ [ucast handshakeDoneFrameType])"

definition HandshakeDoneFrame_Length :: "ByteCount result" where
  "HandshakeDoneFrame_Length = Inr 1"

subsection \<open>RESET_STREAM, STOP_SENDING\<close>

record ResetStreamFrame =
  rs_StreamID :: StreamID
  rs_ErrorCode :: u64
  FinalSize :: ByteCount

definition parseResetStreamFrame :: "byte list \<Rightarrow> (ResetStreamFrame \<times> byte list) result" where
  "parseResetStreamFrame r =
     bindE (varint_Read r) (\<lambda>(sid, r).
     bindE (varint_Read r) (\<lambda>(errorCode, r).
     bindE (varint_Read r) (\<lambda>(bo, r).
     Inr (\<lparr>rs_StreamID = int64_of sid, rs_ErrorCode = errorCode, FinalSize = int64_of bo\<rparr>, r))))"

definition ResetStreamFrame_Append :: "byte list \<Rightarrow> ResetStreamFrame \<Rightarrow> byte list result" where
  "ResetStreamFrame_Append b f =
     bindE (varint_Append (b @ [ucast resetStreamFrameType]) (uint64_of (rs_StreamID f))) (\<lambda>b.
     bindE (varint_Append b (rs_ErrorCode f)) (\<lambda>b.
     varint_Append b (uint64_of (FinalSize f))))"

definition ResetStreamFrame_Length :: "ResetStreamFrame \<Rightarrow> ByteCount result" where
  "ResetStreamFrame_Length f =
     bindE (varint_Len (uint64_of (rs_StreamID f))) (\<lambda>l1.
     bindE (varint_Len (rs_ErrorCode f)) (\<lambda>l2.
     bindE (varint_Len (uint64_of (FinalSize f))) (\<lambda>l3. Inr (1 + l1 + l2 + l3))))"

record StopSendingFrame =
  ss_StreamID :: StreamID
  ss_ErrorCode :: u64

definition parseStopSendingFrame :: "byte list \<Rightarrow> (StopSendingFrame \<times> byte list) result" where
  "parseStopSendingFrame r =
     bindE (varint_Read r) (\<lambda>(streamID, r).
     bindE (varint_Read r) (\<lambda>(errorCode, r).
     Inr (\<lparr>ss_StreamID = int64_of streamID, ss_ErrorCode = errorCode\<rparr>, r)))"

definition StopSendingFrame_Append :: "byte list \<Rightarrow> StopSendingFrame \<Rightarrow> byte list result" where
  "StopSendingFrame_Append b f =
     bindE (varint_Append (b @ [ucast stopSendingFrameType]) (uint64_of (ss_StreamID f))) (\<lambda>b.
     varint_Append b (ss_ErrorCode f))"

definition StopSendingFrame_Length :: "StopSendingFrame \<Rightarrow> ByteCount result" where
  "StopSendingFrame_Length f =
     bindE (varint_Len (uint64_of (ss_StreamID f))) (\<lambda>l1.
     bindE (varint_Len (ss_ErrorCode f)) (\<lambda>l2. Inr (1 + l1 + l2)))"

subsection \<open>DATAGRAM\<close>

record DatagramFrame =
  dg_DataLenPresent :: bool
  dg_Data :: "byte list"

definition parseDatagramFrame :: "byte list \<Rightarrow> u64 \<Rightarrow> (DatagramFrame \<times> byte list) result" where
  "parseDatagramFrame r typ =
     (let present = (typ AND 0x1 > 0) in
      bindE (if present then
               bindE (varint_Read r) (\<lambda>(len, r). if unat len > length r then Inl EOF else Inr (unat len, r))
             else Inr (length r, r)) (\<lambda>(len, r).
      bindE (readFull r len) (\<lambda>(d, r). Inr (\<lparr>dg_DataLenPresent = present, dg_Data = d\<rparr>, r))))"

definition DatagramFrame_Append :: "byte list \<Rightarrow> DatagramFrame \<Rightarrow> byte list result" where
  "DatagramFrame_Append b f =
     (let b = b @ [if dg_DataLenPresent f then 0x30 XOR 0b1 else 0x30] in
      bindE (if dg_DataLenPresent f then varint_Append b (word_of_nat (length (dg_Data f))) else Inr b) (\<lambda>b.
      Inr (b @ dg_Data f)))"

definition DatagramFrame_MaxDataLen :: "DatagramFrame \<Rightarrow> ByteCount \<Rightarrow> ByteCount result" where
  "DatagramFrame_MaxDataLen f maxSize =
     (let headerLen = (if dg_DataLenPresent f then 1 + 1 else 1) in
      if headerLen > maxSize then Inr 0
      else
        let maxDataLen = maxSize - headerLen in
        if dg_DataLenPresent f then
          bindE (varint_Len (uint64_of maxDataLen)) (\<lambda>l. Inr (if l \<noteq> 1 then maxDataLen - 1 else maxDataLen))
        else Inr maxDataLen)"

definition DatagramFrame_Length :: "DatagramFrame \<Rightarrow> ByteCount result" where
  "DatagramFrame_Length f =
     (let length' = 1 + int (length (dg_Data f)) in
      if dg_DataLenPresent f then bindE (varint_Len (word_of_nat (length (dg_Data f)))) (\<lambda>l. Inr (length' + l))
      else Inr length')"

subsection \<open>STREAM and the buffer pool\<close>

text \<open>
  \<open>stream_cap\<close> is the capacity of the buffer behind \<open>stream_Data\<close>. Reslicing keeps it. A frame taken
  from the pool may carry the other fields of its last use; every caller sets them.
\<close>

record StreamFrame =
  stream_StreamID :: StreamID
  stream_Offset :: ByteCount
  stream_Data :: "byte list"
  stream_Fin :: bool
  stream_DataLenPresent :: bool
  fromPool :: bool
  stream_cap :: ByteCount

definition GetStreamFrame :: StreamFrame where
  "GetStreamFrame = \<lparr>stream_StreamID = 0, stream_Offset = 0, stream_Data = [], stream_Fin = False,
     stream_DataLenPresent = False, fromPool = True, stream_cap = MaxPacketBufferSize\<rparr>"

text \<open>The result tells whether the frame goes back to the pool.\<close>

definition putStreamFrame :: "StreamFrame \<Rightarrow> bool result" where
  "putStreamFrame f =
     (if \<not> fromPool f then Inr False
      else if stream_cap f \<noteq> MaxPacketBufferSize then
        Inl (Panic ''wire.PutStreamFrame called with packet of wrong size!'')
      else Inr True)"

definition StreamFrame_DataLen :: "StreamFrame \<Rightarrow> ByteCount" where
  "StreamFrame_DataLen f = int (length (stream_Data f))"

definition parseStreamFrame :: "byte list \<Rightarrow> u64 \<Rightarrow> (StreamFrame \<times> byte list) result" where
  "parseStreamFrame r typ =
     (let hasOffset = (typ AND 0b100 > 0);
          fin = (typ AND 0b1 > 0);
          hasDataLen = (typ AND 0b10 > 0) in
      bindE (varint_Read r) (\<lambda>(streamID, r).
      bindE (if hasOffset then varint_Read r else Inr (0, r)) (\<lambda>(offset, r).
      bindE (if hasDataLen then bindE (varint_Read r) (\<lambda>(l, r). Inr (unat l, r))
             else Inr (length r, r)) (\<lambda>(dataLen, r).
      bindE (if dataLen < MinStreamFrameBufferSize then
               Inr (GetStreamFrame\<lparr>fromPool := False, stream_cap := int dataLen\<rparr>)
             else if int dataLen > stream_cap GetStreamFrame then Inl EOF
             else Inr GetStreamFrame) (\<lambda>frame.
      let frame = frame\<lparr>stream_StreamID := int64_of streamID, stream_Offset := int64_of offset,
                        stream_Fin := fin, stream_DataLenPresent := hasDataLen\<rparr> in
      bindE (if dataLen \<noteq> 0 then readFull r dataLen else Inr ([], r)) (\<lambda>(d, r).
      let frame = frame\<lparr>stream_Data := d\<rparr> in
      if stream_Offset frame + StreamFrame_DataLen frame > MaxByteCount then
        Inl (Err ''stream data overflows maximum offset'')
      else Inr (frame, r)))))))"

definition StreamFrame_Append :: "byte list \<Rightarrow> StreamFrame \<Rightarrow> byte list result" where
  "StreamFrame_Append b f =
     (if stream_Data f = [] \<and> \<not> stream_Fin f then
        Inl (Err ''StreamFrame: attempting to write empty frame without FIN'')
      else
        let typ = (0x8 :: byte);
            typ = (if stream_Fin f then typ XOR 0b1 else typ);
            hasOffset = (stream_Offset f \<noteq> 0);
            typ = (if stream_DataLenPresent f then typ XOR 0b10 else typ);
            typ = (if hasOffset then typ XOR 0b100 else typ) in
        bindE (varint_Append (b @ [typ]) (uint64_of (stream_StreamID f))) (\<lambda>b.
        bindE (if hasOffset then varint_Append b (uint64_of (stream_Offset f)) else Inr b) (\<lambda>b.
        bindE (if stream_DataLenPresent f then varint_Append b (uint64_of (StreamFrame_DataLen f)) else Inr b) (\<lambda>b.
        Inr (b @ stream_Data f)))))"

definition StreamFrame_Length :: "StreamFrame \<Rightarrow> ByteCount result" where
  "StreamFrame_Length f =
     bindE (varint_Len (uint64_of (stream_StreamID f))) (\<lambda>l1.
     bindE (if stream_Offset f \<noteq> 0 then varint_Len (uint64_of (stream_Offset f)) else Inr 0) (\<lambda>l2.
     bindE (if stream_DataLenPresent f then varint_Len (uint64_of (StreamFrame_DataLen f)) else Inr 0) (\<lambda>l3.
     Inr (1 + l1 + l2 + l3 + StreamFrame_DataLen f))))"

definition StreamFrame_MaxDataLen :: "StreamFrame \<Rightarrow> ByteCount \<Rightarrow> ByteCount result" where
  "StreamFrame_MaxDataLen f maxSize =
     bindE (varint_Len (uint64_of (stream_StreamID f))) (\<lambda>l1.
     bindE (if stream_Offset f \<noteq> 0 then varint_Len (uint64_of (stream_Offset f)) else Inr 0) (\<lambda>l2.
     let headerLen = 1 + l1 + l2;
         headerLen = (if stream_DataLenPresent f then headerLen + 1 else headerLen) in
     if headerLen > maxSize then Inr 0
     else
       let maxDataLen = maxSize - headerLen in
       if stream_DataLenPresent f then
         bindE (varint_Len (uint64_of maxDataLen)) (\<lambda>l. Inr (if l \<noteq> 1 then maxDataLen - 1 else maxDataLen))
       else Inr maxDataLen))"

text \<open>The frame that is left takes the buffer of the pool, which must hold the rest of the data.\<close>

definition StreamFrame_MaybeSplitOffFrame ::
  "StreamFrame \<Rightarrow> ByteCount \<Rightarrow> (StreamFrame \<times> StreamFrame option \<times> bool) result" where
  "StreamFrame_MaybeSplitOffFrame f maxSize =
     bindE (StreamFrame_Length f) (\<lambda>l.
     if maxSize \<ge> l then Inr (f, None, False)
     else
       bindE (StreamFrame_MaxDataLen f maxSize) (\<lambda>n.
       if n = 0 then Inr (f, None, True)
       else
         let new = GetStreamFrame;
             rest = int (length (stream_Data f)) - n in
         if rest < 0 \<or> rest > stream_cap new then Inl (Panic ''slice bounds out of range'')
         else
           Inr (f\<lparr>stream_Data := drop (nat n) (stream_Data f), stream_Offset := stream_Offset f + n,
                  fromPool := fromPool new, stream_cap := stream_cap new\<rparr>,
                Some (new\<lparr>stream_StreamID := stream_StreamID f, stream_Offset := stream_Offset f,
                  stream_Fin := False, stream_DataLenPresent := stream_DataLenPresent f,
                  stream_Data := take (nat n) (stream_Data f),
                  fromPool := fromPool f, stream_cap := stream_cap f\<rparr>), True)))"

subsection \<open>Frames\<close>

datatype wire_Frame =
    AckF AckFrame
  | ConnectionCloseF ConnectionCloseFrame
  | CryptoF CryptoFrame
  | DataBlockedF DataBlockedFrame
  | DatagramF DatagramFrame
  | HandshakeDoneF
  | MaxDataF MaxDataFrame
  | MaxStreamDataF MaxStreamDataFrame
  | MaxStreamsF MaxStreamsFrame
  | NewConnectionIDF NewConnectionIDFrame
  | NewTokenF NewTokenFrame
  | PathChallengeF PathChallengeFrame
  | PathResponseF PathResponseFrame
  | PingF
  | ResetStreamF ResetStreamFrame
  | RetireConnectionIDF RetireConnectionIDFrame
  | StopSendingF StopSendingFrame
  | StreamF StreamFrame
  | StreamDataBlockedF StreamDataBlockedFrame
  | StreamsBlockedF StreamsBlockedFrame

fun frame_Append :: "byte list \<Rightarrow> wire_Frame \<Rightarrow> byte list result" where
  "frame_Append b (AckF f) = AckFrame_Append b f"
| "frame_Append b (ConnectionCloseF f) = ConnectionCloseFrame_Append b f"
| "frame_Append b (CryptoF f) = CryptoFrame_Append b f"
| "frame_Append b (DataBlockedF f) = DataBlockedFrame_Append b f"
| "frame_Append b (DatagramF f) = DatagramFrame_Append b f"
| "frame_Append b HandshakeDoneF = HandshakeDoneFrame_Append b"
| "frame_Append b (MaxDataF f) = MaxDataFrame_Append b f"
| "frame_Append b (MaxStreamDataF f) = MaxStreamDataFrame_Append b f"
| "frame_Append b (MaxStreamsF f) = MaxStreamsFrame_Append b f"
| "frame_Append b (NewConnectionIDF f) = NewConnectionIDFrame_Append b f"
| "frame_Append b (NewTokenF f) = NewTokenFrame_Append b f"
| "frame_Append b (PathChallengeF f) = PathChallengeFrame_Append b f"
| "frame_Append b (PathResponseF f) = PathResponseFrame_Append b f"
| "frame_Append b PingF = PingFrame_Append b"
| "frame_Append b (ResetStreamF f) = ResetStreamFrame_Append b f"
| "frame_Append b (RetireConnectionIDF f) = RetireConnectionIDFrame_Append b f"
| "frame_Append b (StopSendingF f) = StopSendingFrame_Append b f"
| "frame_Append b (StreamF f) = StreamFrame_Append b f"
| "frame_Append b (StreamDataBlockedF f) = StreamDataBlockedFrame_Append b f"
| "frame_Append b (StreamsBlockedF f) = StreamsBlockedFrame_Append b f"

fun frame_Length :: "wire_Frame \<Rightarrow> ByteCount result" where
  "frame_Length (AckF f) = AckFrame_Length f"
| "frame_Length (ConnectionCloseF f) = ConnectionCloseFrame_Length f"
| "frame_Length (CryptoF f) = CryptoFrame_Length f"
| "frame_Length (DataBlockedF f) = DataBlockedFrame_Length f"
| "frame_Length (DatagramF f) = DatagramFrame_Length f"
| "frame_Length HandshakeDoneF = HandshakeDoneFrame_Length"
| "frame_Length (MaxDataF f) = MaxDataFrame_Length f"
| "frame_Length (MaxStreamDataF f) = MaxStreamDataFrame_Length f"
| "frame_Length (MaxStreamsF f) = MaxStreamsFrame_Length f"
| "frame_Length (NewConnectionIDF f) = NewConnectionIDFrame_Length f"
| "frame_Length (NewTokenF f) = NewTokenFrame_Length f"
| "frame_Length (PathChallengeF f) = PathChallengeFrame_Length f"
| "frame_Length (PathResponseF f) = PathResponseFrame_Length f"
| "frame_Length PingF = PingFrame_Length"
| "frame_Length (ResetStreamF f) = ResetStreamFrame_Length f"
| "frame_Length (RetireConnectionIDF f) = RetireConnectionIDFrame_Length f"
| "frame_Length (StopSendingF f) = StopSendingFrame_Length f"
| "frame_Length (StreamF f) = StreamFrame_Length f"
| "frame_Length (StreamDataBlockedF f) = StreamDataBlockedFrame_Length f"
| "frame_Length (StreamsBlockedF f) = StreamsBlockedFrame_Length f"

definition varnum :: "int \<Rightarrow> bool" where
  "varnum x \<longleftrightarrow> 0 \<le> x \<and> x < 2 ^ 62"

text \<open>What a frame must satisfy to be sent: its numbers fit the wire format, its arrays have their length.\<close>

fun frame_wf :: "wire_Frame \<Rightarrow> bool" where
  "frame_wf (AckF f) = encodable f"
| "frame_wf (ConnectionCloseF f) = (cc_ErrorCode f \<le> maxVarInt8 \<and> cc_FrameType f \<le> maxVarInt8
     \<and> varnum (int (length (ReasonPhrase f))))"
| "frame_wf (CryptoF f) = (varnum (crypto_Offset f) \<and> varnum (int (length (crypto_Data f))))"
| "frame_wf (DataBlockedF f) = varnum (db_MaximumData f)"
| "frame_wf (DatagramF f) = varnum (int (length (dg_Data f)))"
| "frame_wf HandshakeDoneF = True"
| "frame_wf (MaxDataF f) = varnum (md_MaximumData f)"
| "frame_wf (MaxStreamDataF f) = (varnum (msd_StreamID f) \<and> varnum (msd_MaximumStreamData f))"
| "frame_wf (MaxStreamsF f) = (0 \<le> MaxStreamNum f \<and> MaxStreamNum f \<le> MaxStreamCount)"
| "frame_wf (NewConnectionIDF f) = (nc_SequenceNumber f \<le> maxVarInt8 \<and> RetirePriorTo f \<le> nc_SequenceNumber f
     \<and> length (nc_ConnectionID f) \<le> MaxConnIDLen \<and> length (StatelessResetToken f) = 16)"
| "frame_wf (NewTokenF f) = (Token f \<noteq> [] \<and> varnum (int (length (Token f))))"
| "frame_wf (PathChallengeF f) = (length (pc_Data f) = 8)"
| "frame_wf (PathResponseF f) = (length (presp_Data f) = 8)"
| "frame_wf PingF = True"
| "frame_wf (ResetStreamF f) = (varnum (rs_StreamID f) \<and> rs_ErrorCode f \<le> maxVarInt8 \<and> varnum (FinalSize f))"
| "frame_wf (RetireConnectionIDF f) = (rc_SequenceNumber f \<le> maxVarInt8)"
| "frame_wf (StopSendingF f) = (varnum (ss_StreamID f) \<and> ss_ErrorCode f \<le> maxVarInt8)"
| "frame_wf (StreamF f) = (varnum (stream_StreamID f) \<and> varnum (stream_Offset f)
     \<and> stream_Offset f + StreamFrame_DataLen f \<le> MaxByteCount
     \<and> StreamFrame_DataLen f \<le> MaxPacketBufferSize \<and> (stream_Data f = [] \<longrightarrow> stream_Fin f))"
| "frame_wf (StreamDataBlockedF f) = (varnum (sdb_StreamID f) \<and> varnum (sdb_MaximumStreamData f))"
| "frame_wf (StreamsBlockedF f) = (0 \<le> StreamLimit f \<and> StreamLimit f \<le> MaxStreamCount)"

text \<open>
  The frame that the peer sees: an ACK is cut to the ranges that fit and its delay rounded down, an
  application close has no frame type, and the buffer of STREAM data is the parser's.
\<close>

definition ack_norm :: "AckFrame \<Rightarrow> AckFrame" where
  "ack_norm f = f\<lparr>AckRanges := take (case numEncodableAckRanges f of Inr n \<Rightarrow> nat n | Inl _ \<Rightarrow> 0) (AckRanges f),
     DelayTime := DelayTime f div 8000 * 8000\<rparr>"

definition stream_norm :: "StreamFrame \<Rightarrow> StreamFrame" where
  "stream_norm f = (if length (stream_Data f) < MinStreamFrameBufferSize
     then f\<lparr>fromPool := False, stream_cap := StreamFrame_DataLen f\<rparr>
     else f\<lparr>fromPool := True, stream_cap := MaxPacketBufferSize\<rparr>)"

fun frame_norm :: "wire_Frame \<Rightarrow> wire_Frame" where
  "frame_norm (AckF f) = AckF (ack_norm f)"
| "frame_norm (ConnectionCloseF f) =
     ConnectionCloseF (if IsApplicationError f then f\<lparr>cc_FrameType := 0\<rparr> else f)"
| "frame_norm (StreamF f) = StreamF (stream_norm f)"
| "frame_norm f = f"

text \<open>STREAM and DATAGRAM frames without a length extend to the end of the packet.\<close>

fun selfDelimiting :: "wire_Frame \<Rightarrow> bool" where
  "selfDelimiting (StreamF f) = stream_DataLenPresent f"
| "selfDelimiting (DatagramF f) = dg_DataLenPresent f"
| "selfDelimiting _ = True"

definition codec :: "(byte list \<Rightarrow> byte list result) \<Rightarrow> ByteCount result \<Rightarrow> byte \<Rightarrow> bool \<Rightarrow>
    (byte list \<Rightarrow> ('f \<times> byte list) result) \<Rightarrow> 'f \<Rightarrow> bool" where
  "codec app len t self parse f \<longleftrightarrow>
     (\<exists>bs. (\<forall>b. app b = Inr (b @ t # bs)) \<and> len = Inr (1 + int (length bs))
       \<and> (\<forall>r. self \<or> r = [] \<longrightarrow> parse (bs @ r) = Inr (f, r)))"

definition streamType :: "StreamFrame \<Rightarrow> byte" where
  "streamType f = 8 + (if stream_Fin f then 1 else 0) + (if stream_DataLenPresent f then 2 else 0)
     + (if stream_Offset f \<noteq> 0 then 4 else 0)"

abbreviation streamHead :: "StreamFrame \<Rightarrow> byte list" where
  "streamHead f \<equiv> vbytes (uint64_of (stream_StreamID f))
    @ (if stream_Offset f \<noteq> 0 then vbytes (uint64_of (stream_Offset f)) else [])
    @ (if stream_DataLenPresent f then vbytes (uint64_of (StreamFrame_DataLen f)) else [])"

text \<open>The data that fits into \<open>maxSize\<close> bytes after a header of \<open>h\<close> bytes and its own length.\<close>

definition fits :: "int \<Rightarrow> int \<Rightarrow> int" where
  "fits h maxSize = (if h + 1 > maxSize then 0
     else if maxSize - (h + 1) < 64 then maxSize - (h + 1) else maxSize - (h + 1) - 1)"

definition buffer_ok :: "StreamFrame \<Rightarrow> bool" where
  "buffer_ok f \<longleftrightarrow> StreamFrame_DataLen f \<le> stream_cap f \<and> (fromPool f \<longrightarrow> stream_cap f = MaxPacketBufferSize)"

definition streamHdr :: "StreamFrame \<Rightarrow> int" where
  "streamHdr f = 1 + vlen (uint64_of (stream_StreamID f))
    + (if stream_Offset f \<noteq> 0 then vlen (uint64_of (stream_Offset f)) else 0)"

definition stream_split :: "StreamFrame \<Rightarrow> StreamFrame \<Rightarrow> StreamFrame \<Rightarrow> bool" where
  "stream_split f new rest \<longleftrightarrow>
     stream_Data new \<noteq> [] \<and> stream_Data rest \<noteq> [] \<and> stream_Data new @ stream_Data rest = stream_Data f
     \<and> stream_Offset new = stream_Offset f \<and> stream_Offset rest = stream_Offset f + StreamFrame_DataLen new
     \<and> \<not> stream_Fin new \<and> stream_Fin rest = stream_Fin f
     \<and> stream_StreamID new = stream_StreamID f \<and> stream_StreamID rest = stream_StreamID f
     \<and> stream_DataLenPresent new = stream_DataLenPresent f \<and> stream_DataLenPresent rest = stream_DataLenPresent f"

definition crypto_split :: "CryptoFrame \<Rightarrow> CryptoFrame \<Rightarrow> CryptoFrame \<Rightarrow> bool" where
  "crypto_split f new rest \<longleftrightarrow>
     crypto_Data new \<noteq> [] \<and> crypto_Data rest \<noteq> [] \<and> crypto_Data new @ crypto_Data rest = crypto_Data f
     \<and> crypto_Offset new = crypto_Offset f \<and> crypto_Offset rest = crypto_Offset f + int (length (crypto_Data new))"

subsection \<open>Well-formed frames\<close>

lemma codecI:
  assumes "\<And>r. self \<or> r = [] \<Longrightarrow> parse (bs @ r) = Inr (f, r)"
    "len = Inr (1 + int (length bs))" "\<And>b. app b = Inr (b @ t # bs)"
  shows "codec app len t self parse f"
  unfolding codec_def by (intro exI [of _ bs] conjI allI impI assms)

lemma varnum_le [simp]: "varnum x \<Longrightarrow> uint64_of x \<le> maxVarInt8"
  by (simp add: varnum_def le_max_uint64_of)

lemma varnum_of [simp]:
  "varnum x \<Longrightarrow> int64_of (uint64_of x) = x" "varnum x \<Longrightarrow> unat (uint64_of x) = nat x"
  by (auto simp: varnum_def uint_uint64_of simp flip: nat_uint_eq)

lemma varnum_0 [simp]: "varnum x \<Longrightarrow> uint64_of x = 0 \<longleftrightarrow> x = 0"
  using uint_uint64_of [of x] by (auto simp: varnum_def uint64_of_def)

lemma varint_facts:
  assumes "i \<le> maxVarInt8"
  shows "varint_Append b i = Inr (b @ vbytes i)" "varint_Len i = Inr (int (length (vbytes i)))"
    "varint_Read (vbytes i @ r) = Inr (i, r)" "varint_Read (vbytes i) = Inr (i, [])"
  using assms varint_Read_vbytes [of i "[]"]
  by (simp_all add: varint_Append_vbytes varint_Len_vlen length_vbytes varint_Read_vbytes)

lemma word_of_length: "(word_of_nat n :: u64) = uint64_of (int n)"
  by (simp add: uint64_of_def)

lemmas codec_simps = varint_facts word_of_length Let_def

lemma simple_codecs:
  "varnum (db_MaximumData f1) \<Longrightarrow> codec (\<lambda>b. DataBlockedFrame_Append b f1) (DataBlockedFrame_Length f1)
     (ucast dataBlockedFrameType) True parseDataBlockedFrame f1"
  "varnum (md_MaximumData f2) \<Longrightarrow> codec (\<lambda>b. MaxDataFrame_Append b f2) (MaxDataFrame_Length f2)
     (ucast maxDataFrameType) True parseMaxDataFrame f2"
  "rc_SequenceNumber f3 \<le> maxVarInt8 \<Longrightarrow> codec (\<lambda>b. RetireConnectionIDFrame_Append b f3)
     (RetireConnectionIDFrame_Length f3) (ucast retireConnectionIDFrameType) True parseRetireConnectionIDFrame f3"
  by (rule codecI; simp add: DataBlockedFrame_Append_def DataBlockedFrame_Length_def parseDataBlockedFrame_def
    MaxDataFrame_Append_def MaxDataFrame_Length_def parseMaxDataFrame_def RetireConnectionIDFrame_Append_def 
    RetireConnectionIDFrame_Length_def parseRetireConnectionIDFrame_def codec_simps)+

lemma stream_number_codecs:
  "varnum (msd_StreamID f1) \<Longrightarrow> varnum (msd_MaximumStreamData f1) \<Longrightarrow>
   codec (\<lambda>b. MaxStreamDataFrame_Append b f1) (MaxStreamDataFrame_Length f1)
     (ucast maxStreamDataFrameType) True parseMaxStreamDataFrame f1"
  "varnum (sdb_StreamID f2) \<Longrightarrow> varnum (sdb_MaximumStreamData f2) \<Longrightarrow>
   codec (\<lambda>b. StreamDataBlockedFrame_Append b f2) (StreamDataBlockedFrame_Length f2)
     (ucast streamDataBlockedFrameType) True parseStreamDataBlockedFrame f2"
  "varnum (rs_StreamID f3) \<Longrightarrow> rs_ErrorCode f3 \<le> maxVarInt8 \<Longrightarrow> varnum (FinalSize f3) \<Longrightarrow>
   codec (\<lambda>b. ResetStreamFrame_Append b f3) (ResetStreamFrame_Length f3)
     (ucast resetStreamFrameType) True parseResetStreamFrame f3"
  "varnum (ss_StreamID f4) \<Longrightarrow> ss_ErrorCode f4 \<le> maxVarInt8 \<Longrightarrow>
   codec (\<lambda>b. StopSendingFrame_Append b f4) (StopSendingFrame_Length f4)
     (ucast stopSendingFrameType) True parseStopSendingFrame f4"
  by (rule codecI; simp add: MaxStreamDataFrame_Append_def MaxStreamDataFrame_Length_def
    parseMaxStreamDataFrame_def StreamDataBlockedFrame_Append_def StreamDataBlockedFrame_Length_def
    parseStreamDataBlockedFrame_def ResetStreamFrame_Append_def ResetStreamFrame_Length_def
    parseResetStreamFrame_def StopSendingFrame_Append_def StopSendingFrame_Length_def
    parseStopSendingFrame_def streamDataBlockedFrameType_def codec_simps)+

lemma streams_codecs:
  "0 \<le> MaxStreamNum f1 \<Longrightarrow> MaxStreamNum f1 \<le> MaxStreamCount \<Longrightarrow>
   codec (\<lambda>b. MaxStreamsFrame_Append b f1) (MaxStreamsFrame_Length f1)
     (case ms_Type f1 of StreamTypeBidi \<Rightarrow> ucast bidiMaxStreamsFrameType | StreamTypeUni \<Rightarrow> ucast uniMaxStreamsFrameType)
     True (\<lambda>r. parseMaxStreamsFrame r
       (case ms_Type f1 of StreamTypeBidi \<Rightarrow> bidiMaxStreamsFrameType | StreamTypeUni \<Rightarrow> uniMaxStreamsFrameType)) f1"
  "0 \<le> StreamLimit f2 \<Longrightarrow> StreamLimit f2 \<le> MaxStreamCount \<Longrightarrow>
   codec (\<lambda>b. StreamsBlockedFrame_Append b f2) (StreamsBlockedFrame_Length f2)
     (case sb_Type f2 of StreamTypeBidi \<Rightarrow> ucast bidiStreamBlockedFrameType | StreamTypeUni \<Rightarrow> ucast uniStreamBlockedFrameType)
     True (\<lambda>r. parseStreamsBlockedFrame r
       (case sb_Type f2 of StreamTypeBidi \<Rightarrow> bidiStreamBlockedFrameType | StreamTypeUni \<Rightarrow> uniStreamBlockedFrameType)) f2"
  subgoal
    using varnum_def [of "MaxStreamNum f1"]
    by (intro codecI [where bs = "vbytes (uint64_of (MaxStreamNum f1))"]; cases f1; cases "ms_Type f1"; simp add: MaxStreamsFrame_Append_def MaxStreamsFrame_Length_def
      parseMaxStreamsFrame_def bidiMaxStreamsFrameType_def uniMaxStreamsFrameType_def MaxStreamCount_def codec_simps)
  subgoal
    using varnum_def [of "StreamLimit f2"]
    by (intro codecI [where bs = "vbytes (uint64_of (StreamLimit f2))"]; cases f2; cases "sb_Type f2"; simp add: StreamsBlockedFrame_Append_def StreamsBlockedFrame_Length_def
      parseStreamsBlockedFrame_def bidiStreamBlockedFrameType_def uniStreamBlockedFrameType_def MaxStreamCount_def codec_simps)
  done

lemma CryptoFrame_eq: "crypto_Data f = [] \<Longrightarrow> \<lparr>crypto_Offset = crypto_Offset f, crypto_Data = []\<rparr> = (f :: CryptoFrame)"
  by (cases f) simp

lemma data_codecs:
  "varnum (crypto_Offset f1) \<Longrightarrow> varnum (int (length (crypto_Data f1))) \<Longrightarrow>
   codec (\<lambda>b. CryptoFrame_Append b f1) (CryptoFrame_Length f1) (ucast cryptoFrameType) True parseCryptoFrame f1"
  "Token f2 \<noteq> [] \<Longrightarrow> varnum (int (length (Token f2))) \<Longrightarrow>
   codec (\<lambda>b. NewTokenFrame_Append b f2) (NewTokenFrame_Length f2) (ucast newTokenFrameType) True parseNewTokenFrame f2"
  "length (pc_Data f3) = 8 \<Longrightarrow>
   codec (\<lambda>b. PathChallengeFrame_Append b f3) (PathChallengeFrame_Length f3) (ucast pathChallengeFrameType) True
     parsePathChallengeFrame f3"
  "length (presp_Data f4) = 8 \<Longrightarrow>
   codec (\<lambda>b. PathResponseFrame_Append b f4) (PathResponseFrame_Length f4) (ucast pathResponseFrameType) True
     parsePathResponseFrame f4"
  by (rule codecI; simp add: CryptoFrame_eq CryptoFrame_Append_def CryptoFrame_Length_def parseCryptoFrame_def
    NewTokenFrame_Append_def NewTokenFrame_Length_def parseNewTokenFrame_def
    PathChallengeFrame_Append_def PathChallengeFrame_Length_def parsePathChallengeFrame_def readArray_def
    PathResponseFrame_Append_def PathResponseFrame_Length_def parsePathResponseFrame_def codec_simps)+

lemma ConnectionClose_codec:
  assumes "frame_wf (ConnectionCloseF f)"
  shows "codec (\<lambda>b. ConnectionCloseFrame_Append b f) (ConnectionCloseFrame_Length f)
     (if IsApplicationError f then ucast applicationCloseFrameType else ucast connectionCloseFrameType) True
     (\<lambda>r. parseConnectionCloseFrame r
        (if IsApplicationError f then applicationCloseFrameType else connectionCloseFrameType))
     (if IsApplicationError f then f\<lparr>cc_FrameType := 0\<rparr> else f)"
  using assms
  by (cases f; cases "IsApplicationError f"; intro codecI;
    simp add: ConnectionCloseFrame_Append_def ConnectionCloseFrame_Length_def parseConnectionCloseFrame_def
      applicationCloseFrameType_def connectionCloseFrameType_def codec_simps)

lemma ReadConnectionID_append:
  "length c \<le> maxConnectionIDLen \<Longrightarrow> ReadConnectionID (c @ r) (length c) = Inr (c, r)"
  by (simp add: ReadConnectionID_def)

lemma NewConnectionID_codec:
  assumes "frame_wf (NewConnectionIDF f)"
  shows "codec (\<lambda>b. NewConnectionIDFrame_Append b f) (NewConnectionIDFrame_Length f)
     (ucast newConnectionIDFrameType) True parseNewConnectionIDFrame f"
proof -
  have "RetirePriorTo f \<le> maxVarInt8" using assms by (auto intro: order_trans)
  moreover have "unat (word_of_nat (length (nc_ConnectionID f)) :: byte) = length (nc_ConnectionID f)"
    using assms by (simp add: MaxConnIDLen_def unsigned_of_nat take_bit_nat_eq_self)
  ultimately show ?thesis
    using assms ReadConnectionID_append [of "nc_ConnectionID f"]
    by (intro codecI; simp add: NewConnectionIDFrame_Append_def NewConnectionIDFrame_Length_def
        parseNewConnectionIDFrame_def readArray_def MaxConnIDLen_def maxConnectionIDLen_def
        varint_facts Let_def not_less)
qed

lemma readFull_all [simp]: "readFull xs (length xs) = Inr (xs, [])"
  by (simp add: readFull_def)

lemma Datagram_codec:
  assumes "frame_wf (DatagramF f)"
  shows "codec (\<lambda>b. DatagramFrame_Append b f) (DatagramFrame_Length f)
     (if dg_DataLenPresent f then 0x31 else 0x30) (dg_DataLenPresent f)
     (\<lambda>r. parseDatagramFrame r (if dg_DataLenPresent f then 0x31 else 0x30)) f"
  using assms
  by (cases f; cases "dg_DataLenPresent f"; intro codecI;
    simp add: DatagramFrame_Append_def DatagramFrame_Length_def parseDatagramFrame_def codec_simps)

lemma streamType_parse:
  "(ucast (streamType f) :: u64) AND 0b100 > 0 \<longleftrightarrow> stream_Offset f \<noteq> 0"
  "(ucast (streamType f) :: u64) AND 0b1 > 0 \<longleftrightarrow> stream_Fin f"
  "(ucast (streamType f) :: u64) AND 0b10 > 0 \<longleftrightarrow> stream_DataLenPresent f"
  "(ucast (streamType f) :: u64) AND 0xf8 = 0x8" "streamType f \<noteq> 0" "streamType f < 64"
  by (simp_all add: streamType_def)

lemma stream_len_varnum:
  "frame_wf (StreamF f) \<Longrightarrow> varnum (StreamFrame_DataLen f)"
  "frame_wf (StreamF f) \<Longrightarrow> varnum (int (length (stream_Data f)))"
  by (auto simp: varnum_def StreamFrame_DataLen_def MaxPacketBufferSize_def)

lemma StreamFrame_Append_eq:
  assumes "frame_wf (StreamF f)"
  shows "StreamFrame_Append b f = Inr (b @ streamType f # streamHead f @ stream_Data f)"
  using assms stream_len_varnum [OF assms]
  by (simp add: StreamFrame_Append_def Let_def streamType_def varint_facts)

lemma StreamFrame_Length_eq:
  assumes "frame_wf (StreamF f)"
  shows "StreamFrame_Length f = Inr (1 + int (length (streamHead f @ stream_Data f)))"
  using assms stream_len_varnum [OF assms]
  by (simp add: StreamFrame_Length_def varint_facts) (simp add: StreamFrame_DataLen_def)

lemma stream_norm_fields [simp]:
  "stream_StreamID (stream_norm f) = stream_StreamID f" "stream_Offset (stream_norm f) = stream_Offset f"
  "stream_Data (stream_norm f) = stream_Data f" "stream_Fin (stream_norm f) = stream_Fin f"
  "stream_DataLenPresent (stream_norm f) = stream_DataLenPresent f"
  by (simp_all add: stream_norm_def)

lemma parseStreamFrame_eq:
  assumes wf: "frame_wf (StreamF f)" and r: "stream_DataLenPresent f \<or> r = []"
  shows "parseStreamFrame (streamHead f @ stream_Data f @ r) (ucast (streamType f)) = Inr (stream_norm f, r)"
proof -
  have *: "varnum (stream_StreamID f)" "varnum (stream_Offset f)" using wf by simp_all
  note len = stream_len_varnum [OF wf]
  have read: "(if length (stream_Data f) \<noteq> 0 then readFull (stream_Data f @ r) (length (stream_Data f))
    else Inr ([], stream_Data f @ r)) = Inr (stream_Data f, r)" by simp
  have frame: "(if length (stream_Data f) < MinStreamFrameBufferSize
      then Inr (GetStreamFrame\<lparr>fromPool := False, stream_cap := int (length (stream_Data f))\<rparr>)
      else if int (length (stream_Data f)) > stream_cap GetStreamFrame then Inl EOF else Inr GetStreamFrame)
    = Inr ((GetStreamFrame :: StreamFrame)\<lparr>fromPool := fromPool (stream_norm f), stream_cap := stream_cap (stream_norm f)\<rparr>)"
    using wf by (simp add: stream_norm_def GetStreamFrame_def StreamFrame_DataLen_def)
  have fin: "(GetStreamFrame :: StreamFrame)\<lparr>fromPool := fromPool (stream_norm f), stream_cap := stream_cap (stream_norm f),
      stream_StreamID := stream_StreamID f, stream_Offset := stream_Offset f, stream_Fin := stream_Fin f,
      stream_DataLenPresent := stream_DataLenPresent f, stream_Data := stream_Data f\<rparr> = stream_norm f"
    by (cases f) (simp add: stream_norm_def GetStreamFrame_def)
  have o: "int64_of (if stream_Offset f \<noteq> 0 then uint64_of (stream_Offset f) else 0) = stream_Offset f"
    using * by (cases "stream_Offset f = 0") (simp_all add: int64_of_uint)
  have lim: "\<not> stream_Offset f + StreamFrame_DataLen f > MaxByteCount" using wf by simp
  have off: "(if stream_Offset f \<noteq> 0
      then varint_Read ((if stream_Offset f \<noteq> 0 then vbytes (uint64_of (stream_Offset f)) else []) @ q)
      else Inr (0, (if stream_Offset f \<noteq> 0 then vbytes (uint64_of (stream_Offset f)) else []) @ q))
    = Inr (if stream_Offset f \<noteq> 0 then uint64_of (stream_Offset f) else 0, q)" for q
    using * by (simp add: varint_facts)
  have dl: "(if stream_DataLenPresent f
      then bindE (varint_Read ((if stream_DataLenPresent f then vbytes (uint64_of (StreamFrame_DataLen f)) else []) @ stream_Data f @ r)) (\<lambda>(l, r). Inr (unat l, r))
      else Inr (length ((if stream_DataLenPresent f then vbytes (uint64_of (StreamFrame_DataLen f)) else []) @ stream_Data f @ r),
         (if stream_DataLenPresent f then vbytes (uint64_of (StreamFrame_DataLen f)) else []) @ stream_Data f @ r))
    = Inr (length (stream_Data f), stream_Data f @ r)"
    using r len by (auto simp: varint_facts StreamFrame_DataLen_def)
  show ?thesis
    unfolding parseStreamFrame_def Let_def streamType_parse append_assoc
      varint_facts(3) [OF varnum_le [OF *(1)]] bindE_simps prod.case off dl frame read
    using lim by (simp add: * o fin StreamFrame_DataLen_def)
qed

lemma Stream_codec:
  assumes "frame_wf (StreamF f)"
  shows "codec (\<lambda>b. StreamFrame_Append b f) (StreamFrame_Length f)
     (streamType f) (stream_DataLenPresent f)
     (\<lambda>r. parseStreamFrame r (ucast (streamType f))) (stream_norm f)"
  using StreamFrame_Append_eq [OF assms] StreamFrame_Length_eq [OF assms] parseStreamFrame_eq [OF assms]
  by (intro codecI [where bs = "streamHead f @ stream_Data f"]) simp_all

lemma ack_numbers:
  assumes "encodable f"
  obtains n where "numEncodableAckRanges f = Inr (int n)" "1 \<le> n" "n \<le> length (AckRanges f)" "n \<le> 500"
  using numEncodableAckRanges_spec [OF assms] by metis

lemma Ack_codec:
  assumes "encodable f"
  shows "codec (\<lambda>b. AckFrame_Append b f) (AckFrame_Length f)
     (if hasECN f then 3 else 2) True
     (\<lambda>r. parseAckFrame emptyAckFrame r (if hasECN f then 3 else 2) 3) (ack_norm f)"
proof -
  obtain n where n: "numEncodableAckRanges f = Inr (int n)" "1 \<le> n" "n \<le> length (AckRanges f)" "n \<le> 500"
    by (rule ack_numbers [OF assms])
  define t :: byte where "t = (if hasECN f then 3 else 2)"
  define bs where "bs = tl (ackBytes f n)"
  have b: "ackBytes f n = t # bs" by (simp add: ackBytes_def t_def bs_def)
  have t: "ucast t = (if hasECN f then 3 else 2 :: u64)" by (simp add: t_def)
  have "parseAckFrame emptyAckFrame (bs @ r) (if hasECN f then 3 else 2) 3 = Inr (ack_norm f, r)" for r
    using parseAckFrame_ackBytes [OF assms n(2-4), of r] unfolding b list.sel t ack_norm_def n(1) by simp
  with AckFrame_Append_bytes [OF assms n] show ?thesis
    unfolding b t_def by (intro codecI [where bs = bs]) simp_all
qed

subsection \<open>Splitting\<close>

lemma vlen_small:
  assumes "0 \<le> x" "x < 16384"
  shows "vlen (uint64_of x) = (if x < 64 then 1 else 2)"
proof -
  have "uint (uint64_of x) = x" using assms by (intro uint_uint64_of) auto
  then show ?thesis using assms by (simp add: vlen_def word_le_def maxVarInt_defs)
qed

lemma vlen_mono: "0 \<le> x \<Longrightarrow> x \<le> y \<Longrightarrow> y < 2 ^ 62 \<Longrightarrow> vlen (uint64_of x) \<le> vlen (uint64_of y)"
  using uint_uint64_of [of x] uint_uint64_of [of y] by (auto simp: vlen_def word_le_def maxVarInt_defs)

lemma vlen_pos: "1 \<le> vlen i" "0 < vlen i" "0 \<le> vlen i"
  by (simp_all add: vlen_def)

lemma fits_bounds:
  assumes "0 \<le> h" "maxSize < 16384" "0 \<le> l" "h + vlen (uint64_of l) + l > maxSize" "l < 2 ^ 62"
  shows "0 \<le> fits h maxSize" "fits h maxSize < l \<or> fits h maxSize = 0"
    "fits h maxSize \<noteq> 0 \<Longrightarrow> h + vlen (uint64_of (fits h maxSize)) + fits h maxSize \<le> maxSize"
proof -
  show "0 \<le> fits h maxSize" by (simp add: fits_def)
  show "h + vlen (uint64_of (fits h maxSize)) + fits h maxSize \<le> maxSize" if "fits h maxSize \<noteq> 0"
    using that assms by (auto simp: fits_def vlen_small split: if_splits)
  show "fits h maxSize < l \<or> fits h maxSize = 0"
  proof (cases "l < 16384")
    case True
    then show ?thesis using assms by (auto simp: fits_def vlen_small split: if_splits)
  next
    case False
    then show ?thesis using assms by (auto simp: fits_def)
  qed
qed

lemma varint_Len_fits:
  assumes "0 \<le> x" "x < 16384"
  shows "varint_Len (uint64_of x) = Inr (if x < 64 then 1 else 2)"
  using assms vlen_small [OF assms] by (simp add: varint_Len_vlen varnum_def)

lemma CryptoFrame_MaxDataLen_fits:
  assumes "varnum (crypto_Offset f)" "maxSize < 16384"
  shows "CryptoFrame_MaxDataLen f maxSize = Inr (fits (1 + vlen (uint64_of (crypto_Offset f))) maxSize)"
  using assms vlen_pos [of "uint64_of (crypto_Offset f)"]
  by (simp add: CryptoFrame_MaxDataLen_def varint_Len_vlen Let_def fits_def varint_Len_fits)

lemma StreamFrame_MaxDataLen_fits:
  assumes "frame_wf (StreamF f)" "stream_DataLenPresent f" "maxSize < 16384"
  shows "StreamFrame_MaxDataLen f maxSize = Inr (fits (1 + vlen (uint64_of (stream_StreamID f))
    + (if stream_Offset f \<noteq> 0 then vlen (uint64_of (stream_Offset f)) else 0)) maxSize)"
  using assms vlen_pos [of "uint64_of (stream_StreamID f)"] vlen_pos [of "uint64_of (stream_Offset f)"]
  by (auto simp: StreamFrame_MaxDataLen_def varint_Len_vlen Let_def fits_def varint_Len_fits)

lemma StreamFrame_Length_vlen:
  "frame_wf (StreamF f) \<Longrightarrow> StreamFrame_Length f = Inr (streamHdr f
     + (if stream_DataLenPresent f then vlen (uint64_of (StreamFrame_DataLen f)) else 0) + StreamFrame_DataLen f)"
  using stream_len_varnum [of f]
  by (simp add: StreamFrame_Length_def varint_Len_vlen streamHdr_def)

lemma StreamFrame_MaxDataLen_eq:
  assumes "frame_wf (StreamF f)" "maxSize < 16384"
  shows "StreamFrame_MaxDataLen f maxSize = Inr (if stream_DataLenPresent f then fits (streamHdr f) maxSize
    else max 0 (maxSize - streamHdr f))"
proof (cases "stream_DataLenPresent f")
  case True
  with StreamFrame_MaxDataLen_fits [OF assms(1) _ assms(2)] show ?thesis by (simp add: streamHdr_def)
next
  case False
  then show ?thesis using assms
    by (auto simp: StreamFrame_MaxDataLen_def varint_Len_vlen Let_def streamHdr_def)
qed

lemma streamHdr_pos: "0 \<le> streamHdr f"
  using vlen_pos [of "uint64_of (stream_StreamID f)"] vlen_pos [of "uint64_of (stream_Offset f)"]
  by (simp add: streamHdr_def)

lemma stream_split_point:
  assumes wf: "frame_wf (StreamF f)" and s: "maxSize < 16384"
    and l: "StreamFrame_Length f = Inr l" "maxSize < l"
  obtains n where "StreamFrame_MaxDataLen f maxSize = Inr n" "0 \<le> n" "n < StreamFrame_DataLen f \<or> n = 0"
    "n \<noteq> 0 \<Longrightarrow> streamHdr f + (if stream_DataLenPresent f then vlen (uint64_of n) else 0) + n \<le> maxSize"
proof -
  let ?n = "if stream_DataLenPresent f then fits (streamHdr f) maxSize else max 0 (maxSize - streamHdr f)"
  have len: "0 \<le> StreamFrame_DataLen f" "StreamFrame_DataLen f < 2 ^ 62"
    using stream_len_varnum [OF wf] by (auto simp: varnum_def)
  have b: "streamHdr f + (if stream_DataLenPresent f then vlen (uint64_of (StreamFrame_DataLen f)) else 0)
      + StreamFrame_DataLen f > maxSize"
    using l StreamFrame_Length_vlen [OF wf] by simp
  show thesis
  proof (rule that [OF StreamFrame_MaxDataLen_eq [OF wf s]])
    show "0 \<le> ?n" by (simp add: fits_def)
    show "?n < StreamFrame_DataLen f \<or> ?n = 0" 
      "?n \<noteq> 0 \<Longrightarrow> streamHdr f + (if stream_DataLenPresent f then vlen (uint64_of ?n) else 0) + ?n \<le> maxSize"
      using fits_bounds(2,3) [OF streamHdr_pos s len(1) _ len(2)] b by (auto split: if_splits)
  qed
qed

lemma append_take_drop: "xs @ ys = zs \<Longrightarrow> length xs = n \<Longrightarrow> xs = take n zs \<and> ys = drop n zs"
  by auto

lemma stream_split_wf:
  assumes "frame_wf (StreamF f)" "stream_split f new rest"
  shows "frame_wf (StreamF new)" "frame_wf (StreamF rest)"
proof -
  have "length (stream_Data f) = length (stream_Data new) + length (stream_Data rest)"
    using assms(2) by (metis length_append stream_split_def)
  moreover have "0 < length (stream_Data rest)" using assms(2) by (simp add: stream_split_def)
  ultimately show "frame_wf (StreamF new)" "frame_wf (StreamF rest)"
    using assms by (auto simp: stream_split_def StreamFrame_DataLen_def varnum_def MaxByteCount_def)
qed

lemma streamHdr_split: "stream_split f new rest \<Longrightarrow> streamHdr new = streamHdr f"
  by (simp add: stream_split_def streamHdr_def)

text \<open>
  C30. A STREAM frame that is too large for a packet is cut in two that carry on the stream at the right
  offsets: the part that is split off fits, never carries FIN, and the buffers of both can go back to the
  pool. Nothing happens when the frame fits, and when not even one byte of data fits.
\<close>

theorem StreamFrame_MaybeSplitOffFrame_correct:
  assumes wf: "frame_wf (StreamF f)" and buf: "buffer_ok f" and s: "maxSize < 16384"
  shows "\<exists>l n. StreamFrame_Length f = Inr l \<and> StreamFrame_MaxDataLen f maxSize = Inr n
    \<and> (if l \<le> maxSize then StreamFrame_MaybeSplitOffFrame f maxSize = Inr (f, None, False)
       else if n = 0 then StreamFrame_MaybeSplitOffFrame f maxSize = Inr (f, None, True)
       else \<exists>new rest k. StreamFrame_MaybeSplitOffFrame f maxSize = Inr (rest, Some new, True)
         \<and> stream_split f new rest \<and> StreamFrame_DataLen new = n
         \<and> StreamFrame_Length new = Inr k \<and> k \<le> maxSize
         \<and> buffer_ok new \<and> buffer_ok rest
         \<and> putStreamFrame new = Inr (fromPool f) \<and> putStreamFrame rest = Inr True)"
proof -
  define l where "l = streamHdr f
     + (if stream_DataLenPresent f then vlen (uint64_of (StreamFrame_DataLen f)) else 0) + StreamFrame_DataLen f"
  have l: "StreamFrame_Length f = Inr l" using StreamFrame_Length_vlen [OF wf] by (simp add: l_def)
  show ?thesis
  proof (cases "l \<le> maxSize")
    case True
    with l StreamFrame_MaxDataLen_eq [OF wf s] show ?thesis
      by (auto simp: StreamFrame_MaybeSplitOffFrame_def)
  next
    case False
    then obtain n where n: "StreamFrame_MaxDataLen f maxSize = Inr n" "0 \<le> n" "n < StreamFrame_DataLen f \<or> n = 0"
      "n \<noteq> 0 \<Longrightarrow> streamHdr f + (if stream_DataLenPresent f then vlen (uint64_of n) else 0) + n \<le> maxSize"
      using stream_split_point [OF wf s l] by (metis not_le)
    show ?thesis
    proof (cases "n = 0")
      case True
      with l n(1) \<open>\<not> l \<le> maxSize\<close> show ?thesis by (simp add: StreamFrame_MaybeSplitOffFrame_def)
    next
      case nz: False
      define new where "new = (GetStreamFrame :: StreamFrame)\<lparr>stream_StreamID := stream_StreamID f,
        stream_Offset := stream_Offset f, stream_Fin := False, stream_DataLenPresent := stream_DataLenPresent f,
        stream_Data := take (nat n) (stream_Data f), fromPool := fromPool f, stream_cap := stream_cap f\<rparr>"
      define rest where "rest = f\<lparr>stream_Data := drop (nat n) (stream_Data f), stream_Offset := stream_Offset f + n,
        fromPool := True, stream_cap := MaxPacketBufferSize\<rparr>"
      have nl: "0 < n" "n < int (length (stream_Data f))" using n(2,3) nz by (auto simp: StreamFrame_DataLen_def)
      have ml: "int (length (stream_Data f)) \<le> MaxPacketBufferSize" using wf by (simp add: StreamFrame_DataLen_def)
      have sp: "stream_split f new rest" "StreamFrame_DataLen new = n"
        using nl by (auto simp: stream_split_def new_def rest_def StreamFrame_DataLen_def)
      have "StreamFrame_MaybeSplitOffFrame f maxSize = Inr (rest, Some new, True)"
        using l n(1) nz False nl ml
        by (simp add: StreamFrame_MaybeSplitOffFrame_def Let_def new_def rest_def GetStreamFrame_def)
      moreover have "buffer_ok new" "buffer_ok rest" using buf nl ml
        by (auto simp: buffer_ok_def new_def rest_def StreamFrame_DataLen_def)
      moreover have "StreamFrame_Length new
        = Inr (streamHdr f + (if stream_DataLenPresent f then vlen (uint64_of n) else 0) + n)"
        using StreamFrame_Length_vlen [OF stream_split_wf(1) [OF wf sp(1)]] sp streamHdr_split [OF sp(1)]
        by (simp add: stream_split_def)
      moreover have "putStreamFrame new = Inr (fromPool f)" "putStreamFrame rest = Inr True"
        using buf by (auto simp: putStreamFrame_def new_def rest_def buffer_ok_def)
      ultimately show ?thesis using l n(1) n(4) [OF nz] nz False sp by auto
    qed
  qed
qed

theorem StreamFrame_MaybeSplitOffFrame_correct_witness:
  "\<exists>new rest k. StreamFrame_MaybeSplitOffFrame \<lparr>stream_StreamID = 4, stream_Offset = 100, stream_Data = replicate 10 7,
      stream_Fin = True, stream_DataLenPresent = True, fromPool = True, stream_cap = 1452\<rparr> 9
    = Inr (rest, Some new, True) \<and> StreamFrame_DataLen new = 4 \<and> stream_Data rest = replicate 6 7
    \<and> stream_Offset rest = 104 \<and> stream_Fin rest \<and> StreamFrame_Length new = Inr k \<and> k \<le> 9"
proof -
  let ?f = "\<lparr>stream_StreamID = 4, stream_Offset = 100, stream_Data = replicate 10 (7 :: byte),
      stream_Fin = True, stream_DataLenPresent = True, fromPool = True, stream_cap = 1452\<rparr>"
  have wf: "frame_wf (StreamF ?f)" "buffer_ok ?f" "(9 :: int) < 16384"
    by (simp_all add: buffer_ok_def StreamFrame_DataLen_def varnum_def MaxByteCount_def MaxPacketBufferSize_def)
  have l: "StreamFrame_Length ?f = Inr 15" "StreamFrame_MaxDataLen ?f 9 = Inr 4" by code_simp+
  obtain new rest k where *: "StreamFrame_MaybeSplitOffFrame ?f 9 = Inr (rest, Some new, True)"
    "stream_split ?f new rest" "StreamFrame_DataLen new = 4" "StreamFrame_Length new = Inr k" "k \<le> 9"
    using StreamFrame_MaybeSplitOffFrame_correct [OF wf] unfolding l by auto
  from *(2,3) have "stream_Data new = take 4 (replicate 10 7) \<and> stream_Data rest = drop 4 (replicate 10 7)"
    by (intro append_take_drop) (simp_all add: stream_split_def StreamFrame_DataLen_def)
  with * show ?thesis by (auto simp: stream_split_def)
qed

lemma CryptoFrame_Length_vlen:
  assumes "varnum (crypto_Offset f)" "varnum (int (length (crypto_Data f)))"
  shows "CryptoFrame_Length f = Inr (1 + vlen (uint64_of (crypto_Offset f))
    + vlen (uint64_of (int (length (crypto_Data f)))) + int (length (crypto_Data f)))"
  using assms by (simp add: CryptoFrame_Length_def word_of_length varint_Len_vlen)

text \<open>
  A CRYPTO frame that is too large for a packet is cut in two that carry on the handshake data at
  the right offsets, and the part that is split off fits. Nothing happens when the frame fits, and
  when not even one byte of data fits.
\<close>

theorem CryptoFrame_MaybeSplitOffFrame_correct:
  assumes wf: "frame_wf (CryptoF f)" and s: "maxSize < 16384"
  shows "\<exists>l n. CryptoFrame_Length f = Inr l \<and> CryptoFrame_MaxDataLen f maxSize = Inr n
    \<and> (if l \<le> maxSize then CryptoFrame_MaybeSplitOffFrame f maxSize = Inr (f, None, False)
       else if n = 0 then CryptoFrame_MaybeSplitOffFrame f maxSize = Inr (f, None, True)
       else \<exists>new rest k. CryptoFrame_MaybeSplitOffFrame f maxSize = Inr (rest, Some new, True)
         \<and> crypto_split f new rest \<and> int (length (crypto_Data new)) = n
         \<and> CryptoFrame_Length new = Inr k \<and> k \<le> maxSize)"
proof -
  let ?len = "int (length (crypto_Data f))" and ?h = "1 + vlen (uint64_of (crypto_Offset f))"
  have v: "varnum (crypto_Offset f)" "varnum ?len" using wf by simp_all
  note l = CryptoFrame_Length_vlen [OF v]
  define n where "n = fits ?h maxSize"
  have m: "CryptoFrame_MaxDataLen f maxSize = Inr n"
    using CryptoFrame_MaxDataLen_fits [OF v(1) s] by (simp add: n_def)
  show ?thesis
  proof (cases "?h + vlen (uint64_of ?len) + ?len \<le> maxSize \<or> n = 0")
    case True
    with l m show ?thesis by (auto simp: CryptoFrame_MaybeSplitOffFrame_def)
  next
    case False
    then have gt: "maxSize < ?h + vlen (uint64_of ?len) + ?len" and nz: "n \<noteq> 0" by auto
    have h0: "0 \<le> ?h" using vlen_pos(3) [of "uint64_of (crypto_Offset f)"] by simp
    have l0: "0 \<le> ?len" "?len < 2 ^ 62" using v(2) by (simp_all add: varnum_def)
    note b = fits_bounds [OF h0 s l0(1) gt l0(2), folded n_def]
    have nl: "0 < n" "n < ?len" using b(1,2) nz by auto
    define new where "new = \<lparr>crypto_Offset = crypto_Offset f, crypto_Data = take (nat n) (crypto_Data f)\<rparr>"
    define rest where "rest = \<lparr>crypto_Offset = crypto_Offset f + n, crypto_Data = drop (nat n) (crypto_Data f)\<rparr>"
    have sp: "crypto_split f new rest" "int (length (crypto_Data new)) = n"
      using nl by (auto simp: crypto_split_def new_def rest_def)
    have "CryptoFrame_MaybeSplitOffFrame f maxSize = Inr (rest, Some new, True)"
      using l m nz gt nl by (simp add: CryptoFrame_MaybeSplitOffFrame_def new_def rest_def)
    moreover have "CryptoFrame_Length new = Inr (?h + vlen (uint64_of n) + n)"
      using CryptoFrame_Length_vlen [of new] v sp nl by (simp add: new_def varnum_def)
    ultimately show ?thesis using l m gt nz sp b(3) by auto
  qed
qed

theorem CryptoFrame_MaybeSplitOffFrame_correct_witness:
  "\<exists>new rest k. CryptoFrame_MaybeSplitOffFrame \<lparr>crypto_Offset = 100, crypto_Data = replicate 10 7\<rparr> 8
    = Inr (rest, Some new, True) \<and> crypto_Data new = replicate 4 7 \<and> crypto_Offset rest = 104
    \<and> CryptoFrame_Length new = Inr k \<and> k \<le> 8"
proof -
  let ?f = "\<lparr>crypto_Offset = 100, crypto_Data = replicate 10 (7 :: byte)\<rparr>"
  have wf: "frame_wf (CryptoF ?f)" "(8 :: int) < 16384" by (simp_all add: varnum_def)
  have l: "CryptoFrame_Length ?f = Inr 14" "CryptoFrame_MaxDataLen ?f 8 = Inr 4" by code_simp+
  obtain new rest k where *: "CryptoFrame_MaybeSplitOffFrame ?f 8 = Inr (rest, Some new, True)"
    "crypto_split ?f new rest" "int (length (crypto_Data new)) = 4" "CryptoFrame_Length new = Inr k" "k \<le> 8"
    using CryptoFrame_MaybeSplitOffFrame_correct [OF wf] unfolding l by auto
  from *(2,3) have "crypto_Data new = take 4 (replicate 10 7) \<and> crypto_Data rest = drop 4 (replicate 10 7)"
    by (intro append_take_drop) (simp_all add: crypto_split_def)
  with * show ?thesis by (auto simp: crypto_split_def)
qed

end
