(* ===== verification/Frame_Parser.thy ===== *)
theory Frame_Parser
  imports Frames
begin

text \<open>
  The frame parser of \<open>internal/wire/frame_parser.go\<close> and the classification of frames in
  \<open>internal/ackhandler/ack_eliciting.go\<close>.
  The parser keeps one ACK frame and parses every ACK into it; the model returns the parser with the new
  contents when parsing succeeds. Messages of errors carry no numbers.
\<close>

record frameParser =
  ackDelayExponent :: nat
  supportsDatagrams :: bool
  ackFrame :: AckFrame

definition NewFrameParser :: "bool \<Rightarrow> frameParser" where
  "NewFrameParser datagrams = \<lparr>ackDelayExponent = 0, supportsDatagrams = datagrams, ackFrame = emptyAckFrame\<rparr>"

definition SetAckDelayExponent :: "frameParser \<Rightarrow> nat \<Rightarrow> frameParser" where
  "SetAckDelayExponent p exp = p\<lparr>ackDelayExponent := exp\<rparr>"

definition isAllowedAtEncLevel :: "wire_Frame \<Rightarrow> EncryptionLevel \<Rightarrow> bool result" where
  "isAllowedAtEncLevel f encLevel =
     (if encLevel = EncryptionInitial \<or> encLevel = EncryptionHandshake then
        Inr (case f of CryptoF _ \<Rightarrow> True | AckF _ \<Rightarrow> True | ConnectionCloseF _ \<Rightarrow> True | PingF \<Rightarrow> True | _ \<Rightarrow> False)
      else if encLevel = Encryption0RTT then
        Inr (case f of CryptoF _ \<Rightarrow> False | AckF _ \<Rightarrow> False | ConnectionCloseF _ \<Rightarrow> False | NewTokenF _ \<Rightarrow> False
             | PathResponseF _ \<Rightarrow> False | RetireConnectionIDF _ \<Rightarrow> False | _ \<Rightarrow> True)
      else if encLevel = Encryption1RTT then Inr True
      else Inl (Panic ''unknown encryption level''))"

definition wrapF :: "('a \<Rightarrow> wire_Frame) \<Rightarrow> ('a \<times> byte list) result \<Rightarrow> (wire_Frame \<times> byte list) result" where
  "wrapF c m = bindE m (\<lambda>(f, r). Inr (c f, r))"

definition parseFrameBody ::
  "frameParser \<Rightarrow> byte list \<Rightarrow> u64 \<Rightarrow> EncryptionLevel \<Rightarrow> (wire_Frame \<times> byte list) result" where
  "parseFrameBody p r typ encLevel =
     (if typ AND 0xf8 = 0x8 then wrapF StreamF (parseStreamFrame r typ)
      else if typ = pingFrameType then Inr (PingF, r)
      else if typ = ackFrameType \<or> typ = ackECNFrameType then
        let exp = (if encLevel \<noteq> Encryption1RTT then DefaultAckDelayExponent else ackDelayExponent p) in
        wrapF AckF (parseAckFrame (AckFrame_Reset (ackFrame p)) r typ exp)
      else if typ = resetStreamFrameType then wrapF ResetStreamF (parseResetStreamFrame r)
      else if typ = stopSendingFrameType then wrapF StopSendingF (parseStopSendingFrame r)
      else if typ = cryptoFrameType then wrapF CryptoF (parseCryptoFrame r)
      else if typ = newTokenFrameType then wrapF NewTokenF (parseNewTokenFrame r)
      else if typ = maxDataFrameType then wrapF MaxDataF (parseMaxDataFrame r)
      else if typ = maxStreamDataFrameType then wrapF MaxStreamDataF (parseMaxStreamDataFrame r)
      else if typ = bidiMaxStreamsFrameType \<or> typ = uniMaxStreamsFrameType then
        wrapF MaxStreamsF (parseMaxStreamsFrame r typ)
      else if typ = dataBlockedFrameType then wrapF DataBlockedF (parseDataBlockedFrame r)
      else if typ = streamDataBlockedFrameType then wrapF StreamDataBlockedF (parseStreamDataBlockedFrame r)
      else if typ = bidiStreamBlockedFrameType \<or> typ = uniStreamBlockedFrameType then
        wrapF StreamsBlockedF (parseStreamsBlockedFrame r typ)
      else if typ = newConnectionIDFrameType then wrapF NewConnectionIDF (parseNewConnectionIDFrame r)
      else if typ = retireConnectionIDFrameType then wrapF RetireConnectionIDF (parseRetireConnectionIDFrame r)
      else if typ = pathChallengeFrameType then wrapF PathChallengeF (parsePathChallengeFrame r)
      else if typ = pathResponseFrameType then wrapF PathResponseF (parsePathResponseFrame r)
      else if typ = connectionCloseFrameType \<or> typ = applicationCloseFrameType then
        wrapF ConnectionCloseF (parseConnectionCloseFrame r typ)
      else if typ = handshakeDoneFrameType then Inr (HandshakeDoneF, r)
      else if (typ = 0x30 \<or> typ = 0x31) \<and> supportsDatagrams p then wrapF DatagramF (parseDatagramFrame r typ)
      else Inl (Err ''unknown frame type''))"

definition parseFrame ::
  "frameParser \<Rightarrow> byte list \<Rightarrow> u64 \<Rightarrow> EncryptionLevel \<Rightarrow> (wire_Frame \<times> byte list) result" where
  "parseFrame p r typ encLevel =
     bindE (parseFrameBody p r typ encLevel) (\<lambda>(frame, r).
     bindE (isAllowedAtEncLevel frame encLevel) (\<lambda>allowed.
     if \<not> allowed then Inl (Err ''not allowed at encryption level'') else Inr (frame, r)))"

text \<open>An error of the parser becomes a transport error. A panic does not.\<close>

definition frameEncodingError :: "u64 \<Rightarrow> 'a result \<Rightarrow> 'a result" where
  "frameEncodingError typ m =
     (case m of Inr a \<Rightarrow> Inr a | Inl (Panic s) \<Rightarrow> Inl (Panic s)
      | Inl _ \<Rightarrow> Inl (TransportError FrameEncodingError typ))"

function parseNext ::
  "frameParser \<Rightarrow> byte list \<Rightarrow> EncryptionLevel \<Rightarrow> (wire_Frame option \<times> byte list) result" where
  "parseNext p r encLevel =
     (if r = [] then Inr (None, [])
      else
        case frameEncodingError 0 (varint_Read r) of Inl e \<Rightarrow> Inl e
        | Inr (typ, r') \<Rightarrow>
          if typ = 0x0 then parseNext p r' encLevel
          else
            bindE (frameEncodingError typ (parseFrame p r' typ encLevel)) (\<lambda>(f, r'). Inr (Some f, r')))"
  by pat_completeness auto
termination
  by (relation "measure (\<lambda>(p, r, l). length r)")
    (auto simp: frameEncodingError_def dest: varint_Read_length split: sum.splits error.splits)

definition ParseNext ::
  "frameParser \<Rightarrow> byte list \<Rightarrow> EncryptionLevel \<Rightarrow> (frameParser \<times> nat \<times> wire_Frame option) result" where
  "ParseNext p data encLevel =
     bindE (parseNext p data encLevel) (\<lambda>(frame, r).
     let p = (case frame of Some (AckF a) \<Rightarrow> p\<lparr>ackFrame := a\<rparr> | _ \<Rightarrow> p) in
     Inr (p, length data - length r, frame))"

fun IsFrameAckEliciting :: "wire_Frame \<Rightarrow> bool" where
  "IsFrameAckEliciting (AckF _) = False"
| "IsFrameAckEliciting (ConnectionCloseF _) = False"
| "IsFrameAckEliciting _ = True"

fun HasAckElicitingFrames :: "wire_Frame list \<Rightarrow> bool" where
  "HasAckElicitingFrames [] = False"
| "HasAckElicitingFrames (f # fs) = (if IsFrameAckEliciting f then True else HasAckElicitingFrames fs)"

definition peers :: "frameParser \<Rightarrow> EncryptionLevel \<Rightarrow> wire_Frame \<Rightarrow> bool" where
  "peers p encLevel f \<longleftrightarrow> (encLevel = Encryption1RTT \<longrightarrow> ackDelayExponent p = AckDelayExponent)
     \<and> (case f of DatagramF _ \<Rightarrow> supportsDatagrams p | _ \<Rightarrow> True)"

text \<open>The parser also accepts a STREAM frame without data and without FIN, which is never sent.\<close>

definition frame_parsed :: "wire_Frame \<Rightarrow> bool" where
  "frame_parsed f \<longleftrightarrow> (case f of
       StreamF s \<Rightarrow> stream_norm s = s \<and> frame_wf (StreamF (s\<lparr>stream_Fin := stream_Fin s \<or> stream_Data s = []\<rparr>))
     | _ \<Rightarrow> frame_wf f)"

definition noPanic :: "'a result \<Rightarrow> bool" where
  "noPanic m \<longleftrightarrow> (\<forall>s. m \<noteq> Inl (Panic s))"

declare parseNext.simps [simp del]

subsection \<open>Frames survive the wire\<close>

lemmas frameType_defs = pingFrameType_def ackFrameType_def ackECNFrameType_def resetStreamFrameType_def
  stopSendingFrameType_def cryptoFrameType_def newTokenFrameType_def maxDataFrameType_def
  maxStreamDataFrameType_def bidiMaxStreamsFrameType_def uniMaxStreamsFrameType_def
  dataBlockedFrameType_def streamDataBlockedFrameType_def bidiStreamBlockedFrameType_def
  uniStreamBlockedFrameType_def newConnectionIDFrameType_def retireConnectionIDFrameType_def
  pathChallengeFrameType_def pathResponseFrameType_def connectionCloseFrameType_def
  applicationCloseFrameType_def handshakeDoneFrameType_def

lemma AckFrame_Reset_empty: "AckFrame_Reset f = emptyAckFrame"
  by (cases f) (simp add: AckFrame_Reset_def emptyAckFrame_def)

lemma frame_codecI:
  assumes "codec app len t self parse x"
    "\<And>r. parseFrameBody p r (ucast t) encLevel = wrapF C (parse r)" "frame_norm f = C x" "t \<noteq> 0" "t < 64"
    "\<And>b. frame_Append b f = app b" "frame_Length f = len" "selfDelimiting f = self"
  shows "\<exists>t. t \<noteq> 0 \<and> t < 64 \<and> codec (\<lambda>b. frame_Append b f) (frame_Length f) t (selfDelimiting f)
    (\<lambda>r. parseFrameBody p r (ucast t) encLevel) (frame_norm f)"
  using assms by (intro exI [of _ t]) (auto simp: codec_def wrapF_def)

lemma frame_codec_const:
  assumes "f = PingF \<or> f = HandshakeDoneF"
  shows "\<exists>t. t \<noteq> 0 \<and> t < 64 \<and> codec (\<lambda>b. frame_Append b f) (frame_Length f) t (selfDelimiting f)
    (\<lambda>r. parseFrameBody p r (ucast t) encLevel) (frame_norm f)"
  using assms
  by (intro exI [of _ "if f = PingF then 1 else 0x1e"]) (auto simp: codec_def frameType_defs PingFrame_Append_def
    PingFrame_Length_def HandshakeDoneFrame_Append_def HandshakeDoneFrame_Length_def parseFrameBody_def)

lemmas body_simps = parseFrameBody_def frameType_defs streamType_parse peers_def

lemma frame_codec:
  assumes "frame_wf f" "peers p encLevel f"
  shows "\<exists>t. t \<noteq> 0 \<and> t < 64 \<and> codec (\<lambda>b. frame_Append b f) (frame_Length f) t (selfDelimiting f)
    (\<lambda>r. parseFrameBody p r (ucast t) encLevel) (frame_norm f)"
proof (cases f)
  case (AckF x)
  with assms show ?thesis
    by (intro frame_codecI [OF Ack_codec, of x _ _ AckF])
      (simp_all add: body_simps AckFrame_Reset_empty DefaultAckDelayExponent_def AckDelayExponent_def)
next
  case PingF
  then show ?thesis by (intro frame_codec_const) simp
next
  case HandshakeDoneF
  then show ?thesis by (intro frame_codec_const) simp
next
  case (ConnectionCloseF x)
  with assms show ?thesis
    by (intro frame_codecI [OF ConnectionClose_codec, of x _ _ ConnectionCloseF]) (simp_all add: body_simps)
next
  case (CryptoF x)
  with assms show ?thesis
    by (intro frame_codecI [OF data_codecs(1), of x _ _ CryptoF]) (simp_all add: body_simps)
next
  case (DataBlockedF x)
  with assms show ?thesis
    by (intro frame_codecI [OF simple_codecs(1), of x _ _ DataBlockedF]) (simp_all add: body_simps)
next
  case (DatagramF x)
  with assms show ?thesis
    by (intro frame_codecI [OF Datagram_codec, of x _ _ DatagramF]) (simp_all add: body_simps)
next
  case (MaxDataF x)
  with assms show ?thesis
    by (intro frame_codecI [OF simple_codecs(2), of x _ _ MaxDataF]) (simp_all add: body_simps)
next
  case (MaxStreamDataF x)
  with assms show ?thesis
    by (intro frame_codecI [OF stream_number_codecs(1), of x _ _ MaxStreamDataF]) (simp_all add: body_simps)
next
  case (MaxStreamsF x)
  with assms show ?thesis
    by (intro frame_codecI [OF streams_codecs(1), of x _ _ MaxStreamsF]) (simp_all add: body_simps split: StreamType.splits)
next
  case (NewConnectionIDF x)
  with assms show ?thesis
    by (intro frame_codecI [OF NewConnectionID_codec, of x _ _ NewConnectionIDF]) (simp_all add: body_simps)
next
  case (NewTokenF x)
  with assms show ?thesis
    by (intro frame_codecI [OF data_codecs(2), of x _ _ NewTokenF]) (simp_all add: body_simps)
next
  case (PathChallengeF x)
  with assms show ?thesis
    by (intro frame_codecI [OF data_codecs(3), of x _ _ PathChallengeF]) (simp_all add: body_simps)
next
  case (PathResponseF x)
  with assms show ?thesis
    by (intro frame_codecI [OF data_codecs(4), of x _ _ PathResponseF]) (simp_all add: body_simps)
next
  case (ResetStreamF x)
  with assms show ?thesis
    by (intro frame_codecI [OF stream_number_codecs(3), of x _ _ ResetStreamF]) (simp_all add: body_simps)
next
  case (RetireConnectionIDF x)
  with assms show ?thesis
    by (intro frame_codecI [OF simple_codecs(3), of x _ _ RetireConnectionIDF]) (simp_all add: body_simps)
next
  case (StopSendingF x)
  with assms show ?thesis
    by (intro frame_codecI [OF stream_number_codecs(4), of x _ _ StopSendingF]) (simp_all add: body_simps)
next
  case (StreamF x)
  with assms show ?thesis
    by (intro frame_codecI [OF Stream_codec, of x _ _ StreamF]) (simp_all add: body_simps)
next
  case (StreamDataBlockedF x)
  with assms show ?thesis
    by (intro frame_codecI [OF stream_number_codecs(2), of x _ _ StreamDataBlockedF]) (simp_all add: body_simps)
next
  case (StreamsBlockedF x)
  with assms show ?thesis
    by (intro frame_codecI [OF streams_codecs(2), of x _ _ StreamsBlockedF]) (simp_all add: body_simps split: StreamType.splits)
qed

subsection \<open>What the parser accepts\<close>

lemma varint_Read_fact:
  "varint_Read r = Inr (i, r') \<Longrightarrow>
   length r' < length r \<and> i \<le> maxVarInt8 \<and> varnum (int64_of i) \<and> unat i < 2 ^ 62 \<and> int64_of i = int (unat i)"
  using varint_Read_int64 [of r i r'] varint_Read_le [of r i r'] varint_Read_length [of r i r']
    uint_less_of_le_max [of i] int64_of_uint [of i]
  by (auto simp: varnum_def le_max_unat)

lemma wrapF_Inr: "wrapF C m = Inr (f, r') \<longleftrightarrow> (\<exists>x. m = Inr (x, r') \<and> f = C x)"
  by (auto simp: wrapF_def bindE_Inr_iff)

lemma readArray_Inr: "readArray r n = Inr (xs, ys) \<longleftrightarrow> n \<le> length r \<and> xs = take n r \<and> ys = drop n r"
  by (auto simp: readArray_def readFull_def)

lemma ReadConnectionID_Inr:
  "ReadConnectionID r n = Inr (xs, ys) \<Longrightarrow> length xs = n \<and> n \<le> maxConnectionIDLen \<and> length ys \<le> length r"
  by (auto simp: ReadConnectionID_def readFull_def split: if_splits)

lemma simple_parses:
  "parseDataBlockedFrame r = Inr (f1, r') \<Longrightarrow> frame_wf (DataBlockedF f1) \<and> length r' \<le> length r"
  "parseMaxDataFrame r = Inr (f2, r') \<Longrightarrow> frame_wf (MaxDataF f2) \<and> length r' \<le> length r"
  "parseRetireConnectionIDFrame r = Inr (f3, r') \<Longrightarrow> frame_wf (RetireConnectionIDF f3) \<and> length r' \<le> length r"
  "parseMaxStreamDataFrame r = Inr (f4, r') \<Longrightarrow> frame_wf (MaxStreamDataF f4) \<and> length r' \<le> length r"
  "parseStreamDataBlockedFrame r = Inr (f5, r') \<Longrightarrow> frame_wf (StreamDataBlockedF f5) \<and> length r' \<le> length r"
  "parseResetStreamFrame r = Inr (f6, r') \<Longrightarrow> frame_wf (ResetStreamF f6) \<and> length r' \<le> length r"
  "parseStopSendingFrame r = Inr (f7, r') \<Longrightarrow> frame_wf (StopSendingF f7) \<and> length r' \<le> length r"
  "parseMaxStreamsFrame r typ = Inr (f8, r') \<Longrightarrow> frame_wf (MaxStreamsF f8) \<and> length r' \<le> length r"
  "parseStreamsBlockedFrame r typ = Inr (f9, r') \<Longrightarrow> frame_wf (StreamsBlockedF f9) \<and> length r' \<le> length r"
  by (auto simp: parseDataBlockedFrame_def parseMaxDataFrame_def parseRetireConnectionIDFrame_def
      parseMaxStreamDataFrame_def parseStreamDataBlockedFrame_def parseResetStreamFrame_def
      parseStopSendingFrame_def parseMaxStreamsFrame_def parseStreamsBlockedFrame_def Let_def bindE_Inr_iff
      dest!: varint_Read_fact split: if_splits)

lemma varnum_length: "n \<le> unat (i :: u64) \<Longrightarrow> unat i < 2 ^ 62 \<Longrightarrow> varnum (int n)"
  by (simp add: varnum_def)

lemma data_parses:
  "parseCryptoFrame r = Inr (f1, r') \<Longrightarrow> frame_wf (CryptoF f1) \<and> length r' \<le> length r"
  "parseNewTokenFrame r = Inr (f2, r') \<Longrightarrow> frame_wf (NewTokenF f2) \<and> length r' \<le> length r"
  "parsePathChallengeFrame r = Inr (f3, r') \<Longrightarrow> frame_wf (PathChallengeF f3) \<and> length r' \<le> length r"
  "parsePathResponseFrame r = Inr (f4, r') \<Longrightarrow> frame_wf (PathResponseF f4) \<and> length r' \<le> length r"
  "parseConnectionCloseFrame r typ = Inr (f5, r') \<Longrightarrow> frame_wf (ConnectionCloseF f5) \<and> length r' \<le> length r"
  "parseNewConnectionIDFrame r = Inr (f6, r') \<Longrightarrow> frame_wf (NewConnectionIDF f6) \<and> length r' \<le> length r"
  "parseDatagramFrame r typ = Inr (f7, r') \<Longrightarrow> (length r < 2 ^ 62 \<longrightarrow> frame_wf (DatagramF f7)) \<and> length r' \<le> length r"
  subgoal by (auto simp: parseCryptoFrame_def bindE_Inr_iff readFull_Inr intro: varnum_length dest!: varint_Read_fact split: if_splits)
  subgoal by (auto simp: parseNewTokenFrame_def unat_eq_zero bindE_Inr_iff readFull_Inr intro: varnum_length dest!: varint_Read_fact split: if_splits)
  subgoal by (auto simp: parsePathChallengeFrame_def bindE_Inr_iff readArray_Inr)
  subgoal by (auto simp: parsePathResponseFrame_def bindE_Inr_iff readArray_Inr)
  subgoal by (auto simp: parseConnectionCloseFrame_def Let_def bindE_Inr_iff readFull_Inr intro: varnum_length dest!: varint_Read_fact split: if_splits)
  subgoal by (auto simp: parseNewConnectionIDFrame_def bindE_Inr_iff readByte_Inr readArray_Inr MaxConnIDLen_def maxConnectionIDLen_def
     dest!: varint_Read_fact ReadConnectionID_Inr split: if_splits)
  subgoal by (auto simp: parseDatagramFrame_def Let_def bindE_Inr_iff readFull_Inr varnum_def dest!: varint_Read_fact split: if_splits)
  done

lemma guard_Inr: "(if c then Inl e else m) = Inr x \<longleftrightarrow> \<not> c \<and> m = Inr x"
  by simp

lemma parseStreamFrame_facts:
  assumes "parseStreamFrame r typ = Inr (f, r')"
  shows "frame_parsed (StreamF f)" "length r' \<le> length r"
proof -
  from assms obtain sid r1 off r2 n r3 g d where
    sid: "varint_Read r = Inr (sid, r1)" and
    off: "(if typ AND 0b100 > 0 then varint_Read r1 else Inr (0, r1)) = Inr (off, r2)" and
    n: "(if typ AND 0b10 > 0 then bindE (varint_Read r2) (\<lambda>(l, r). Inr (unat l, r)) else Inr (length r2, r2)) = Inr (n, r3)" and
    g: "(if n < MinStreamFrameBufferSize then Inr (GetStreamFrame\<lparr>fromPool := False, stream_cap := int n\<rparr>)
         else if int n > stream_cap GetStreamFrame then Inl EOF else Inr GetStreamFrame) = Inr g" and
    rd: "(if n \<noteq> 0 then readFull r3 n else Inr ([], r3)) = Inr (d, r')" and
    f: "f = g\<lparr>stream_StreamID := int64_of sid, stream_Offset := int64_of off, stream_Fin := typ AND 0b1 > 0,
        stream_DataLenPresent := typ AND 0b10 > 0, stream_Data := d\<rparr>" and
    lim: "\<not> stream_Offset f + StreamFrame_DataLen f > MaxByteCount"
    unfolding parseStreamFrame_def Let_def bindE_Inr_iff [of _ _ "(f, r')"] split_paired_Ex prod.case guard_Inr
      sum.inject prod.inject by blast
  have off': "varnum (int64_of off)" "length r2 \<le> length r1"
    using off by (auto dest!: varint_Read_fact split: if_splits) (simp_all add: varnum_def int64_of_def)
  have n': "length r3 \<le> length r2"
    using n by (auto simp: bindE_Inr_iff dest!: varint_Read_fact split: if_splits)
  have d: "length d = n" "length r' \<le> length r3" using rd by (auto simp: readFull_Inr split: if_splits)
  show "length r' \<le> length r" using varint_Read_fact [OF sid] off' n' d by linarith
  have fields: "stream_Data f = d" "stream_StreamID f = int64_of sid" "stream_Offset f = int64_of off" by (subst f, simp)+
  have "fromPool f = (\<not> n < MinStreamFrameBufferSize)"
    "stream_cap f = (if n < MinStreamFrameBufferSize then int n else MaxPacketBufferSize)"
    by (subst f, use g in \<open>auto simp: GetStreamFrame_def split: if_splits\<close>)+
  with d(1) fields(1) have norm: "stream_norm f = f"
    by (cases f) (simp add: stream_norm_def StreamFrame_DataLen_def)
  have "int (length d) \<le> MaxPacketBufferSize" using g d
    by (auto simp: GetStreamFrame_def MinStreamFrameBufferSize_def MaxPacketBufferSize_def split: if_splits)
  moreover have "varnum (int64_of sid)" using varint_Read_fact [OF sid] by blast
  ultimately show "frame_parsed (StreamF f)"
    using lim off' norm by (auto simp: frame_parsed_def fields StreamFrame_DataLen_def)
qed

lemma parseFrameBody_facts:
  assumes p: "parseFrameBody p r typ encLevel = Inr (f, r')"
  shows "(length r < 2 ^ 62 \<longrightarrow> frame_parsed f) \<and> length r' \<le> length r"
proof -
  have ack: "frame_parsed (AckF a) \<and> length r' \<le> length r"
    if "parseAckFrame (AckFrame_Reset q) r t e = Inr (a, r')" for q e a t
    using parseAckFrame_encodable [OF that] by (simp add: AckFrame_Reset_def frame_parsed_def)
  note * = frame_parsed_def
  show ?thesis
    using p unfolding parseFrameBody_def Let_def
    by (simp only: split: if_split_asm)
      (auto simp: wrapF_Inr * dest: simple_parses data_parses ack parseStreamFrame_facts)
qed

lemma parseFrame_Inr:
  "parseFrame p r typ encLevel = Inr (f, r') \<longleftrightarrow>
   parseFrameBody p r typ encLevel = Inr (f, r') \<and> isAllowedAtEncLevel f encLevel = Inr True"
  by (auto simp: parseFrame_def bindE_Inr_iff split: if_splits)

lemma frameEncodingError_Inr [simp]:
  "frameEncodingError typ m = Inr x \<longleftrightarrow> m = Inr x" "frameEncodingError typ (Inr x) = Inr x"
  by (auto simp: frameEncodingError_def split: sum.splits error.splits)

lemma parseNext_facts:
  "parseNext p r encLevel = Inr (f, r') \<Longrightarrow>
   (case f of None \<Rightarrow> r' = [] | Some g \<Rightarrow> (length r < 2 ^ 62 \<longrightarrow> frame_parsed g) \<and> isAllowedAtEncLevel g encLevel = Inr True
     \<and> length r' < length r)"
proof (induction p r encLevel rule: parseNext.induct)
  case (1 p r encLevel)
  show ?case
  proof (cases "r = []")
    case True
    then show ?thesis using "1.prems" by (auto simp: parseNext.simps [of p "[]"])
  next
    case False
    with "1.prems" obtain ty r1 where rd: "varint_Read r = Inr (ty, r1)"
      by (cases "frameEncodingError 0 (varint_Read r)") (auto simp: parseNext.simps [of p r])
    note l = varint_Read_length [OF rd]
    have rd': "frameEncodingError 0 (varint_Read r) = Inr (ty, r1)" using rd by simp
    show ?thesis
    proof (cases "ty = 0")
      case True
      then have "parseNext p r encLevel = parseNext p r1 encLevel"
        using False rd' by (simp add: parseNext.simps [of p r])
      with "1.IH" [OF False rd' refl True] "1.prems" l show ?thesis by (cases f) auto
    next
      case False': False
      have "parseNext p r encLevel
        = bindE (frameEncodingError ty (parseFrame p r1 ty encLevel)) (\<lambda>(f, r'). Inr (Some f, r'))"
        using False False' rd' by (simp add: parseNext.simps [of p r])
      with "1.prems" obtain g where g: "f = Some g" "parseFrame p r1 ty encLevel = Inr (g, r')"
        by (auto simp: bindE_Inr_iff)
      from g(2) have "parseFrameBody p r1 ty encLevel = Inr (g, r')" "isAllowedAtEncLevel g encLevel = Inr True"
        by (simp_all add: parseFrame_Inr)
      with parseFrameBody_facts [OF this(1)] l "1.prems" g(1) show ?thesis by simp
    qed
  qed
qed

lemma ParseNext_Inr:
  "ParseNext p data encLevel = Inr (p', n, f) \<longleftrightarrow>
   (\<exists>r. parseNext p data encLevel = Inr (f, r) \<and> n = length data - length r
     \<and> p' = (case f of Some (AckF a) \<Rightarrow> p\<lparr>ackFrame := a\<rparr> | _ \<Rightarrow> p))"
  by (auto simp: ParseNext_def bindE_Inr_iff Let_def)

lemma ParseNext_consumes:
  "ParseNext p data encLevel = Inr (p', n, Some f) \<Longrightarrow> data \<noteq> [] \<and> 0 < n \<and> n \<le> length data"
  by (auto simp: ParseNext_Inr dest!: parseNext_facts)

lemma varint_Read_small: "b < 64 \<Longrightarrow> varint_Read (b # r) = Inr (ucast b, r)"
  using varint_Read_tagged(1) [of b r] by (simp add: word_less_nat_alt)

lemma parseNext_padding: "parseNext p (0 # r) encLevel = parseNext p r encLevel"
  using varint_Read_small [of 0 r] by (simp add: parseNext.simps [of p "0 # r"] frameEncodingError_def)

lemma parseNext_frame:
  assumes f: "frame_wf f" "peers p encLevel f" "isAllowedAtEncLevel (frame_norm f) encLevel = Inr True"
  obtains bs where "bs \<noteq> []" "\<forall>b. frame_Append b f = Inr (b @ bs)" "frame_Length f = Inr (int (length bs))"
    "\<forall>r. selfDelimiting f \<or> r = [] \<longrightarrow> parseNext p (bs @ r) encLevel = Inr (Some (frame_norm f), r)"
proof -
  from frame_codec [OF f(1,2)] obtain t where t: "t \<noteq> 0" "t < 64" and
    c: "codec (\<lambda>b. frame_Append b f) (frame_Length f) t (selfDelimiting f)
    (\<lambda>r. parseFrameBody p r (ucast t) encLevel) (frame_norm f)" by blast
  from c obtain bs where bs: "\<And>b. frame_Append b f = Inr (b @ t # bs)" "frame_Length f = Inr (1 + int (length bs))"
    "\<And>r. selfDelimiting f \<or> r = [] \<Longrightarrow> parseFrameBody p (bs @ r) (ucast t) encLevel = Inr (frame_norm f, r)"
    unfolding codec_def by blast
  have "(ucast t :: u64) \<noteq> 0" using t(1) unat_ucast_byte [of t] by (metis unat_eq_zero)
  then have "parseNext p ((t # bs) @ r) encLevel = Inr (Some (frame_norm f), r)" if "selfDelimiting f \<or> r = []" for r
    using varint_Read_small [OF t(2)] bs(3) [OF that] f(3)
    by (simp add: parseNext.simps [of p "t # _"] frameEncodingError_def parseFrame_def)
  with bs show thesis by (intro that [of "t # bs"]) auto
qed

lemma noPanic_simps [simp]:
  "noPanic (Inr x)" "noPanic (Inl EOF)" "noPanic (Inl ErrUnexpectedEOF)" "noPanic (Inl (Err s))"
  "noPanic (Inl (TransportError c t))"
  by (simp_all add: noPanic_def)

lemma noPanic_bindE: "noPanic m \<Longrightarrow> (\<And>a. m = Inr a \<Longrightarrow> noPanic (f a)) \<Longrightarrow> noPanic (bindE m f)"
  by (cases m) (simp_all add: noPanic_def)

lemma noPanic_if: "(c \<Longrightarrow> noPanic a) \<Longrightarrow> (\<not> c \<Longrightarrow> noPanic b) \<Longrightarrow> noPanic (if c then a else b)"
  by simp

lemma noPanic_prod: "(\<And>a b. x = (a, b) \<Longrightarrow> noPanic (f a b)) \<Longrightarrow> noPanic (case x of (a, b) \<Rightarrow> f a b)"
  by (cases x) simp

lemma noPanic_readers:
  "noPanic (readByte r)" "noPanic (readFull r n)" "noPanic (readArray r n)" "noPanic (ReadConnectionID r n)"
  by (cases r; auto simp: noPanic_def readFull_def readArray_def ReadConnectionID_def)+

lemmas noPanic_intros = noPanic_bindE noPanic_if noPanic_prod noPanic_simps noPanic_readers

lemma noPanic_varint: "noPanic (varint_Read r)"
  unfolding varint_Read_def Let_def by (intro noPanic_intros)

lemma noPanic_parseAckRanges: "noPanic (parseAckRanges n f s r)"
  by (induction n f s r rule: parseAckRanges.induct)
    (simp, auto simp: Let_def intro!: noPanic_intros noPanic_varint)

lemma noPanic_parsers:
  "noPanic (parseDataBlockedFrame r)" "noPanic (parseMaxDataFrame r)" "noPanic (parseRetireConnectionIDFrame r)"
  "noPanic (parseMaxStreamDataFrame r)" "noPanic (parseStreamDataBlockedFrame r)" "noPanic (parseResetStreamFrame r)"
  "noPanic (parseStopSendingFrame r)" "noPanic (parseMaxStreamsFrame r t)" "noPanic (parseStreamsBlockedFrame r t)"
  "noPanic (parseCryptoFrame r)" "noPanic (parseNewTokenFrame r)" "noPanic (parsePathChallengeFrame r)"
  "noPanic (parsePathResponseFrame r)" "noPanic (parseConnectionCloseFrame r t)"
  "noPanic (parseNewConnectionIDFrame r)" "noPanic (parseDatagramFrame r t)" "noPanic (parseStreamFrame r t)"
  "noPanic (parseAckFrame f r t e)"
  unfolding parseDataBlockedFrame_def parseMaxDataFrame_def parseRetireConnectionIDFrame_def
    parseMaxStreamDataFrame_def parseStreamDataBlockedFrame_def parseResetStreamFrame_def
    parseStopSendingFrame_def parseMaxStreamsFrame_def parseStreamsBlockedFrame_def parseCryptoFrame_def
    parseNewTokenFrame_def parsePathChallengeFrame_def parsePathResponseFrame_def
    parseConnectionCloseFrame_def parseNewConnectionIDFrame_def parseDatagramFrame_def parseStreamFrame_def
    parseAckFrame_def Let_def
  by (intro noPanic_intros noPanic_varint noPanic_parseAckRanges)+

lemma noPanic_wrapF: "noPanic m \<Longrightarrow> noPanic (wrapF C m)"
  unfolding wrapF_def by (intro noPanic_intros)

lemma noPanic_parseFrameBody: "noPanic (parseFrameBody p r t encLevel)"
  unfolding parseFrameBody_def Let_def
  by (intro noPanic_if noPanic_simps noPanic_wrapF noPanic_parsers)

lemma noPanic_parseFrame: "encLevel \<noteq> EncryptionUnset \<Longrightarrow> noPanic (parseFrame p r t encLevel)"
  unfolding parseFrame_def
  by (intro noPanic_bindE noPanic_prod noPanic_if noPanic_parseFrameBody noPanic_simps)
    (cases encLevel; simp add: isAllowedAtEncLevel_def)

lemma frameEncodingError_Inl:
  "noPanic m \<Longrightarrow> frameEncodingError t m = Inl e \<Longrightarrow> e = TransportError FrameEncodingError t"
  by (auto simp: frameEncodingError_def noPanic_def split: sum.splits error.splits)

lemma parseNext_error:
  "parseNext p r encLevel = Inl e \<Longrightarrow> encLevel \<noteq> EncryptionUnset \<Longrightarrow> \<exists>t. e = TransportError FrameEncodingError t"
proof (induction p r encLevel rule: parseNext.induct)
  case (1 p r encLevel)
  show ?case
  proof (cases "varint_Read r")
    case (Inl e')
    with "1.prems" show ?thesis
      using frameEncodingError_Inl [OF noPanic_varint, of 0 r]
      by (cases "r = []"; cases "frameEncodingError 0 (varint_Read r)") (auto simp: parseNext.simps [of p r] parseNext.simps [of p "[]"])
  next
    case (Inr x)
    obtain ty r1 where x: "x = (ty, r1)" by (cases x)
    from "1.prems"(1) have ne: "r \<noteq> []" by (auto simp: parseNext.simps [of p "[]"])
    have rd: "frameEncodingError 0 (varint_Read r) = Inr (ty, r1)" using Inr x by simp
    show ?thesis
    proof (cases "ty = 0")
      case True
      with "1.IH" [OF ne rd refl] "1.prems" ne rd show ?thesis by (simp add: parseNext.simps [of p r])
    next
      case False
      with "1.prems"(1) ne rd have "frameEncodingError ty (parseFrame p r1 ty encLevel) = Inl e"
        by (cases "frameEncodingError ty (parseFrame p r1 ty encLevel)")
          (auto simp: parseNext.simps [of p r] split: prod.splits)
      with frameEncodingError_Inl [OF noPanic_parseFrame [OF "1.prems"(2)]] show ?thesis by blast
    qed
  qed
qed

lemma buffer_ok_norm: "frame_wf (StreamF (s\<lparr>stream_Fin := b\<rparr>)) \<Longrightarrow> stream_norm s = s \<Longrightarrow> buffer_ok s"
  by (cases "length (stream_Data s) < MinStreamFrameBufferSize"; cases s)
    (auto simp: buffer_ok_def stream_norm_def StreamFrame_DataLen_def)

lemma buffer_ok_put: "buffer_ok s \<Longrightarrow> putStreamFrame s = Inr (fromPool s)"
  by (auto simp: buffer_ok_def putStreamFrame_def)

subsection \<open>Properties\<close>

text \<open>
  C29. On any input, at every encryption level of a packet, the parser either gives a frame that is well
  formed and allowed at this level, having consumed at least one byte and never more than there are, or
  reaches the end of the packet, or fails with a FRAME_ENCODING_ERROR. It never panics. The buffer of a
  STREAM frame can go back to the pool.
\<close>

theorem ParseNext_sound:
  assumes len: "length data < 2 ^ 62" and lvl: "encLevel \<noteq> EncryptionUnset"
  shows "case ParseNext p data encLevel of
      Inl e \<Rightarrow> \<exists>t. e = TransportError FrameEncodingError t
    | Inr (p', n, None) \<Rightarrow> n = length data \<and> p' = p
    | Inr (p', n, Some f) \<Rightarrow> 0 < n \<and> n \<le> length data \<and> frame_parsed f \<and> isAllowedAtEncLevel f encLevel = Inr True
        \<and> (case f of StreamF s \<Rightarrow> putStreamFrame s = Inr (fromPool s) | _ \<Rightarrow> True)"
proof (cases "parseNext p data encLevel")
  case (Inl e)
  with parseNext_error [OF this lvl] show ?thesis by (simp add: ParseNext_def)
next
  case (Inr x)
  obtain f r where x: "x = (f, r)" by (cases x)
  have eq: "ParseNext p data encLevel
      = Inr (case f of Some (AckF a) \<Rightarrow> p\<lparr>ackFrame := a\<rparr> | _ \<Rightarrow> p, length data - length r, f)"
    using Inr x by (simp add: ParseNext_def Let_def)
  show ?thesis
  proof (cases f)
    case None
    with parseNext_facts [OF Inr [unfolded x]] eq show ?thesis by simp
  next
    case (Some g)
    with parseNext_facts [OF Inr [unfolded x]] len
    have g: "frame_parsed g" "isAllowedAtEncLevel g encLevel = Inr True" "length r < length data" by auto
    have "case g of StreamF s \<Rightarrow> putStreamFrame s = Inr (fromPool s) | _ \<Rightarrow> True"
      using g(1) buffer_ok_norm buffer_ok_put by (auto simp: frame_parsed_def split: wire_Frame.splits)
    with g eq Some show ?thesis by (simp split: option.splits)
  qed
qed

theorem ParseNext_sound_witness:
  "\<exists>p' n d. ParseNext (NewFrameParser False) [0, 0, 0x06, 0x05, 0x02, 0xaa, 0xbb, 0x01] EncryptionInitial
     = Inr (p', n, Some (CryptoF d)) \<and> 0 < n \<and> n \<le> 8 \<and> frame_parsed (CryptoF d) \<and> crypto_Data d = [0xaa, 0xbb]"
proof -
  have eq: "ParseNext (NewFrameParser False) [0, 0, 0x06, 0x05, 0x02, 0xaa, 0xbb, 0x01] EncryptionInitial
    = Inr (NewFrameParser False, 7, Some (CryptoF \<lparr>crypto_Offset = 5, crypto_Data = [0xaa, 0xbb]\<rparr>))"
    by code_simp
  show ?thesis
    using ParseNext_sound [of "[0, 0, 0x06, 0x05, 0x02, 0xaa, 0xbb, 0x01]" EncryptionInitial "NewFrameParser False"]
    unfolding eq by simp
qed

text \<open>
  C32. Only the low byte of the type decides that a frame is a STREAM frame: every longer type whose low
  byte is that of a STREAM frame, 0x108 for example, is parsed as one instead of being refused.
\<close>

theorem parseFrame_long_types:
  assumes "t AND 0xf8 = 0x8"
  shows "parseFrame p r t encLevel = parseFrame p r (t AND 0xf) encLevel"
proof -
  have "(t AND 0xf) AND 0xf8 = (t AND 0xf8) AND 0xf" by (simp only: ac_simps)
  then have "(t AND 0xf) AND 0xf8 = 0x8" using assms by simp
  moreover have "(t AND 0xf) AND 0b100 = t AND 0b100" "(t AND 0xf) AND 0b1 = t AND 0b1" "(t AND 0xf) AND 0b10 = t AND 0b10"
    by (simp_all add: and.assoc)
  ultimately have "parseFrameBody p r t encLevel = parseFrameBody p r (t AND 0xf) encLevel"
    using assms by (simp only: parseFrameBody_def parseStreamFrame_def if_True simp_thms)
  then show ?thesis by (simp add: parseFrame_def)
qed

theorem parseFrame_long_types_witness:
  "\<exists>s. parseNext (NewFrameParser False) [0x41, 0x08, 0x04, 0xaa] Encryption1RTT = Inr (Some (StreamF s), [])
     \<and> stream_StreamID s = 4 \<and> stream_Data s = [0xaa]"
proof -
  have *: "parseFrame (NewFrameParser False) [0x04, 0xaa] (0x108 AND 0xf) Encryption1RTT
    = Inr (StreamF \<lparr>stream_StreamID = 4, stream_Offset = 0, stream_Data = [0xaa], stream_Fin = False,
        stream_DataLenPresent = False, fromPool = False, stream_cap = 1\<rparr>, [])" by code_simp
  have rd: "varint_Read [0x41, 0x08, 0x04, 0xaa] = Inr (0x108, [0x04, 0xaa])" by code_simp
  show ?thesis
    using parseFrame_long_types [of "0x108" "NewFrameParser False" "[0x04, 0xaa]" Encryption1RTT] *
    by (simp add: parseNext.simps [of _ "[0x41, 0x08, 0x04, 0xaa]"] rd)
qed

end
