(* ===== verification/Packet_Payload.thy ===== *)
theory Packet_Payload
  imports Frame_Parser "HOL-Library.Multiset"
begin

text \<open>
  The payload of a packet on both sides: \<open>appendPacketPayload\<close> of \<open>packet_packer.go\<close> writes the frames of a
  packet, \<open>handleFrames\<close> of \<open>connection.go\<close> parses them and hands each to the connection. The order of the
  control frames comes from a random number generator, which is a parameter. The connection behind
  \<open>handleFrames\<close> is a parameter as well: a state, the handler of one frame and what follows the completion of
  the handshake.
\<close>

subsection \<open>Writing\<close>

record payload =
  pl_streamFrames :: "StreamFrame list"
  pl_frames :: "wire_Frame list"
  pl_ack :: "AckFrame option"
  pl_length :: ByteCount

text \<open>The loop that serialises frames, over the \<open>Append\<close> method of their type.\<close>

fun appendFrames :: "(byte list \<Rightarrow> 'f \<Rightarrow> byte list result) \<Rightarrow> byte list \<Rightarrow> 'f list \<Rightarrow> byte list result" where
  "appendFrames app raw [] = Inr raw"
| "appendFrames app raw (f # fs) = bindE (app raw f) (\<lambda>raw. appendFrames app raw fs)"

definition appendPacketPayload ::
  "(wire_Frame list \<Rightarrow> wire_Frame list) \<Rightarrow> byte list \<Rightarrow> payload \<Rightarrow> ByteCount \<Rightarrow> byte list result" where
  "appendPacketPayload shuffle raw pl paddingLen =
     (let payloadOffset = length raw in
      bindE (case pl_ack pl of Some a \<Rightarrow> AckFrame_Append raw a | None \<Rightarrow> Inr raw) (\<lambda>raw.
      let raw = (if paddingLen > 0 then raw @ replicate (nat paddingLen) 0 else raw);
          frames = (if length (pl_frames pl) > 1 then shuffle (pl_frames pl) else pl_frames pl) in
      bindE (appendFrames frame_Append raw frames) (\<lambda>raw.
      bindE (appendFrames StreamFrame_Append raw (pl_streamFrames pl)) (\<lambda>raw.
      if int (length raw) - int payloadOffset - paddingLen \<noteq> pl_length pl then
        Inl (Err ''PacketPacker BUG: payload size inconsistent'')
      else Inr raw))))"

subsection \<open>Reading\<close>

text \<open>
  The loop of \<open>handleFrames\<close>. The state of the connection is the frame parser, whose exponent the handler
  may set, and the rest. \<open>log\<close> tells whether the connection is traced; \<open>frames\<close> are the frames for the log.
\<close>

record 's frameLoop =
  fl_parser :: frameParser
  fl_conn :: 's
  isAckEliciting :: bool
  fl_frames :: "wire_Frame list"
  handleErr :: "error option"

type_synonym 's frameHandler = "frameParser \<times> 's \<Rightarrow> wire_Frame \<Rightarrow> (frameParser \<times> 's) \<times> error option"

text \<open>One frame: the outcome is the state and the error with which the function returns at once, if any.\<close>

definition handleParsed ::
  "'s frameHandler \<Rightarrow> bool \<Rightarrow> 's frameLoop \<Rightarrow> wire_Frame \<Rightarrow> 's frameLoop \<times> error option" where
  "handleParsed handleFrame log s frame =
     (let s = (if IsFrameAckEliciting frame then s\<lparr>isAckEliciting := True\<rparr> else s);
          s = (if log then s\<lparr>fl_frames := fl_frames s @ [frame]\<rparr> else s) in
      if handleErr s \<noteq> None then (s, None)
      else
        case handleFrame (fl_parser s, fl_conn s) frame of ((p, c), err) \<Rightarrow>
          let s = s\<lparr>fl_parser := p, fl_conn := c\<rparr> in
          case err of None \<Rightarrow> (s, None)
          | Some e \<Rightarrow> if \<not> log then (s, Some e) else (s\<lparr>handleErr := Some e\<rparr>, None))"

function handleFrames_loop ::
  "'s frameHandler \<Rightarrow> bool \<Rightarrow> EncryptionLevel \<Rightarrow> 's frameLoop \<Rightarrow> byte list \<Rightarrow> 's frameLoop \<times> error option" where
  "handleFrames_loop handleFrame log encLevel s data =
     (if data = [] then (s, None)
      else
        case ParseNext (fl_parser s) data encLevel of
          Inl e \<Rightarrow> (s, Some e)
        | Inr (p, l, None) \<Rightarrow> (s\<lparr>fl_parser := p\<rparr>, None)
        | Inr (p, l, Some frame) \<Rightarrow>
            (case handleParsed handleFrame log (s\<lparr>fl_parser := p\<rparr>) frame of
               (s, Some e) \<Rightarrow> (s, Some e)
             | (s, None) \<Rightarrow> handleFrames_loop handleFrame log encLevel s (drop l data)))"
  by pat_completeness auto
termination
  by (relation "measure (\<lambda>(h, log, l, s, data). length data)")
    (auto dest!: ParseNext_consumes)

text \<open>
  The rest of \<open>handleFrames\<close>: the log is written, an error of a handler is reported, and the completion of the
  handshake is handled after all frames.
\<close>

definition handleFrames ::
  "'s frameHandler \<Rightarrow> (frameParser \<times> 's \<Rightarrow> bool) \<Rightarrow> (frameParser \<times> 's \<Rightarrow> (frameParser \<times> 's) \<times> error option) \<Rightarrow> bool \<Rightarrow>
   EncryptionLevel \<Rightarrow> frameParser \<times> 's \<Rightarrow> byte list \<Rightarrow> (frameParser \<times> 's) \<times> wire_Frame list option \<times> bool result" where
  "handleFrames handleFrame handshakeComplete handleHandshakeComplete log encLevel c data =
     (let handshakeWasComplete = handshakeComplete c in
      case handleFrames_loop handleFrame log encLevel
          \<lparr>fl_parser = fst c, fl_conn = snd c, isAckEliciting = False, fl_frames = [], handleErr = None\<rparr> data of
        (s, Some e) \<Rightarrow> ((fl_parser s, fl_conn s), None, Inl e)
      | (s, None) \<Rightarrow>
          let c = (fl_parser s, fl_conn s);
              logged = (if log then Some (fl_frames s) else None) in
          if log \<and> handleErr s \<noteq> None then (c, logged, Inl (the (handleErr s)))
          else if \<not> handshakeWasComplete \<and> handshakeComplete c then
            case handleHandshakeComplete c of
              (c, Some e) \<Rightarrow> (c, logged, Inl e)
            | (c, None) \<Rightarrow> (c, logged, Inr (isAckEliciting s))
          else (c, logged, Inr (isAckEliciting s)))"

definition frame_bytes :: "wire_Frame \<Rightarrow> byte list" where
  "frame_bytes f = (case frame_Append [] f of Inr bs \<Rightarrow> bs | Inl _ \<Rightarrow> [])"

text \<open>The frames of a payload in the order of the wire.\<close>

definition payload_frames :: "(wire_Frame list \<Rightarrow> wire_Frame list) \<Rightarrow> payload \<Rightarrow> wire_Frame list" where
  "payload_frames shuffle pl =
     (case pl_ack pl of Some a \<Rightarrow> [AckF a] | None \<Rightarrow> [])
     @ (if length (pl_frames pl) > 1 then shuffle (pl_frames pl) else pl_frames pl)
     @ map StreamF (pl_streamFrames pl)"

definition sendable :: "frameParser \<Rightarrow> EncryptionLevel \<Rightarrow> wire_Frame \<Rightarrow> bool" where
  "sendable p encLevel f \<longleftrightarrow> frame_wf f \<and> peers p encLevel f \<and> isAllowedAtEncLevel f encLevel = Inr True"

definition payload_ok :: "frameParser \<Rightarrow> EncryptionLevel \<Rightarrow> payload \<Rightarrow> bool" where
  "payload_ok p encLevel pl \<longleftrightarrow>
     (\<forall>f \<in> set (payload_frames id pl). sendable p encLevel f)
     \<and> (\<forall>f \<in> set (pl_frames pl). selfDelimiting f) \<and> (\<forall>f \<in> set (butlast (pl_streamFrames pl)). stream_DataLenPresent f)
     \<and> pl_length pl = (\<Sum>f \<leftarrow> payload_frames id pl. int (length (frame_bytes f)))"

definition trackAck :: "frameParser \<Rightarrow> wire_Frame \<Rightarrow> frameParser" where
  "trackAck p f = (case f of AckF a \<Rightarrow> p\<lparr>ackFrame := a\<rparr> | _ \<Rightarrow> p)"

text \<open>The state of the loop after the frames \<open>fs\<close>, with a handler that never fails and leaves the parser alone.\<close>

definition afterFrames :: "('s \<Rightarrow> wire_Frame \<Rightarrow> 's) \<Rightarrow> bool \<Rightarrow> 's frameLoop \<Rightarrow> wire_Frame list \<Rightarrow> 's frameLoop" where
  "afterFrames g log s fs = fold (\<lambda>f s. s\<lparr>fl_parser := trackAck (fl_parser s) f,
     fl_conn := g (fl_conn s) f, isAckEliciting := isAckEliciting s \<or> IsFrameAckEliciting f,
     fl_frames := (if log then fl_frames s @ [f] else fl_frames s)\<rparr>) fs s"

text \<open>The states of a traced and an untraced run before the first error differ in the log only.\<close>

definition sameRun :: "'s frameLoop \<Rightarrow> 's frameLoop \<Rightarrow> bool" where
  "sameRun s t \<longleftrightarrow> fl_parser s = fl_parser t \<and> fl_conn s = fl_conn t \<and> isAckEliciting s = isAckEliciting t
     \<and> handleErr s = None \<and> handleErr t = None"

declare handleFrames_loop.simps [simp del]

subsection \<open>The interface of frames\<close>

text \<open>
  The interface \<open>Frame\<close> of \<open>internal/wire\<close>: a frame that is valid appends its bytes to what is there, and
  its \<open>Length\<close> is their number.
\<close>

locale wire_frame =
  fixes app :: "byte list \<Rightarrow> 'f \<Rightarrow> byte list result"
    and len :: "'f \<Rightarrow> ByteCount result"
    and valid :: "'f \<Rightarrow> bool"
    and bytes :: "'f \<Rightarrow> byte list"
  assumes append_valid: "valid f \<Longrightarrow> app b f = Inr (b @ bytes f)"
    and len_valid: "valid f \<Longrightarrow> len f = Inr (int (length (bytes f)))"
begin

lemma appendFrames_valid:
  "\<forall>f \<in> set fs. valid f \<Longrightarrow> appendFrames app b fs = Inr (b @ concat (map bytes fs))"
  by (induction fs arbitrary: b) (simp_all add: append_valid)

lemma appendFrames_length:
  assumes "\<forall>f \<in> set fs. valid f" "appendFrames app b fs = Inr b'"
  shows "int (length b') = int (length b) + (\<Sum>f \<leftarrow> fs. projr (len f))"
  using assms by (induction fs arbitrary: b) (auto simp: append_valid len_valid)

end

lemma codec_bytes:
  assumes "frame_wf f"
  shows "frame_Append b f = Inr (b @ frame_bytes f)" "frame_Length f = Inr (int (length (frame_bytes f)))"
proof -
  let ?p = "\<lparr>ackDelayExponent = AckDelayExponent, supportsDatagrams = True, ackFrame = emptyAckFrame\<rparr>"
  have p: "peers ?p Encryption1RTT f" by (cases f) (simp_all add: peers_def)
  have al: "isAllowedAtEncLevel (frame_norm f) Encryption1RTT = Inr True" by (simp add: isAllowedAtEncLevel_def)
  obtain bs where "bs \<noteq> []" "\<forall>b. frame_Append b f = Inr (b @ bs)" "frame_Length f = Inr (int (length bs))"
    "\<forall>r. selfDelimiting f \<or> r = [] \<longrightarrow> parseNext ?p (bs @ r) Encryption1RTT = Inr (Some (frame_norm f), r)"
    by (rule parseNext_frame [OF assms p al])
  then show "frame_Append b f = Inr (b @ frame_bytes f)" "frame_Length f = Inr (int (length (frame_bytes f)))"
    by (simp_all add: frame_bytes_def)
qed

lemma allowed_norm [simp]: "isAllowedAtEncLevel (frame_norm f) encLevel = isAllowedAtEncLevel f encLevel"
  by (cases f) (simp_all add: isAllowedAtEncLevel_def)

lemma eliciting_norm [simp]: "IsFrameAckEliciting (frame_norm f) = IsFrameAckEliciting f"
  by (cases f) simp_all

lemma parseNext_bytes:
  assumes "sendable p encLevel f" "selfDelimiting f \<or> r = []"
  shows "parseNext p (frame_bytes f @ r) encLevel = Inr (Some (frame_norm f), r)" "frame_bytes f \<noteq> []"
proof -
  have f: "frame_wf f" "peers p encLevel f" "isAllowedAtEncLevel (frame_norm f) encLevel = Inr True"
    using assms(1) by (simp_all add: sendable_def)
  obtain bs where bs: "bs \<noteq> []" "\<forall>b. frame_Append b f = Inr (b @ bs)"
    "frame_Length f = Inr (int (length bs))" "\<forall>r. selfDelimiting f \<or> r = [] \<longrightarrow> parseNext p (bs @ r) encLevel = Inr (Some (frame_norm f), r)"
    by (rule parseNext_frame [OF f])
  then have "frame_bytes f = bs" by (simp add: frame_bytes_def)
  with bs assms(2) show "parseNext p (frame_bytes f @ r) encLevel = Inr (Some (frame_norm f), r)" "frame_bytes f \<noteq> []"
    by auto
qed

interpretation any_frame: wire_frame frame_Append frame_Length frame_wf frame_bytes
  by unfold_locales (simp_all add: codec_bytes)

interpretation stream_frame: wire_frame StreamFrame_Append StreamFrame_Length "\<lambda>s. frame_wf (StreamF s)" "\<lambda>s. frame_bytes (StreamF s)"
  using codec_bytes [of "StreamF s" for s] by unfold_locales simp_all

interpretation ack_frame: wire_frame AckFrame_Append AckFrame_Length encodable "\<lambda>a. frame_bytes (AckF a)"
  using codec_bytes [of "AckF a" for a] by unfold_locales simp_all

lemma sendable_parser [simp]: "sendable (p\<lparr>ackFrame := a\<rparr>) encLevel f = sendable p encLevel f"
  by (simp add: sendable_def peers_def cong: wire_Frame.case_cong)

lemma sendable_trackAck [simp]: "sendable (trackAck p g) encLevel f = sendable p encLevel f"
  by (cases g) (simp_all add: trackAck_def)

lemma parseNext_zeros: "parseNext p (replicate n 0 @ r) encLevel = parseNext p r encLevel"
  by (induction n) (simp_all add: parseNext_padding)

lemma ParseNext_zeros:
  "ParseNext p (replicate n 0 @ r) encLevel = (case ParseNext p r encLevel of Inl e \<Rightarrow> Inl e
     | Inr (p', l, f) \<Rightarrow> Inr (p', n + l, f))"
proof (cases "parseNext p r encLevel")
  case (Inr x)
  obtain f r' where x: "x = (f, r')" by (cases x)
  have "length r' \<le> length r" using parseNext_facts [OF Inr [unfolded x]] by (cases f) auto
  with Inr x show ?thesis by (simp add: ParseNext_def parseNext_zeros Let_def)
qed (simp add: ParseNext_def parseNext_zeros)

lemma loop_zeros:
  "handleFrames_loop h log encLevel s (replicate n 0 @ r) = handleFrames_loop h log encLevel s r"
proof (cases "n = 0")
  case False
  then have ne: "replicate n (0 :: byte) @ r \<noteq> []" by simp
  show ?thesis
  proof (cases "r = []")
    case True
    have "ParseNext (fl_parser s) [] encLevel = Inr (fl_parser s, 0, None)"
      by (simp add: ParseNext_def parseNext.simps [of _ "[]"])
    with ne True show ?thesis
      using ParseNext_zeros [of "fl_parser s" n "[]" encLevel]
      by (simp add: handleFrames_loop.simps [of _ _ _ _ "replicate n 0"] handleFrames_loop.simps [of _ _ _ _ "[]"])
  next
    case False
    with ne show ?thesis
      by (simp add: handleFrames_loop.simps [of _ _ _ _ "replicate n 0 @ r"] handleFrames_loop.simps [of _ _ _ _ r]
        ParseNext_zeros split: sum.splits prod.splits option.splits)
  qed
qed simp

lemma loop_frame:
  assumes "sendable (fl_parser s) encLevel f" "selfDelimiting f \<or> r = []" "handleErr s = None"
    "\<And>p c f. h (p, c) f = ((p, g c f), None)"
  shows "handleFrames_loop h log encLevel s (frame_bytes f @ r)
    = handleFrames_loop h log encLevel (afterFrames g log s [frame_norm f]) r"
proof -
  note pn = parseNext_bytes [OF assms(1,2)]
  have "ParseNext (fl_parser s) (frame_bytes f @ r) encLevel
    = Inr (trackAck (fl_parser s) (frame_norm f), length (frame_bytes f), Some (frame_norm f))"
    using pn by (simp add: ParseNext_def Let_def trackAck_def)
  moreover have "handleParsed h log (s\<lparr>fl_parser := trackAck (fl_parser s) (frame_norm f)\<rparr>)
      (frame_norm f) = (afterFrames g log s [frame_norm f], None)"
    using assms(3) by (cases s) (simp add: handleParsed_def Let_def afterFrames_def assms(4))
  ultimately show ?thesis
    using pn(2) by (simp add: handleFrames_loop.simps [of _ _ _ _ "frame_bytes f @ r"])
qed

lemma loop_frames:
  assumes "\<forall>f \<in> set fs. sendable (fl_parser s) encLevel f" "\<forall>f \<in> set (butlast fs). selfDelimiting f"
    "fs \<noteq> [] \<longrightarrow> selfDelimiting (last fs) \<or> r = []" "handleErr s = None"
    "\<And>p c f. h (p, c) f = ((p, g c f), None)"
  shows "handleFrames_loop h log encLevel s (concat (map frame_bytes fs) @ r)
    = handleFrames_loop h log encLevel (afterFrames g log s (map frame_norm fs)) r"
  using assms
proof (induction fs arbitrary: s)
  case (Cons f fs)
  let ?s = "afterFrames g log s [frame_norm f]"
  have sd: "selfDelimiting f \<or> concat (map frame_bytes fs) @ r = []"
    using Cons.prems(2,3) by (cases fs) auto
  have p: "fl_parser ?s = trackAck (fl_parser s) (frame_norm f)"
    "handleErr ?s = None" using Cons.prems(4) by (simp_all add: afterFrames_def)
  have "\<forall>f \<in> set fs. sendable (fl_parser ?s) encLevel f"
    using Cons.prems(1) by (simp add: p)
  moreover have "\<forall>f \<in> set (butlast fs). selfDelimiting f" "fs \<noteq> [] \<longrightarrow> selfDelimiting (last fs) \<or> r = []"
    using Cons.prems(2,3) by (auto split: if_splits)
  ultimately have "handleFrames_loop h log encLevel ?s (concat (map frame_bytes fs) @ r)
    = handleFrames_loop h log encLevel (afterFrames g log ?s (map frame_norm fs)) r"
    using p(2) Cons.prems(5) by (intro Cons.IH) auto
  with loop_frame [OF _ sd Cons.prems(4,5)] Cons.prems(1) show ?case
    by (simp add: afterFrames_def)
qed (simp add: afterFrames_def)

lemma afterFrames_fields:
  "fl_conn (afterFrames g log s fs) = foldl g (fl_conn s) fs"
  "isAckEliciting (afterFrames g log s fs) = (isAckEliciting s \<or> HasAckElicitingFrames fs)"
  "fl_frames (afterFrames g log s fs) = (if log then fl_frames s @ fs else fl_frames s)"
  "handleErr (afterFrames g log s fs) = handleErr s"
  by (induction fs arbitrary: s) (auto simp: afterFrames_def)

lemma HasAckElicitingFrames_norm: "HasAckElicitingFrames (map frame_norm fs) = HasAckElicitingFrames fs"
  by (induction fs) auto

lemma payload_frames_perm:
  "mset (shuffle (pl_frames pl)) = mset (pl_frames pl) \<Longrightarrow> mset (payload_frames shuffle pl) = mset (payload_frames id pl)"
  by (simp add: payload_frames_def)

lemma sum_list_perm: "mset xs = mset ys \<Longrightarrow> (\<Sum>x \<leftarrow> xs. f x) = (\<Sum>x \<leftarrow> ys. f x :: int)"
  using arg_cong [of "mset xs" "mset ys" "\<lambda>M. sum_mset (image_mset f M)"]
  by (simp flip: sum_mset_sum_list)

lemma length_concat_map: "int (length (concat (map h fs))) = (\<Sum>f \<leftarrow> fs. int (length (h f)))"
  by (induction fs) simp_all

lemma appendPacketPayload_eq:
  assumes ok: "payload_ok p encLevel pl" and perm: "mset (shuffle (pl_frames pl)) = mset (pl_frames pl)"
    and pad: "0 \<le> paddingLen"
  defines "ack \<equiv> (case pl_ack pl of Some a \<Rightarrow> [AckF a] | None \<Rightarrow> [])"
    and "rest \<equiv> (if length (pl_frames pl) > 1 then shuffle (pl_frames pl) else pl_frames pl)
      @ map StreamF (pl_streamFrames pl)"
  shows "appendPacketPayload shuffle raw pl paddingLen = Inr (raw @ concat (map frame_bytes ack)
    @ replicate (nat paddingLen) 0 @ concat (map frame_bytes rest))"
    "int (length (concat (map frame_bytes ack) @ replicate (nat paddingLen) (0 :: byte) @ concat (map frame_bytes rest)))
      = pl_length pl + paddingLen"
    "payload_frames shuffle pl = ack @ rest"
proof -
  let ?a = "concat (map frame_bytes ack)" and ?z = "replicate (nat paddingLen) (0 :: byte)"
    and ?r = "concat (map frame_bytes rest)"
  let ?fs = "if length (pl_frames pl) > 1 then shuffle (pl_frames pl) else pl_frames pl"
  show eq: "payload_frames shuffle pl = ack @ rest" by (simp add: payload_frames_def ack_def rest_def)
  have set: "set (payload_frames shuffle pl) = set (payload_frames id pl)"
    using payload_frames_perm [of shuffle pl] perm by (intro mset_eq_setD) simp
  then have wf: "\<forall>f \<in> set (ack @ rest). frame_wf f" using ok eq by (auto simp: payload_ok_def sendable_def)
  have "(\<Sum>f \<leftarrow> payload_frames id pl. int (length (frame_bytes f))) = (\<Sum>f \<leftarrow> ack @ rest. int (length (frame_bytes f)))"
    using payload_frames_perm [of shuffle pl, OF perm] by (intro sum_list_perm) (simp add: eq)
  then have len: "pl_length pl = int (length (?a @ ?r))"
    using ok by (simp add: payload_ok_def length_concat_map)
  then show "int (length (?a @ ?z @ ?r)) = pl_length pl + paddingLen" using pad by simp
  have a: "(case pl_ack pl of Some a \<Rightarrow> AckFrame_Append raw a | None \<Rightarrow> Inr raw) = Inr (raw @ ?a)"
    using wf by (auto simp: ack_def ack_frame.append_valid split: option.splits)
  have f: "appendFrames frame_Append b ?fs = Inr (b @ concat (map frame_bytes ?fs))" for b
    using wf by (intro any_frame.appendFrames_valid) (auto simp: rest_def)
  have s: "appendFrames StreamFrame_Append b (pl_streamFrames pl)
      = Inr (b @ concat (map (\<lambda>s. frame_bytes (StreamF s)) (pl_streamFrames pl)))" for b
    using wf by (intro stream_frame.appendFrames_valid) (auto simp: rest_def simp del: frame_wf.simps)
  have z: "(if paddingLen > 0 then b @ replicate (nat paddingLen) 0 else b) = b @ ?z" for b :: "byte list"
    using pad by auto
  show "appendPacketPayload shuffle raw pl paddingLen = Inr (raw @ ?a @ ?z @ ?r)"
    unfolding appendPacketPayload_def Let_def a bindE_simps z f s
    using len pad by (simp add: rest_def comp_def)
qed

subsection \<open>Properties\<close>

text \<open>
  C24. The payload of a packet survives the wire. For frames that may be sent at the encryption level, of
  which only the last STREAM frame may lack its length, \<open>appendPacketPayload\<close> succeeds with any order of the
  control frames and writes exactly \<open>length\<close> bytes and the padding. On the other side \<open>handleFrames\<close>, with a
  handler that accepts them, handles exactly these frames in the order they were written, skips the padding,
  and reports whether one of them is ack-eliciting.
\<close>

theorem payload_roundtrip:
  assumes ok: "payload_ok p encLevel pl" and perm: "mset (shuffle (pl_frames pl)) = mset (pl_frames pl)"
    and pad: "0 \<le> paddingLen" and h: "\<And>p c f. handleFrame (p, c) f = ((p, g c f), None)"
    and hc: "handshakeComplete (p, c)"
  shows "\<exists>bs p'. appendPacketPayload shuffle raw pl paddingLen = Inr (raw @ bs)
    \<and> int (length bs) = pl_length pl + paddingLen
    \<and> (let frames = payload_frames shuffle pl in
       handleFrames handleFrame handshakeComplete done log encLevel (p, c) bs
         = ((p', foldl g c (map frame_norm frames)), if log then Some (map frame_norm frames) else None,
            Inr (HasAckElicitingFrames frames)))"
proof -
  define ack where "ack = (case pl_ack pl of Some a \<Rightarrow> [AckF a] | None \<Rightarrow> [])"
  define rest where "rest = (if length (pl_frames pl) > 1 then shuffle (pl_frames pl) else pl_frames pl)
      @ map StreamF (pl_streamFrames pl)"
  define bs where "bs = concat (map frame_bytes ack) @ replicate (nat paddingLen) (0 :: byte) @ concat (map frame_bytes rest)"
  note ap = appendPacketPayload_eq [where shuffle = shuffle, OF ok perm pad, folded ack_def rest_def, folded bs_def]
  define s0 where "s0 = \<lparr>fl_parser = p, fl_conn = c, isAckEliciting = False, fl_frames = [], handleErr = None\<rparr>"
  define s1 where "s1 = afterFrames g log s0 (map frame_norm ack)"
  have set: "set (payload_frames shuffle pl) = set (payload_frames id pl)"
    using payload_frames_perm [of shuffle pl, OF perm] by (rule mset_eq_setD)
  then have send: "\<forall>f \<in> set (ack @ rest). sendable p encLevel f" using ok ap(3) by (auto simp: payload_ok_def)
  have sd: "\<forall>f \<in> set (pl_frames pl). selfDelimiting f" "set (shuffle (pl_frames pl)) = set (pl_frames pl)"
    using ok perm by (auto simp: payload_ok_def dest: mset_eq_setD)
  have sd': "\<forall>f \<in> set (butlast rest). selfDelimiting f"
    using sd ok by (auto simp: rest_def payload_ok_def butlast_append map_butlast [symmetric] dest: in_set_butlastD)
  have s1: "\<forall>f \<in> set rest. sendable (fl_parser s1) encLevel f" "handleErr s1 = None"
    using send by (auto simp: s1_def s0_def ack_def afterFrames_def split: option.splits)
  have "handleFrames_loop handleFrame log encLevel s0 bs
    = handleFrames_loop handleFrame log encLevel s1 (replicate (nat paddingLen) 0 @ concat (map frame_bytes rest))"
    unfolding bs_def s1_def using send h
    by (intro loop_frames) (auto simp: s0_def ack_def split: option.splits)
  also have "\<dots> = handleFrames_loop handleFrame log encLevel s1 (concat (map frame_bytes rest) @ [])"
    by (simp add: loop_zeros)
  also have "\<dots> = handleFrames_loop handleFrame log encLevel (afterFrames g log s1 (map frame_norm rest)) []"
    using s1 sd' h by (intro loop_frames) auto
  also have "\<dots> = (afterFrames g log s0 (map frame_norm (payload_frames shuffle pl)), None)"
    by (simp add: handleFrames_loop.simps [of _ _ _ _ "[]"] s1_def ap(3) afterFrames_def)
  finally have loop: "handleFrames_loop handleFrame log encLevel s0 bs
    = (afterFrames g log s0 (map frame_norm (payload_frames shuffle pl)), None)" .
  define s2 where "s2 = afterFrames g log s0 (map frame_norm (payload_frames shuffle pl))"
  have s2: "fl_conn s2 = foldl g c (map frame_norm (payload_frames shuffle pl))"
    "isAckEliciting s2 = HasAckElicitingFrames (payload_frames shuffle pl)"
    "fl_frames s2 = (if log then map frame_norm (payload_frames shuffle pl) else [])" "handleErr s2 = None"
    by (simp_all add: s2_def afterFrames_fields s0_def HasAckElicitingFrames_norm)
  have "handleFrames handleFrame handshakeComplete done log encLevel (p, c) bs
    = ((fl_parser s2, fl_conn s2), if log then Some (fl_frames s2) else None, Inr (isAckEliciting s2))"
    using hc loop [folded s2_def] s2(4) by (simp add: handleFrames_def s0_def Let_def)
  with s2 ap(1,2) show ?thesis
    by (intro exI [of _ bs] exI [of _ "fl_parser s2"]) (auto simp: Let_def)
qed

theorem payload_roundtrip_witness:
  "\<exists>bs p'. appendPacketPayload rev [] \<lparr>pl_streamFrames = [], pl_frames = [PingF, MaxDataF \<lparr>md_MaximumData = 70\<rparr>],
      pl_ack = None, pl_length = 4\<rparr> 3 = Inr bs \<and> length bs = 7
    \<and> handleFrames (\<lambda>(p, c) f. ((p, c @ [f]), None)) (\<lambda>c. True) (\<lambda>c. (c, None)) False Encryption1RTT
        (\<lparr>ackDelayExponent = 3, supportsDatagrams = False, ackFrame = emptyAckFrame\<rparr>, []) bs
      = ((p', [MaxDataF \<lparr>md_MaximumData = 70\<rparr>, PingF]), None, Inr True)"
proof -
  let ?p = "\<lparr>ackDelayExponent = 3, supportsDatagrams = False, ackFrame = emptyAckFrame\<rparr>"
  let ?pl = "\<lparr>pl_streamFrames = [], pl_frames = [PingF, MaxDataF \<lparr>md_MaximumData = 70\<rparr>], pl_ack = None, pl_length = 4\<rparr>"
  have "frame_bytes PingF = [1]" "frame_bytes (MaxDataF \<lparr>md_MaximumData = 70\<rparr>) = [16, 64, 70]" by code_simp+
  then have ok: "payload_ok ?p Encryption1RTT ?pl"
    by (simp add: payload_ok_def payload_frames_def sendable_def peers_def isAllowedAtEncLevel_def varnum_def
        AckDelayExponent_def)
  show ?thesis
    using payload_roundtrip [OF ok, of rev 3 "\<lambda>(p, c) f. ((p, c @ [f]), None)" "\<lambda>c f. c @ [f]" "\<lambda>c. True" "[]"
        "[]" "\<lambda>c. (c, None)" False]
    by (auto simp: payload_frames_def)
qed

lemma handleParsed_failed:
  assumes "handleErr s \<noteq> None" "handleParsed h log s f = (s', x)"
  shows "x = None" "fl_conn s' = fl_conn s" "handleErr s' = handleErr s"
  using assms by (cases log; cases "IsFrameAckEliciting f"; auto simp: handleParsed_def Let_def)+

text \<open>After an error the loop only parses.\<close>

lemma loop_failed:
  "handleErr s \<noteq> None \<Longrightarrow> handleFrames_loop h log encLevel s data = (s', x) \<Longrightarrow>
   fl_conn s' = fl_conn s \<and> handleErr s' = handleErr s"
proof (induction h log encLevel s data rule: handleFrames_loop.induct)
  case (1 h log encLevel s data)
  show ?case
  proof (cases "data = [] \<or> (\<forall>p l f. ParseNext (fl_parser s) data encLevel \<noteq> Inr (p, l, Some f))")
    case True
    with "1.prems"(2) show ?thesis
      by (auto simp: handleFrames_loop.simps [of _ _ _ s data] split: if_splits sum.splits option.splits)
  next
    case False
    then obtain p l f where d: "data \<noteq> []" and n: "ParseNext (fl_parser s) data encLevel = Inr (p, l, Some f)" by blast
    obtain s1 y where s1: "handleParsed h log (s\<lparr>fl_parser := p\<rparr>) f = (s1, y)" by fastforce
    note f = handleParsed_failed [OF _ s1]
    have y: "y = None" "fl_conn s1 = fl_conn s" "handleErr s1 = handleErr s" using f "1.prems"(1) by auto
    then have "handleFrames_loop h log encLevel s1 (drop l data) = (s', x)"
      using "1.prems"(2) d n s1 by (simp add: handleFrames_loop.simps [of _ _ _ s data])
    with "1.IH" [OF d n refl refl refl s1 [symmetric] y(1)] "1.prems"(1) y show ?thesis by simp
  qed
qed

lemma loop_traced:
  "sameRun s t \<Longrightarrow> handleFrames_loop h True encLevel s data = (s', x) \<Longrightarrow>
   handleFrames_loop h False encLevel t data = (t', y) \<Longrightarrow>
   fl_conn s' = fl_conn t' \<and> handleErr t' = None
   \<and> (if y = None then x = None \<and> sameRun s' t' else x \<noteq> None \<or> handleErr s' \<noteq> None)"
proof (induction h "True" encLevel s data arbitrary: t rule: handleFrames_loop.induct)
  case (1 h encLevel s data)
  note st = "1.prems"(1) [unfolded sameRun_def]
  show ?case
  proof (cases "data = [] \<or> (\<forall>p l f. ParseNext (fl_parser s) data encLevel \<noteq> Inr (p, l, Some f))")
    case True
    with "1.prems"(2,3) st show ?thesis
      by (auto simp: sameRun_def handleFrames_loop.simps [of _ _ _ s data] handleFrames_loop.simps [of _ _ _ t data]
          split: if_splits sum.splits option.splits)
  next
    case False
    then obtain p l f where d: "data \<noteq> []" and n: "ParseNext (fl_parser s) data encLevel = Inr (p, l, Some f)" by blast
    obtain q c e where h: "h (p, fl_conn s) f = ((q, c), e)" by (metis prod.collapse)
    define s1 where "s1 = s\<lparr>fl_parser := q, fl_conn := c, isAckEliciting := isAckEliciting s \<or> IsFrameAckEliciting f,
      fl_frames := fl_frames s @ [f]\<rparr>"
    define t1 where "t1 = t\<lparr>fl_parser := q, fl_conn := c, isAckEliciting := isAckEliciting t \<or> IsFrameAckEliciting f\<rparr>"
    have hp: "handleParsed h True (s\<lparr>fl_parser := p\<rparr>) f = (s1\<lparr>handleErr := e\<rparr>, None)"
      "handleParsed h False (t\<lparr>fl_parser := p\<rparr>) f = (t1, e)"
      using st h by (cases s; cases t; cases e; auto simp: handleParsed_def Let_def s1_def t1_def)+
    have ls: "handleFrames_loop h True encLevel (s1\<lparr>handleErr := e\<rparr>) (drop l data) = (s', x)"
      using "1.prems"(2) d n hp(1) by (simp add: handleFrames_loop.simps [of _ _ _ s data])
    have lt: "(case e of Some e' \<Rightarrow> (t1, Some e') | None \<Rightarrow> handleFrames_loop h False encLevel t1 (drop l data)) = (t', y)"
      using "1.prems"(3) d n st hp(2) by (cases e) (auto simp: handleFrames_loop.simps [of _ _ _ t data])
    show ?thesis
    proof (cases e)
      case None
      then have e: "s1\<lparr>handleErr := e\<rparr> = s1" using st by (cases s) (simp add: s1_def)
      have "sameRun s1 t1" using st by (simp add: sameRun_def s1_def t1_def)
      moreover have "handleFrames_loop h True encLevel s1 (drop l data) = (s', x)"
        "handleFrames_loop h False encLevel t1 (drop l data) = (t', y)" using ls lt None e by simp_all
      ultimately show ?thesis by (rule "1.hyps" [OF d n refl refl refl hp(1) [symmetric, unfolded e] refl])
    next
      case (Some e')
      with loop_failed [OF _ ls] lt st show ?thesis by (auto simp: s1_def t1_def)
    qed
  qed
qed

text \<open>
  C31. Tracing does not change what the connection does with a packet: with and without a log the handlers run
  on the same frames and leave the same state, both calls fail or none does, and a call that succeeds has the
  same result.
\<close>

theorem handleFrames_tracing:
  assumes "handleFrames h hc done True encLevel c data = ((p1, c1), l1, r1)"
    "handleFrames h hc done False encLevel c data = ((p2, c2), l2, r2)"
  shows "c1 = c2 \<and> isl r1 = isl r2 \<and> (\<not> isl r1 \<longrightarrow> p1 = p2 \<and> r1 = r2)"
proof -
  let ?s = "\<lparr>fl_parser = fst c, fl_conn = snd c, isAckEliciting = False, fl_frames = [], handleErr = None\<rparr>"
  obtain s x where s: "handleFrames_loop h True encLevel ?s data = (s, x)" by fastforce
  obtain t y where t: "handleFrames_loop h False encLevel ?s data = (t, y)" by fastforce
  have "sameRun ?s ?s" by (simp add: sameRun_def)
  note st = loop_traced [OF this s t]
  show ?thesis
  proof (cases y)
    case None
    with st have "x = None" "sameRun s t" by auto
    with assms s t None show ?thesis
      by (auto simp: handleFrames_def Let_def sameRun_def split: if_splits prod.splits option.splits)
  next
    case (Some e)
    with st assms s t show ?thesis
      by (auto simp: handleFrames_def Let_def split: if_splits option.splits)
  qed
qed

theorem handleFrames_tracing_witness:
  "\<exists>r1 r2. handleFrames (\<lambda>(p, c) f. ((p, c @ [f]), if f = PingF then Some EOF else None)) (\<lambda>c. True) (\<lambda>c. (c, None))
      True Encryption1RTT (NewFrameParser False, []) [0x1e, 1, 1] = ((NewFrameParser False, [HandshakeDoneF, PingF]),
        Some [HandshakeDoneF, PingF, PingF], r1)
    \<and> handleFrames (\<lambda>(p, c) f. ((p, c @ [f]), if f = PingF then Some EOF else None)) (\<lambda>c. True) (\<lambda>c. (c, None))
      False Encryption1RTT (NewFrameParser False, []) [0x1e, 1, 1] = ((NewFrameParser False, [HandshakeDoneF, PingF]), None, r2)
    \<and> isl r1 = isl r2"
proof -
  have 1: "handleFrames (\<lambda>(p, c) f. ((p, c @ [f]), if f = PingF then Some EOF else None)) (\<lambda>c. True) (\<lambda>c. (c, None))
      True Encryption1RTT (NewFrameParser False, []) [0x1e, 1, 1] = ((NewFrameParser False, [HandshakeDoneF, PingF]),
        Some [HandshakeDoneF, PingF, PingF], Inl EOF)" by code_simp
  have 2: "handleFrames (\<lambda>(p, c) f. ((p, c @ [f]), if f = PingF then Some EOF else None)) (\<lambda>c. True) (\<lambda>c. (c, None))
      False Encryption1RTT (NewFrameParser False, []) [0x1e, 1, 1] = ((NewFrameParser False, [HandshakeDoneF, PingF]), None, Inl EOF)"
    by code_simp
  show ?thesis using handleFrames_tracing [OF 1 2] 1 2 by blast
qed

end
