(* ===== verification/Frame_Sorter.thy ===== *)
theory Frame_Sorter
  imports Protocol "HOL-Library.AList" "HOL-Library.Multiset"
begin

text \<open>
  The frame sorter of \<open>frame_sorter.go\<close>, which reassembles a stream from pieces that arrive in any order.
  The linked list of gaps is a list; a pointer into it is an index. While a frame is pushed, a removed
  element stays as \<open>None\<close>, so that indices remain valid. The queue is an association list. A callback is
  an identifier; the operations return the callbacks they call, in order.
\<close>

record byteInterval =
  bi_Start :: ByteCount
  bi_End :: ByteCount

record 'c frameSorterEntry =
  fse_Data :: "byte list"
  fse_DoneCb :: "'c option"

type_synonym 'c entries = "(ByteCount \<times> 'c frameSorterEntry) list"

record 'c frameSorter =
  queue :: "'c entries"
  readPos :: ByteCount
  gaps :: "byteInterval list"

definition errDuplicateStreamData :: error where
  "errDuplicateStreamData = Err ''duplicate stream data''"

definition newFrameSorter :: "'c frameSorter" where
  "newFrameSorter = \<lparr>queue = [], readPos = 0, gaps = [\<lparr>bi_Start = 0, bi_End = MaxByteCount\<rparr>]\<rparr>"

subsection \<open>Finding gaps\<close>

fun findStartGap_loop :: "nat \<Rightarrow> byteInterval list \<Rightarrow> ByteCount \<Rightarrow> (nat \<times> bool) result" where
  "findStartGap_loop i [] offset = Inl (Panic ''no gap found'')"
| "findStartGap_loop i (gap # gs) offset =
     (if offset \<ge> bi_Start gap \<and> offset \<le> bi_End gap then Inr (i, True)
      else if offset < bi_Start gap then Inr (i, False)
      else findStartGap_loop (Suc i) gs offset)"

definition findStartGap :: "'c frameSorter \<Rightarrow> ByteCount \<Rightarrow> (nat \<times> bool) result" where
  "findStartGap s offset = findStartGap_loop 0 (gaps s) offset"

text \<open>The previous element of the first one is nil.\<close>

fun prevGap :: "nat \<Rightarrow> nat option" where
  "prevGap 0 = None"
| "prevGap (Suc i) = Some i"

fun findEndGap_loop :: "nat \<Rightarrow> byteInterval list \<Rightarrow> ByteCount \<Rightarrow> (nat option \<times> bool) result" where
  "findEndGap_loop i [] offset = Inl (Panic ''no gap found'')"
| "findEndGap_loop i (gap # gs) offset =
     (if offset \<ge> bi_Start gap \<and> offset < bi_End gap then Inr (Some i, True)
      else if offset < bi_Start gap then Inr (prevGap i, False)
      else findEndGap_loop (Suc i) gs offset)"

definition findEndGap :: "'c frameSorter \<Rightarrow> nat \<Rightarrow> ByteCount \<Rightarrow> (nat option \<times> bool) result" where
  "findEndGap s startGap offset = findEndGap_loop startGap (drop startGap (gaps s)) offset"

subsection \<open>Deleting entries\<close>

definition callDone :: "'c option \<Rightarrow> 'c list" where
  "callDone cb = (case cb of None \<Rightarrow> [] | Some c \<Rightarrow> [c])"

function deleteConsecutive :: "'c entries \<Rightarrow> ByteCount \<Rightarrow> 'c entries \<times> 'c list" where
  "deleteConsecutive q pos =
     (case map_of q pos of None \<Rightarrow> (q, [])
      | Some oldEntry \<Rightarrow>
          (case deleteConsecutive (AList.delete pos q) (pos + int (length (fse_Data oldEntry))) of
             (q', calls) \<Rightarrow> (q', callDone (fse_DoneCb oldEntry) @ calls)))"
  by pat_completeness auto
termination
proof (relation "measure (\<lambda>(q, pos). length q)")
  show "((AList.delete pos q, pos + int (length (fse_Data e))), (q, pos)) \<in> measure (\<lambda>(q, pos). length q)"
    if "map_of q pos = Some e" for q :: "'c entries" and pos e
    using that by (auto simp: AList.delete_eq dest!: map_of_SomeD intro!: length_filter_less)
qed simp

text \<open>
  The loop of \<open>push\<close> that replaces older, shorter entries from \<open>pos\<close> on: \<open>None\<close> when the data is a
  duplicate, otherwise the queue, the position reached, whether an entry was replaced, whether the new
  frame is cut at the position reached, and the callbacks.
\<close>

function replaceEntries ::
  "'c entries \<Rightarrow> ByteCount \<Rightarrow> ByteCount \<Rightarrow> bool \<Rightarrow> ('c entries \<times> ByteCount \<times> bool \<times> bool \<times> 'c list) option" where
  "replaceEntries q end pos hasReplacedAtLeastOne =
     (case map_of q pos of None \<Rightarrow> Some (q, pos, hasReplacedAtLeastOne, False, [])
      | Some oldEntry \<Rightarrow>
          let oldEntryLen = int (length (fse_Data oldEntry)) in
          if end - pos > oldEntryLen \<or> (hasReplacedAtLeastOne \<and> end - pos = oldEntryLen) then
            (case replaceEntries (AList.delete pos q) end (pos + oldEntryLen) True of
               None \<Rightarrow> None
             | Some (q', pos', r, isCut, calls) \<Rightarrow> Some (q', pos', r, isCut, callDone (fse_DoneCb oldEntry) @ calls))
          else if \<not> hasReplacedAtLeastOne then None
          else Some (q, pos, hasReplacedAtLeastOne, True, []))"
  by pat_completeness auto
termination
proof (relation "measure (\<lambda>(q, end, pos, r). length q)")
  show "((AList.delete pos q, end, pos + l, True), (q, end, pos, r)) \<in> measure (\<lambda>(q, end, pos, r). length q)"
    if "map_of q pos = Some e" for q :: "'c entries" and pos e "end" l r
    using that by (auto simp: AList.delete_eq dest!: map_of_SomeD intro!: length_filter_less)
qed simp

subsection \<open>Pushing data\<close>

text \<open>
  The gaps strictly between the start gap and the end gap are removed, with the entries after each of them.
\<close>

function removeGaps ::
  "byteInterval option list \<Rightarrow> 'c entries \<Rightarrow> nat \<Rightarrow> ByteCount \<Rightarrow> (byteInterval option list \<times> 'c entries \<times> 'c list) result" where
  "removeGaps gs q gap endGapStart =
     (if gap \<ge> length gs then Inl (Panic ''nil pointer dereference'')
      else case gs ! gap of None \<Rightarrow> Inl (Panic ''removed element'')
      | Some g \<Rightarrow>
          if bi_End g < endGapStart then
            let (q, calls) = deleteConsecutive q (bi_End g) in
            bindE (removeGaps (gs[gap := None]) q (gap + 1) endGapStart) (\<lambda>(gs, q, calls').
            Inr (gs, q, calls @ calls'))
          else Inr (gs, q, []))"
  by pat_completeness auto
termination
  by (relation "measure (\<lambda>(gs, q, gap, e). length gs - gap)") auto

text \<open>The variables of \<open>push\<close> once the gaps are found and older entries are replaced.\<close>

record 'c pushState =
  p_data :: "byte list"
  p_start :: ByteCount
  p_end :: ByteCount
  p_doneCb :: "'c option"
  wasCut :: bool
  p_gaps :: "byteInterval option list"
  p_queue :: "'c entries"
  p_calls :: "'c list"

definition slice :: "byte list \<Rightarrow> ByteCount \<Rightarrow> ByteCount \<Rightarrow> byte list result" where
  "slice xs a b = (if 0 \<le> a \<and> a \<le> b \<and> b \<le> int (length xs) then Inr (take (nat (b - a)) (drop (nat a) xs))
     else Inl (Panic ''slice bounds out of range''))"

definition cutStart :: "byteInterval \<Rightarrow> bool \<Rightarrow> bool \<Rightarrow> 'c pushState \<Rightarrow> 'c pushState result" where
  "cutStart startGap startsInGap hasReplaced s =
     (if \<not> startsInGap \<and> \<not> hasReplaced then
        bindE (slice (p_data s) (bi_Start startGap - p_start s) (int (length (p_data s)))) (\<lambda>d.
        Inr (s\<lparr>p_data := d, p_start := bi_Start startGap, wasCut := True\<rparr>))
      else Inr s)"

definition adjustStartGap :: "nat \<Rightarrow> byteInterval \<Rightarrow> bool \<Rightarrow> 'c pushState \<Rightarrow> 'c pushState \<times> bool" where
  "adjustStartGap i startGap hasReplaced s =
     (if p_start s \<le> bi_Start startGap then
        if p_end s \<ge> bi_End startGap then (s\<lparr>p_gaps := (p_gaps s)[i := None]\<rparr>, False)
        else (s\<lparr>p_gaps := (p_gaps s)[i := Some (startGap\<lparr>bi_Start := p_end s\<rparr>)]\<rparr>, False)
      else if \<not> hasReplaced then
        (s\<lparr>p_gaps := (p_gaps s)[i := Some (startGap\<lparr>bi_End := p_start s\<rparr>)]\<rparr>, True)
      else (s, False))"

definition removeBetween :: "nat \<Rightarrow> nat \<Rightarrow> byteInterval \<Rightarrow> byteInterval \<Rightarrow> 'c pushState \<Rightarrow> 'c pushState result" where
  "removeBetween i j startGap endGap s =
     (if i \<noteq> j then
        let (q, calls) = deleteConsecutive (p_queue s) (bi_End startGap) in
        bindE (removeGaps (p_gaps s) q (i + 1) (bi_Start endGap)) (\<lambda>(gs, q, calls').
        Inr (s\<lparr>p_gaps := gs, p_queue := q, p_calls := p_calls s @ calls @ calls'\<rparr>))
      else Inr s)"

definition cutEnd :: "byteInterval \<Rightarrow> bool \<Rightarrow> 'c pushState \<Rightarrow> 'c pushState result" where
  "cutEnd endGap endsInGap s =
     (if \<not> endsInGap \<and> p_start s \<noteq> bi_End endGap \<and> p_end s > bi_End endGap then
        bindE (slice (p_data s) 0 (bi_End endGap - p_start s)) (\<lambda>d.
        Inr (s\<lparr>p_data := d, p_end := bi_End endGap, wasCut := True\<rparr>))
      else Inr s)"

definition adjustEndGap :: "nat \<Rightarrow> nat \<Rightarrow> byteInterval \<Rightarrow> byteInterval \<Rightarrow> bool \<Rightarrow> 'c pushState \<Rightarrow> 'c pushState" where
  "adjustEndGap i j startGap endGap adjusted s =
     (if p_end s = bi_End endGap then
        if i \<noteq> j then s\<lparr>p_gaps := (p_gaps s)[j := None]\<rparr> else s
      else if i = j \<and> adjusted then
        s\<lparr>p_gaps := take (i + 1) (p_gaps s) @ [Some \<lparr>bi_Start = p_end s, bi_End = bi_End startGap\<rparr>]
          @ drop (i + 1) (p_gaps s)\<rparr>
      else if i \<noteq> j then
        s\<lparr>p_gaps := (p_gaps s)[j := map_option (\<lambda>g. g\<lparr>bi_Start := p_end s\<rparr>) (p_gaps s ! j)]\<rparr>
      else s)"

definition releaseSmall :: "'c pushState \<Rightarrow> 'c pushState" where
  "releaseSmall s =
     (if wasCut s \<and> length (p_data s) < MinStreamFrameBufferSize then
        s\<lparr>p_calls := p_calls s @ callDone (p_doneCb s), p_doneCb := None\<rparr>
      else s)"

definition pushCut ::
  "'c frameSorter \<Rightarrow> nat \<Rightarrow> bool \<Rightarrow> nat \<Rightarrow> bool \<Rightarrow> bool \<Rightarrow> 'c pushState \<Rightarrow> ('c frameSorter \<times> 'c list \<times> error option) result" where
  "pushCut s i startsInGap j endsInGap hasReplaced st =
     (let startGap = gaps s ! i; endGap = gaps s ! j in
      bindE (cutStart startGap startsInGap hasReplaced st) (\<lambda>st.
      let (st, adjusted) = adjustStartGap i startGap hasReplaced st in
      bindE (removeBetween i j startGap endGap st) (\<lambda>st.
      bindE (cutEnd endGap endsInGap st) (\<lambda>st.
      let st = releaseSmall (adjustEndGap i j startGap endGap adjusted st);
          gs = List.map_filter id (p_gaps st);
          s = s\<lparr>gaps := gs, queue := p_queue st\<rparr> in
      if int (length gs) > MaxStreamFrameSorterGaps then
        Inr (s, p_calls st, Some (Err ''too many gaps in received data''))
      else
        Inr (s\<lparr>queue := AList.update (p_start st) \<lparr>fse_Data = p_data st, fse_DoneCb = p_doneCb st\<rparr> (p_queue st)\<rparr>,
             p_calls st, None)))))"

definition push ::
  "'c frameSorter \<Rightarrow> byte list \<Rightarrow> ByteCount \<Rightarrow> 'c option \<Rightarrow> ('c frameSorter \<times> 'c list \<times> error option) result" where
  "push s data offset doneCb =
     (let duplicate = Inr (s, [], Some errDuplicateStreamData);
          start = offset; end = offset + int (length data) in
      if data = [] then duplicate
      else if gaps s = [] then Inl (Panic ''nil pointer dereference'')
      else if end \<le> bi_Start (hd (gaps s)) then duplicate
      else
        bindE (findStartGap s start) (\<lambda>(i, startsInGap).
        bindE (findEndGap s i end) (\<lambda>(j, endsInGap).
        case j of None \<Rightarrow> Inl (Panic ''nil pointer dereference'')
        | Some j \<Rightarrow>
            let startGap = gaps s ! i; endGap = gaps s ! j in
            if (i = j \<and> end \<le> bi_Start startGap)
              \<or> (i \<noteq> j \<and> bi_End startGap \<ge> bi_Start endGap \<and> end \<le> bi_Start startGap) then duplicate
            else
              case replaceEntries (queue s) end start False of
                None \<Rightarrow> duplicate
              | Some (q, pos, hasReplaced, isCut, calls) \<Rightarrow>
                  bindE (if isCut then slice data 0 (pos - start) else Inr data) (\<lambda>data.
                  pushCut s i startsInGap j endsInGap hasReplaced
                    \<lparr>p_data = data, p_start = start, p_end = (if isCut then pos else end), p_doneCb = doneCb,
                     wasCut = isCut, p_gaps = map Some (gaps s), p_queue = q, p_calls = calls\<rparr>))))"

definition Push ::
  "'c frameSorter \<Rightarrow> byte list \<Rightarrow> ByteCount \<Rightarrow> 'c option \<Rightarrow> ('c frameSorter \<times> 'c list \<times> error option) result" where
  "Push s data offset doneCb =
     bindE (push s data offset doneCb) (\<lambda>(s, calls, err).
     if err = Some errDuplicateStreamData then Inr (s, calls @ callDone doneCb, None)
     else Inr (s, calls, err))"

subsection \<open>Popping data\<close>

definition fs_Pop :: "'c frameSorter \<Rightarrow> ('c frameSorter \<times> ByteCount \<times> byte list \<times> 'c option) result" where
  "fs_Pop s =
     (case map_of (queue s) (readPos s) of
        None \<Rightarrow> Inr (s, readPos s, [], None)
      | Some entry \<Rightarrow>
          let q = AList.delete (readPos s) (queue s);
              offset = readPos s;
              rp = readPos s + int (length (fse_Data entry));
              s = s\<lparr>queue := q, readPos := rp\<rparr> in
          if gaps s = [] then Inl (Panic ''nil pointer dereference'')
          else if bi_End (hd (gaps s)) \<le> rp then
            Inl (Panic ''frame sorter BUG: read position higher than a gap'')
          else Inr (s, offset, fse_Data entry, fse_DoneCb entry))"

definition HasMoreData :: "'c frameSorter \<Rightarrow> bool" where
  "HasMoreData s \<longleftrightarrow> length (queue s) > 0"

subsection \<open>Invariant and runs\<close>

abbreviation entryLen :: "'c frameSorterEntry \<Rightarrow> ByteCount" where
  "entryLen e \<equiv> int (length (fse_Data e))"

definition gapset :: "byteInterval list \<Rightarrow> ByteCount set" where
  "gapset gs = (\<Union>g \<in> set gs. {bi_Start g ..< bi_End g})"

definition held :: "'c entries \<Rightarrow> ByteCount set" where
  "held q = (\<Union>(k, e) \<in> set q. {k ..< k + entryLen e})"

definition gaps_ok :: "byteInterval list \<Rightarrow> bool" where
  "gaps_ok gs \<longleftrightarrow> gs \<noteq> [] \<and> sorted_wrt (\<lambda>a b. bi_End a < bi_Start b) gs
     \<and> (\<forall>g \<in> set gs. 0 \<le> bi_Start g \<and> bi_Start g < bi_End g) \<and> bi_End (last gs) = MaxByteCount"

definition entries_ok :: "'c entries \<Rightarrow> bool" where
  "entries_ok q \<longleftrightarrow> distinct (map fst q) \<and> (\<forall>(k, e) \<in> set q. fse_Data e \<noteq> [])
     \<and> (\<forall>(k1, e1) \<in> set q. \<forall>(k2, e2) \<in> set q. k1 < k2 \<longrightarrow> k1 + entryLen e1 \<le> k2)"

text \<open>The entries of the queue hold exactly what was received and not read yet.\<close>

definition fs_inv :: "'c frameSorter \<Rightarrow> bool" where
  "fs_inv s \<longleftrightarrow> gaps_ok (gaps s) \<and> entries_ok (queue s) \<and> 0 \<le> readPos s \<and> readPos s \<le> bi_Start (hd (gaps s))
     \<and> held (queue s) = {readPos s ..< MaxByteCount} - gapset (gaps s)"

definition aligned :: "'c entries \<Rightarrow> ByteCount \<Rightarrow> bool" where
  "aligned q p \<longleftrightarrow> (\<forall>(k, e) \<in> set q. \<not> (k < p \<and> p < k + entryLen e))"

definition outside :: "ByteCount \<Rightarrow> ByteCount \<Rightarrow> 'c entries \<Rightarrow> 'c entries" where
  "outside a b q = filter (\<lambda>(k, e). \<not> (a \<le> k \<and> k < b)) q"

definition callbacks :: "'c entries \<Rightarrow> 'c multiset" where
  "callbacks q = mset (concat (map (\<lambda>(k, e). callDone (fse_DoneCb e)) q))"

text \<open>The list of gaps after the part from \<open>a\<close> in \<open>g\<close> to \<open>b\<close> in \<open>h\<close> is filled.\<close>

definition fillGaps :: "byteInterval \<Rightarrow> byteInterval \<Rightarrow> ByteCount \<Rightarrow> ByteCount \<Rightarrow> byteInterval list" where
  "fillGaps g h a b = (if bi_Start g < a then [g\<lparr>bi_End := a\<rparr>] else []) @ (if b < bi_End h then [h\<lparr>bi_Start := b\<rparr>] else [])"

definition finishPush ::
  "'c frameSorter \<Rightarrow> byteInterval list \<Rightarrow> 'c entries \<Rightarrow> ByteCount \<Rightarrow> byte list \<Rightarrow> 'c option \<Rightarrow> 'c list \<Rightarrow>
   ('c frameSorter \<times> 'c list \<times> error option) result" where
  "finishPush s gs q a d cb calls =
     (if int (length gs) > MaxStreamFrameSorterGaps then
        Inr (s\<lparr>gaps := gs, queue := q\<rparr>, calls, Some (Err ''too many gaps in received data''))
      else Inr (s\<lparr>gaps := gs, queue := AList.update a \<lparr>fse_Data = d, fse_DoneCb = cb\<rparr> q\<rparr>, calls, None))"

text \<open>
  What \<open>push\<close> does with new data from \<open>off\<close> to \<open>e\<close>: it keeps the part from \<open>a\<close> to \<open>b\<close>, which holds all of it
  that was missing, fills the gaps there and drops the entries there.
\<close>

definition pushEffect ::
  "'c frameSorter \<Rightarrow> byte list \<Rightarrow> ByteCount \<Rightarrow> 'c option \<Rightarrow> ('c frameSorter \<times> 'c list \<times> error option) result \<Rightarrow> bool" where
  "pushEffect s data off cb r \<longleftrightarrow>
     (\<exists>gs a b cb' calls. r = finishPush s gs (outside a b (queue s)) a (take (nat (b - a)) (drop (nat (a - off)) data)) cb' calls
       \<and> gaps_ok gs \<and> gapset gs = gapset (gaps s) - {a ..< b}
       \<and> off \<le> a \<and> a < b \<and> b \<le> off + int (length data) \<and> readPos s \<le> a
       \<and> {off ..< off + int (length data)} \<inter> gapset (gaps s) \<subseteq> {a ..< b}
       \<and> aligned (queue s) a \<and> aligned (queue s) b
       \<and> mset calls + callbacks (outside a b (queue s)) + mset (callDone cb')
           = callbacks (queue s) + mset (callDone cb))"

definition carries :: "(ByteCount \<Rightarrow> byte) \<Rightarrow> 'c entries \<Rightarrow> bool" where
  "carries S q \<longleftrightarrow> (\<forall>(k, e) \<in> set q. \<forall>n < length (fse_Data e). fse_Data e ! n = S (k + int n))"

text \<open>
  A run of the sorter of a stream \<open>S\<close>: pieces of the stream are pushed, data is popped. \<open>out\<close> is what was
  popped, \<open>recv\<close> the positions that were pushed, \<open>given\<close> the callbacks that were passed in and \<open>called\<close> those
  that were called or handed out with the data.
\<close>

inductive fs_run ::
  "(ByteCount \<Rightarrow> byte) \<Rightarrow> 'c frameSorter \<Rightarrow> byte list \<Rightarrow> ByteCount set \<Rightarrow> 'c multiset \<Rightarrow> 'c multiset \<Rightarrow> bool"
  for S where
  fs_new: "fs_run S newFrameSorter [] {} {#} {#}"
| fs_push: "fs_run S s out recv given called \<Longrightarrow> 0 \<le> off \<Longrightarrow> off + int (length data) < MaxByteCount \<Longrightarrow>
    (\<forall>n < length data. data ! n = S (off + int n)) \<Longrightarrow> Push s data off cb = Inr (s', calls, None) \<Longrightarrow>
    fs_run S s' out (recv \<union> {off ..< off + int (length data)}) (given + mset (callDone cb)) (called + mset calls)"
| fs_pop: "fs_run S s out recv given called \<Longrightarrow> fs_Pop s = Inr (s', off, data, cb) \<Longrightarrow>
    fs_run S s' (out @ data) recv given (called + mset (callDone cb))"

text \<open>Calls of Pop in a row, with the data they hand out.\<close>

inductive fs_pops :: "'c frameSorter \<Rightarrow> byte list \<Rightarrow> 'c frameSorter \<Rightarrow> bool" where
  pops_refl: "fs_pops s [] s"
| pops_step: "fs_Pop s = Inr (s', off, data, cb) \<Longrightarrow> fs_pops s' out s'' \<Longrightarrow> fs_pops s (data @ out) s''"

subsection \<open>Entries\<close>

declare deleteConsecutive.simps [simp del] replaceEntries.simps [simp del] removeGaps.simps [simp del]

lemma entries_lookup: "entries_ok q \<Longrightarrow> (k, e) \<in> set q \<longleftrightarrow> map_of q k = Some e"
  by (auto simp: entries_ok_def dest: map_of_SomeD)

lemma entries_okD:
  "entries_ok q \<Longrightarrow> (k1, e1) \<in> set q \<Longrightarrow> (k2, e2) \<in> set q \<Longrightarrow> k1 < k2 \<Longrightarrow> k1 + entryLen e1 \<le> k2"
  "entries_ok q \<Longrightarrow> (k, e) \<in> set q \<Longrightarrow> fse_Data e \<noteq> []"
  "entries_ok q \<Longrightarrow> (k, e) \<in> set q \<Longrightarrow> (k, e') \<in> set q \<Longrightarrow> e = e'"
  by (auto simp: entries_ok_def dest: map_of_is_SomeI)
    (metis map_of_is_SomeI option.inject)

lemma entryLen_pos: "entries_ok q \<Longrightarrow> (k, e) \<in> set q \<Longrightarrow> 0 < entryLen e"
  using entries_okD(2) [of q k e] by simp

lemma held_iff: "p \<in> held q \<longleftrightarrow> (\<exists>k e. (k, e) \<in> set q \<and> k \<le> p \<and> p < k + entryLen e)"
  unfolding held_def by force

lemma aligned_held: "entries_ok q \<Longrightarrow> p \<in> held q \<Longrightarrow> aligned q p \<Longrightarrow> \<exists>e. map_of q p = Some e"
  by (force simp: held_iff aligned_def entries_lookup le_less)

lemma lookup_held: "map_of q p = Some e \<Longrightarrow> {p ..< p + entryLen e} \<subseteq> held q"
  using map_of_SomeD [of q p e] by (force simp: held_iff)

lemma lookup_aligned: "entries_ok q \<Longrightarrow> map_of q p = Some e \<Longrightarrow> aligned q p \<and> aligned q (p + entryLen e)"
proof -
  assume q: "entries_ok q" and p: "map_of q p = Some e"
  from p have m: "(p, e) \<in> set q" by (rule map_of_SomeD)
  have "\<not> (k < p \<and> p < k + entryLen e')" "\<not> (k < p + entryLen e \<and> p + entryLen e < k + entryLen e')"
    if "(k, e') \<in> set q" for k e'
    using entries_okD(1) [OF q that m] entries_okD(1) [OF q m that] entries_okD(3) [OF q, of p e e'] m that
      entryLen_pos [OF q m]
    by (cases k p rule: linorder_cases; force)+
  then show "aligned q p \<and> aligned q (p + entryLen e)" by (auto simp: aligned_def)
qed

lemma delete_outside:
  assumes "entries_ok q" "map_of q p = Some e"
  shows "AList.delete p q = outside p (p + entryLen e) q"
proof -
  have m: "(p, e) \<in> set q" using assms(2) by (rule map_of_SomeD)
  have "(p \<noteq> k) = (\<not> (p \<le> k \<and> k < p + entryLen e))" if "(k, e') \<in> set q" for k e'
    using entries_okD(1) [OF assms(1) m that] entryLen_pos [OF assms(1) m] by auto
  then show ?thesis unfolding AList.delete_eq outside_def by (intro filter_cong) auto
qed

lemma outside_outside [simp]: "a \<le> b \<Longrightarrow> b \<le> c \<Longrightarrow> outside b c (outside a b q) = outside a c q"
  by (auto simp: outside_def intro!: filter_cong)

lemma set_outside: "set (outside a b q) = {(k, e) \<in> set q. \<not> (a \<le> k \<and> k < b)}"
  by (auto simp: outside_def)

lemma outside_empty [simp]: "outside a a q = q"
  by (simp add: outside_def)

lemma entries_ok_outside [simp]: "entries_ok q \<Longrightarrow> entries_ok (outside a b q)"
  by (auto simp: entries_ok_def set_outside) (auto simp: outside_def distinct_map_filter)

lemma aligned_outside: "aligned q p \<Longrightarrow> aligned (outside a b q) p"
  by (auto simp: aligned_def set_outside)

lemma held_outside:
  assumes "aligned q a" "aligned q b" "entries_ok q"
  shows "held (outside a b q) = held q - {a ..< b}"
proof -
  have "p \<in> held (outside a b q) \<longleftrightarrow> p \<in> held q \<and> \<not> (a \<le> p \<and> p < b)" for p
  proof -
    have "(a \<le> k \<and> k < b) = (a \<le> p \<and> p < b)" if "(k, e) \<in> set q" "k \<le> p" "p < k + entryLen e" for k e
      using assms(1,2) that by (fastforce simp: aligned_def)
    then show ?thesis by (auto simp: held_iff set_outside)
  qed
  then show ?thesis by (intro set_eqI) simp
qed

lemma callbacks_outside: "callbacks q = callbacks (outside a b q) + callbacks (filter (\<lambda>(k, e). a \<le> k \<and> k < b) q)"
  by (induction q) (auto simp: callbacks_def outside_def)

lemma mset_chain: "mset a + x = y \<Longrightarrow> mset b + z = x \<Longrightarrow> mset (a @ b) + z = (y :: 'c multiset)"
  by auto

lemma callbacks_delete:
  "entries_ok q \<Longrightarrow> map_of q p = Some e \<Longrightarrow> mset (callDone (fse_DoneCb e)) + callbacks (AList.delete p q) = callbacks q"
proof (induction q)
  case (Cons x q)
  obtain k d where x: "x = (k, d)" by (cases x)
  have q: "entries_ok q" using Cons.prems(1) by (auto simp: entries_ok_def)
  show ?case
  proof (cases "k = p")
    case True
    with Cons.prems have "d = e" "p \<notin> fst ` set q" by (auto simp: x entries_ok_def)
    then have "AList.delete p q = q" by (force simp: AList.delete_eq filter_id_conv)
    with \<open>d = e\<close> True show ?thesis by (simp add: x callbacks_def)
  next
    case False
    with Cons.prems(2) Cons.IH [OF q] show ?thesis by (auto simp: x callbacks_def)
  qed
qed simp

lemma deleteConsecutive_spec:
  assumes "entries_ok q" "aligned q pos" "{pos ..< r} \<subseteq> held q" "r \<notin> held q" "pos \<le> r"
  shows "\<exists>calls. deleteConsecutive q pos = (outside pos r q, calls) \<and> mset calls + callbacks (outside pos r q) = callbacks q"
  using assms
proof (induction q pos rule: deleteConsecutive.induct)
  case (1 q pos)
  show ?case
  proof (cases "map_of q pos")
    case None
    then have "pos = r" using aligned_held [OF "1.prems"(1) _ "1.prems"(2)] "1.prems"(3,5) by fastforce
    with None show ?thesis by (simp add: deleteConsecutive.simps)
  next
    case (Some e)
    let ?p = "pos + entryLen e" and ?q = "AList.delete pos q"
    have l: "0 < entryLen e" using entryLen_pos [OF "1.prems"(1) map_of_SomeD [OF Some]] .
    have le: "?p \<le> r"
    proof (rule ccontr)
      assume "\<not> ?p \<le> r"
      then have "r \<in> {pos ..< ?p}" using "1.prems"(5) by simp
      with lookup_held [OF Some] "1.prems"(4) show False by blast
    qed
    note al = lookup_aligned [OF "1.prems"(1) Some] and d = delete_outside [OF "1.prems"(1) Some]
    have h: "held ?q = held q - {pos ..< ?p}" unfolding d using al "1.prems"(1) by (intro held_outside) auto
    have "\<exists>calls. deleteConsecutive ?q ?p = (outside ?p r ?q, calls) \<and> mset calls + callbacks (outside ?p r ?q) = callbacks ?q"
    proof (rule "1.IH" [OF Some])
      show "entries_ok ?q" using "1.prems"(1) by (simp add: d)
      show "aligned ?q ?p" unfolding d using al by (intro aligned_outside) simp
      show "{?p ..< r} \<subseteq> held ?q" "r \<notin> held ?q" using "1.prems"(3,4) l unfolding h by auto
    qed (rule le)
    then obtain calls where c: "deleteConsecutive ?q ?p = (outside ?p r ?q, calls)"
      "mset calls + callbacks (outside ?p r ?q) = callbacks ?q" by blast
    have o: "outside ?p r ?q = outside pos r q" using le l by (simp add: d)
    have "mset (callDone (fse_DoneCb e) @ calls) + callbacks (outside pos r q) = callbacks q"
      using c(2) unfolding callbacks_delete [OF "1.prems"(1) Some, symmetric] o by simp
    with Some c(1) show ?thesis by (simp add: deleteConsecutive.simps [of q pos] o)
  qed
qed

lemma replaceEntries_True: "replaceEntries q end pos True \<noteq> None"
proof (induction q "end" pos "True" rule: replaceEntries.induct)
  case (1 q "end" pos)
  then show ?case
    by (cases "map_of q pos") (fastforce simp: replaceEntries.simps [of q "end" pos] Let_def)+
qed

lemma replaceEntries_None:
  assumes "replaceEntries q end pos False = None"
  shows "\<exists>e. map_of q pos = Some e \<and> end - pos \<le> entryLen e"
proof (rule ccontr)
  assume n: "\<not> ?thesis"
  show False
  proof (cases "map_of q pos")
    case None
    with assms show False by (simp add: replaceEntries.simps [of q "end" pos])
  next
    case (Some e)
    with n have "end - pos > entryLen e" by auto
    with Some assms replaceEntries_True [of "AList.delete pos q" "end" "pos + entryLen e"] show False
      by (auto simp: replaceEntries.simps [of q "end" pos] Let_def)
  qed
qed

lemma replaceEntries_Some:
  assumes "replaceEntries q end pos r = Some (q', pos', r', c, calls)" "entries_ok q" "pos \<le> end"
  shows "q' = outside pos pos' q \<and> pos \<le> pos' \<and> pos' \<le> end \<and> {pos ..< pos'} \<subseteq> held q
    \<and> (r' \<longleftrightarrow> r \<or> pos < pos') \<and> (pos < pos' \<longrightarrow> aligned q pos \<and> aligned q pos')
    \<and> (c \<longrightarrow> r' \<and> (\<exists>e. map_of q pos' = Some e \<and> end < pos' + entryLen e)) \<and> (\<not> c \<longrightarrow> map_of q pos' = None)
    \<and> mset calls + callbacks q' = callbacks q"
  using assms
proof (induction q "end" pos r arbitrary: calls rule: replaceEntries.induct)
  case (1 q "end" pos r)
  show ?case
  proof (cases "map_of q pos")
    case None
    with "1.prems" show ?thesis by (auto simp: replaceEntries.simps [of q "end" pos])
  next
    case (Some e)
    let ?p = "pos + entryLen e" and ?q = "AList.delete pos q"
    have l: "0 < entryLen e" using entryLen_pos [OF "1.prems"(2) map_of_SomeD [OF Some]] .
    note al = lookup_aligned [OF "1.prems"(2) Some] and d = delete_outside [OF "1.prems"(2) Some]
    show ?thesis
    proof (cases "end - pos > entryLen e \<or> (r \<and> end - pos = entryLen e)")
      case True
      then obtain calls' where c: "replaceEntries ?q end ?p True = Some (q', pos', r', c, calls')"
        "calls = callDone (fse_DoneCb e) @ calls'"
        using "1.prems"(1) Some by (auto simp: replaceEntries.simps [of q "end" pos] Let_def split: option.splits)
      have ok: "entries_ok ?q" "?p \<le> end" using "1.prems"(2) True by (auto simp: d)
      note IH = "1.IH" [OF Some refl True c(1) ok]
      have h: "held ?q = held q - {pos ..< ?p}" unfolding d using al "1.prems"(2) by (intro held_outside) auto
      have o: "outside ?p pos' ?q = outside pos pos' q" using IH l by (simp add: d)
      have look: "map_of ?q pos' = map_of q pos'" using IH l by (auto simp: AList.delete_conv')
      have alp: "aligned q pos'" if "?p < pos'"
      proof -
        have "\<not> (k < pos' \<and> pos' < k + entryLen e')" if e': "(k, e') \<in> set q" for k e'
        proof (cases "k = pos")
          case True
          with e' have "e' = e" using Some "1.prems"(2) by (simp add: entries_lookup)
          with True \<open>?p < pos'\<close> show ?thesis by simp
        next
          case False
          with e' have "(k, e') \<in> set ?q" by (simp add: AList.delete_eq)
          with IH \<open>?p < pos'\<close> show ?thesis by (auto simp: aligned_def)
        qed
        then show ?thesis by (auto simp: aligned_def)
      qed
      have "{pos ..< pos'} \<subseteq> {pos ..< ?p} \<union> {?p ..< pos'}" by auto
      then have "{pos ..< pos'} \<subseteq> held q" using IH h lookup_held [OF Some] by blast
      moreover have "aligned q pos'" using alp IH al by (cases "?p < pos'") auto
      moreover have "mset calls + callbacks q' = callbacks q"
        using IH unfolding callbacks_delete [OF "1.prems"(2) Some, symmetric] c(2) mset_append add.assoc by metis
      moreover have "pos \<le> pos'" "pos < pos'" using IH l by linarith+
      ultimately show ?thesis using IH al unfolding o look by blast
    next
      case False
      with "1.prems" Some show ?thesis
        by (auto simp: replaceEntries.simps [of q "end" pos] Let_def split: if_splits)
    qed
  qed
qed

subsection \<open>Gaps\<close>

lemma gapset_simps [simp]:
  "gapset [] = {}" "gapset (g # gs) = {bi_Start g ..< bi_End g} \<union> gapset gs" "gapset (gs @ hs) = gapset gs \<union> gapset hs"
  by (auto simp: gapset_def)

lemma gaps_okD:
  assumes "gaps_ok (pre @ g # post)"
  shows "\<forall>p \<in> set pre. bi_End p < bi_Start g" "\<forall>p \<in> set post. bi_End g < bi_Start p"
    "\<forall>p \<in> set pre. \<forall>r \<in> set post. bi_End p < bi_Start r" "bi_Start g < bi_End g" "0 \<le> bi_Start g"
    "\<forall>p \<in> set (pre @ post). 0 \<le> bi_Start p \<and> bi_Start p < bi_End p"
    "sorted_wrt (\<lambda>a b. bi_End a < bi_Start b) pre" "sorted_wrt (\<lambda>a b. bi_End a < bi_Start b) post"
  using assms by (auto simp: gaps_ok_def sorted_wrt_append)

lemma findStartGap_loop_spec:
  assumes "gs \<noteq> []" "x \<le> bi_End (last gs)" "\<forall>g \<in> set gs. bi_Start g < bi_End g"
  shows "\<exists>pre g post. gs = pre @ g # post \<and> (\<forall>p \<in> set pre. bi_End p < x) \<and> x \<le> bi_End g
    \<and> findStartGap_loop n gs x = Inr (n + length pre, bi_Start g \<le> x)"
  using assms
proof (induction gs arbitrary: n)
  case (Cons a gs)
  show ?case
  proof (cases "x \<le> bi_End a")
    case True
    then show ?thesis by (intro exI [of _ "[]"] exI [of _ a] exI [of _ gs]) auto
  next
    case False
    with Cons.prems have "gs \<noteq> []" "x \<le> bi_End (last gs)" by (auto split: if_splits)
    with Cons.IH [of "Suc n"] Cons.prems(3) obtain pre g post where *: "gs = pre @ g # post" "\<forall>p \<in> set pre. bi_End p < x"
      "x \<le> bi_End g" "findStartGap_loop (Suc n) gs x = Inr (Suc n + length pre, bi_Start g \<le> x)" by auto
    moreover have "\<not> x < bi_Start a" using False Cons.prems(3) by auto
    ultimately show ?thesis using False
      by (intro exI [of _ "a # pre"] exI [of _ g] exI [of _ post]) auto
  qed
qed simp

lemma findEndGap_loop_spec:
  assumes "gs \<noteq> []" "y < bi_End (last gs)" "\<forall>g \<in> set gs. bi_Start g < bi_End g"
  shows "\<exists>mid h post. gs = mid @ h # post \<and> (\<forall>m \<in> set mid. bi_End m \<le> y) \<and> y < bi_End h
    \<and> findEndGap_loop n gs y
      = (if bi_Start h \<le> y then Inr (Some (n + length mid), True) else Inr (prevGap (n + length mid), False))"
  using assms
proof (induction gs arbitrary: n)
  case (Cons a gs)
  show ?case
  proof (cases "y < bi_End a")
    case True
    then show ?thesis by (intro exI [of _ "[]"] exI [of _ a] exI [of _ gs]) auto
  next
    case False
    with Cons.prems have "gs \<noteq> []" "y < bi_End (last gs)" by (auto split: if_splits)
    with Cons.IH [of "Suc n"] Cons.prems(3) obtain mid h post where *: "gs = mid @ h # post" "\<forall>m \<in> set mid. bi_End m \<le> y"
      "y < bi_End h" "findEndGap_loop (Suc n) gs y = (if bi_Start h \<le> y then Inr (Some (Suc n + length mid), True)
        else Inr (prevGap (Suc n + length mid), False))" by auto
    moreover have "\<not> y < bi_Start a" using False Cons.prems(3) by auto
    ultimately show ?thesis using False
      by (intro exI [of _ "a # mid"] exI [of _ h] exI [of _ post]) auto
  qed
qed simp

lemma gaps_after: "gaps_ok (pre @ h # post) \<Longrightarrow> y < bi_End h \<Longrightarrow> \<forall>p \<in> set post. y < bi_Start p"
  using gaps_okD(2) [of pre h post] by fastforce

lemma findGaps:
  assumes ok: "gaps_ok gs" and x: "x < y" "bi_Start (hd gs) < y" "y < MaxByteCount"
  obtains (inside) pre g post where "gs = pre @ g # post" "\<forall>p \<in> set pre. bi_End p < x" "y < bi_Start g"
      "findStartGap_loop 0 gs x = Inr (length pre, False)" "pre \<noteq> []"
      "findEndGap_loop (length pre) (g # post) y = Inr (Some (length pre - 1), False)"
    | (one) pre g post where "gs = pre @ g # post" "\<forall>p \<in> set pre. bi_End p < x" "x \<le> bi_End g" "bi_Start g \<le> y"
      "\<forall>p \<in> set post. y < bi_Start p"
      "findStartGap_loop 0 gs x = Inr (length pre, bi_Start g \<le> x)"
      "findEndGap_loop (length pre) (g # post) y = Inr (Some (length pre), y < bi_End g)"
    | (two) pre g mid h post where "gs = pre @ g # mid @ h # post" "\<forall>p \<in> set pre. bi_End p < x" "x \<le> bi_End g"
      "bi_Start h \<le> y" "\<forall>p \<in> set post. y < bi_Start p" "bi_End g < bi_Start h" "\<forall>m \<in> set mid. bi_End m < bi_Start h"
      "findStartGap_loop 0 gs x = Inr (length pre, bi_Start g \<le> x)"
      "findEndGap_loop (length pre) (g # mid @ h # post) y = Inr (Some (length pre + 1 + length mid), y < bi_End h)"
proof -
  have ne: "gs \<noteq> []" "\<forall>g \<in> set gs. bi_Start g < bi_End g" "bi_End (last gs) = MaxByteCount" using ok by (auto simp: gaps_ok_def)
  have "x \<le> bi_End (last gs)" using ne x by simp
  from findStartGap_loop_spec [OF ne(1) this ne(2), of 0] obtain pre g post where
    g: "gs = pre @ g # post" "\<forall>p \<in> set pre. bi_End p < x" "x \<le> bi_End g"
    "findStartGap_loop 0 gs x = Inr (length pre, bi_Start g \<le> x)" by auto
  note gok = gaps_okD [OF ok [unfolded g(1)]]
  have "y < bi_End (last (g # post))" "\<forall>h \<in> set (g # post). bi_Start h < bi_End h" using ne x g(1) by auto
  from findEndGap_loop_spec [OF _ this, of "length pre"] obtain m h post' where
    h: "g # post = m @ h # post'" "\<forall>p \<in> set m. bi_End p \<le> y" "y < bi_End h" and
    e: "findEndGap_loop (length pre) (g # post) y = (if bi_Start h \<le> y then Inr (Some (length pre + length m), True)
      else Inr (prevGap (length pre + length m), False))" by blast
  have gs: "gs = (pre @ m) @ h # post'" using g(1) h(1) by simp
  have after: "\<forall>p \<in> set post'. y < bi_Start p" using gaps_after [of "pre @ m" h post' y] ok gs h(3) by simp
  show thesis
  proof (cases m)
    case Nil
    with h(1) have eq: "h = g" "post' = post" by auto
    show thesis
    proof (cases "bi_Start g \<le> y")
      case True
      with one [of pre g post] g e h(3) after Nil eq show thesis by simp
    next
      case False
      have "pre \<noteq> []" using False x(2) g(1) by (cases pre) auto
      with inside [of pre g post] g e False Nil eq x(1) show thesis by (cases "length pre") auto
    qed
  next
    case (Cons g' mid)
    with h(1) have eq: "g' = g" "post = mid @ h # post'" by auto
    show thesis
    proof (cases "bi_Start h \<le> y")
      case True
      have "bi_End g < bi_Start h" using gok(2) eq by simp
      moreover have "\<forall>p \<in> set mid. bi_End p < bi_Start h" using gaps_okD(1) [of "pre @ m" h post'] ok gs Cons by simp
      ultimately show thesis
        using two [of pre g mid h post'] g e h(3) after Cons eq True by simp
    next
      case False
      show thesis
      proof (cases mid rule: rev_cases)
        case Nil
        with one [of pre g post] g e False h Cons eq after gok(4) show thesis by (auto simp: not_le)
      next
        case (snoc ys k)
        have gs': "gs = pre @ g # ys @ k # (h # post')" using g(1) eq snoc by simp
        have k: "bi_End k \<le> y" "bi_Start k < bi_End k" using h(2) Cons snoc gaps_okD(4) [of "pre @ g # ys" k] ok gs' by auto
        have "bi_End g < bi_Start k" "\<forall>p \<in> set ys. bi_End p < bi_Start k"
          using gaps_okD(1) [of "pre @ g # ys" k "h # post'"] ok gs' by auto
        moreover have "\<forall>p \<in> set (h # post'). y < bi_Start p" using after False by auto
        ultimately show thesis
          using two [of pre g ys k "h # post'"] g e False k gs' Cons snoc eq by auto
      qed
    qed
  qed
qed

lemma gapset_disjoint: "\<forall>p \<in> set gs. bi_End p \<le> a \<or> b \<le> bi_Start p \<Longrightarrow> gapset gs - {a ..< b} = gapset gs"
  by (fastforce simp: gapset_def)

lemma gapset_within: "\<forall>p \<in> set gs. a \<le> bi_Start p \<and> bi_End p \<le> b \<Longrightarrow> gapset gs - {a ..< b} = {}"
  by (fastforce simp: gapset_def)

lemma gapset_fillGaps:
  "bi_Start g < bi_End g \<Longrightarrow> bi_Start h < bi_End h \<Longrightarrow> a < b \<Longrightarrow> a \<le> bi_End g \<Longrightarrow> bi_Start h \<le> b \<Longrightarrow>
   g = h \<or> bi_End g < bi_Start h \<Longrightarrow>
   gapset (fillGaps g h a b) = ({bi_Start g ..< bi_End g} \<union> {bi_Start h ..< bi_End h}) - {a ..< b}"
  by (auto simp: fillGaps_def)

lemma fillGaps_one:
  assumes ok: "gaps_ok (pre @ g # post)" and "\<forall>p \<in> set pre. bi_End p < a" "a \<le> bi_End g" "a < b"
    "bi_Start g \<le> b" "b \<le> bi_End g" "b < MaxByteCount"
  shows "gaps_ok (pre @ fillGaps g g a b @ post) \<and>
    gapset (pre @ fillGaps g g a b @ post) = gapset (pre @ g # post) - {a ..< b}"
proof -
  note o = gaps_okD [OF ok]
  have "gapset pre - {a ..< b} = gapset pre" using assms(2) by (intro gapset_disjoint) auto
  moreover have "gapset post - {a ..< b} = gapset post" using o(2) assms(6) by (intro gapset_disjoint) force
  moreover have "gapset (fillGaps g g a b) = {bi_Start g ..< bi_End g} - {a ..< b}"
    using gapset_fillGaps [of g g a b] o(4) assms by simp
  ultimately have "gapset (pre @ fillGaps g g a b @ post) = gapset (pre @ g # post) - {a ..< b}"
    by (simp add: Un_Diff)
  moreover have "gaps_ok (pre @ fillGaps g g a b @ post)"
    using ok o assms unfolding gaps_ok_def fillGaps_def
    by (cases "post = []") (auto simp: sorted_wrt_append; force)+
  ultimately show ?thesis by simp
qed

lemma fillGaps_two:
  assumes ok: "gaps_ok (pre @ g # mid @ h # post)" and "\<forall>p \<in> set pre. bi_End p < a" "a \<le> bi_End g"
    "bi_Start h \<le> b" "b \<le> bi_End h" "b < MaxByteCount"
  shows "gaps_ok (pre @ fillGaps g h a b @ post) \<and>
    gapset (pre @ fillGaps g h a b @ post) = gapset (pre @ g # mid @ h # post) - {a ..< b}"
proof -
  note o = gaps_okD [OF ok] and o' = gaps_okD [of "pre @ g # mid" h post, simplified, OF ok]
  have gh: "bi_End g < bi_Start h" using o(2) by simp
  then have ab: "a < b" using assms by simp
  have "gapset pre - {a ..< b} = gapset pre" using assms(2) by (intro gapset_disjoint) auto
  moreover have "gapset post - {a ..< b} = gapset post" using o'(2) assms(5) by (intro gapset_disjoint) force
  moreover have "gapset mid - {a ..< b} = {}" using o(2) o'(1) assms(3,4) by (intro gapset_within) force
  moreover have "gapset (fillGaps g h a b) = ({bi_Start g ..< bi_End g} \<union> {bi_Start h ..< bi_End h}) - {a ..< b}"
    using gapset_fillGaps [of g h a b] o(4) o'(4) assms ab gh by simp
  ultimately have "gapset (pre @ fillGaps g h a b @ post) = gapset (pre @ g # mid @ h # post) - {a ..< b}"
    by (simp only: gapset_simps Un_Diff) blast
  moreover have "gaps_ok (pre @ fillGaps g h a b @ post)"
    using ok o o' assms ab gh unfolding gaps_ok_def fillGaps_def
    by (cases "post = []") (auto simp: sorted_wrt_append; force)+
  ultimately show ?thesis by simp
qed

lemma aligned_free: "p - 1 \<notin> held q \<Longrightarrow> aligned q p"
  by (force simp: aligned_def held_iff)

lemma key_held: "entries_ok q \<Longrightarrow> (k, e) \<in> set q \<Longrightarrow> k \<in> held q"
  using entryLen_pos [of q k e] by (force simp: held_iff)

lemma outside_shift:
  assumes "entries_ok q" "{a ..< b} \<inter> held q = {}" "a \<le> b"
  shows "outside a c q = outside b c q" "outside c a q = outside c b q"
proof -
  have "\<not> (a \<le> k \<and> k < b)" if "(k, e) \<in> set q" for k e using key_held [OF assms(1) that] assms(2) by auto
  then show "outside a c q = outside b c q" "outside c a q = outside c b q"
    using assms(3) unfolding outside_def by (force intro!: filter_cong)+
qed

lemma gap_not_held:
  "held q \<inter> gapset gs = {} \<Longrightarrow> g \<in> set gs \<Longrightarrow> bi_Start g \<le> p \<Longrightarrow> p < bi_End g \<Longrightarrow> p \<notin> held q"
  by (force simp: gapset_def)

lemma removeGaps_spec:
  assumes "entries_ok q" "held q \<inter> gapset (mid @ [h]) = {}"
    "{bi_Start (hd (mid @ [h])) ..< bi_Start h} \<subseteq> held q \<union> gapset mid"
    "sorted_wrt (\<lambda>a b. bi_End a < bi_Start b) (mid @ [h])" "\<forall>g \<in> set (mid @ [h]). bi_Start g < bi_End g"
  shows "\<exists>calls. removeGaps (pre @ map Some mid @ Some h # rest) q (length pre) (bi_Start h)
      = Inr (pre @ replicate (length mid) None @ Some h # rest, outside (bi_Start (hd (mid @ [h]))) (bi_Start h) q, calls)
    \<and> mset calls + callbacks (outside (bi_Start (hd (mid @ [h]))) (bi_Start h) q) = callbacks q"
  using assms
proof (induction mid arbitrary: pre q)
  case Nil
  then show ?case by (simp add: removeGaps.simps nth_append)
next
  case (Cons m mid)
  define r where "r = bi_Start (hd (mid @ [h]))"
  have m: "bi_Start m < bi_End m" "bi_End m < bi_Start h" "bi_End m < r" "r \<le> bi_Start h"
    using Cons.prems(4,5) by (cases mid; force simp: r_def)+
  have "hd (mid @ [h]) \<in> set (mid @ [h])" by (cases mid) auto
  then have r: "r \<notin> held q" using gap_not_held [OF Cons.prems(2), of "hd (mid @ [h])" r] Cons.prems(5) by (auto simp: r_def)
  have "p \<notin> gapset (m # mid)" if "bi_End m \<le> p" "p < r" for p
  proof -
    have "r \<le> bi_Start g" if "g \<in> set mid" for g
      using that Cons.prems(4,5) by (cases mid) (force simp: r_def)+
    then show ?thesis using that by (fastforce simp: gapset_def)
  qed
  then have gm: "p \<notin> gapset (m # mid)" if "p \<in> {bi_End m ..< r}" for p using that by simp
  have "{bi_End m ..< r} \<subseteq> held q \<union> gapset (m # mid)" using Cons.prems(3) m by (intro order_trans [OF _ Cons.prems(3)]) auto
  then have reg: "{bi_End m ..< r} \<subseteq> held q" using gm by blast
  have al: "aligned q (bi_End m)" using gap_not_held [OF Cons.prems(2), of m "bi_End m - 1"] m by (intro aligned_free) auto
  have alr: "aligned q r" using r reg aligned_free [of r q] by (auto simp: aligned_def held_iff)
  obtain calls where c: "deleteConsecutive q (bi_End m) = (outside (bi_End m) r q, calls)"
    "mset calls + callbacks (outside (bi_End m) r q) = callbacks q"
    using deleteConsecutive_spec [OF Cons.prems(1) al reg r] m by auto
  define q1 where "q1 = outside (bi_End m) r q"
  have h1: "held q1 = held q - {bi_End m ..< r}" unfolding q1_def using al alr Cons.prems(1) by (intro held_outside)
  have "\<exists>calls. removeGaps ((pre @ [None]) @ map Some mid @ Some h # rest) q1 (length (pre @ [None])) (bi_Start h)
      = Inr ((pre @ [None]) @ replicate (length mid) None @ Some h # rest, outside r (bi_Start h) q1, calls)
    \<and> mset calls + callbacks (outside r (bi_Start h) q1) = callbacks q1"
    unfolding r_def
  proof (rule Cons.IH)
    show "entries_ok q1" using Cons.prems(1) by (simp add: q1_def)
    show "held q1 \<inter> gapset (mid @ [h]) = {}" using Cons.prems(2) h1 by auto
    show "{bi_Start (hd (mid @ [h])) ..< bi_Start h} \<subseteq> held q1 \<union> gapset mid"
      unfolding h1 r_def [symmetric]
    proof
      fix p assume p: "p \<in> {r ..< bi_Start h}"
      then have "p \<in> held q \<union> gapset (m # mid)" using Cons.prems(3) m by (intro subsetD [OF Cons.prems(3)]) auto
      with p m show "p \<in> held q - {bi_End m ..< r} \<union> gapset mid" by auto
    qed
  qed (use Cons.prems(4,5) in auto)
  then obtain calls' where c': "removeGaps ((pre @ [None]) @ map Some mid @ Some h # rest) q1 (Suc (length pre)) (bi_Start h)
      = Inr ((pre @ [None]) @ replicate (length mid) None @ Some h # rest, outside r (bi_Start h) q1, calls')"
    "mset calls' + callbacks (outside r (bi_Start h) q1) = callbacks q1" by auto
  have "{bi_Start m ..< bi_End m} \<inter> held q = {}" using Cons.prems(2) by auto
  then have o: "outside r (bi_Start h) q1 = outside (bi_Start m) (bi_Start h) q"
    using outside_shift(1) [OF Cons.prems(1)] m by (simp add: q1_def)
  have "removeGaps (pre @ map Some (m # mid) @ Some h # rest) q (length pre) (bi_Start h)
    = Inr (pre @ replicate (length (m # mid)) None @ Some h # rest, outside (bi_Start m) (bi_Start h) q, calls @ calls')"
    using c(1) c'(1) m(2) o by (simp add: removeGaps.simps [of "pre @ _"] nth_append list_update_append q1_def)
  moreover have "mset (calls @ calls') + callbacks (outside (bi_Start m) (bi_Start h) q) = callbacks q"
    using c(2) [folded q1_def] c'(2) unfolding o by (rule mset_chain)
  ultimately show ?case by simp
qed

subsection \<open>Pushing\<close>

lemma fs_held: "fs_inv s \<Longrightarrow> p \<in> held (queue s) \<longleftrightarrow> readPos s \<le> p \<and> p < MaxByteCount \<and> p \<notin> gapset (gaps s)"
  by (auto simp: fs_inv_def)

lemma fs_inv_parts: "fs_inv s \<Longrightarrow> gaps_ok (gaps s)" "fs_inv s \<Longrightarrow> entries_ok (queue s)"
  by (auto simp: fs_inv_def)

lemma gap_start_ge:
  assumes "fs_inv s" "g \<in> set (gaps s)"
  shows "readPos s \<le> bi_Start g"
proof -
  obtain h gs where gs: "gaps s = h # gs" using assms by (cases "gaps s") auto
  have "gaps_ok ([] @ h # gs)" using assms(1) gs by (simp add: fs_inv_def)
  note o = gaps_okD [OF this]
  have "bi_Start h \<le> bi_Start g" using assms(2) gs o(2,4) by force
  then show ?thesis using assms(1) gs by (simp add: fs_inv_def)
qed

lemma in_gap: "g \<in> set gs \<Longrightarrow> bi_Start g \<le> p \<Longrightarrow> p < bi_End g \<Longrightarrow> p \<in> gapset gs"
  by (force simp: gapset_def)

lemma not_in_gap:
  assumes "\<forall>p \<in> set pre. bi_End p \<le> x" "\<forall>p \<in> set post. x < bi_Start p"
  shows "x \<notin> gapset (pre @ post)"
  using assms by (fastforce simp: gapset_def)

text \<open>Replacing entries before the next gap at \<open>R\<close>: none is replaced, or all of them.\<close>

lemma replace_region:
  assumes inv: "fs_inv s" and r: "replaceEntries (queue s) e start False = Some (q1, pos, hasRep, c, calls)"
    and R: "start < R" "R \<le> e" "R \<notin> held (queue s)" "{start ..< R} \<inter> gapset (gaps s) = {}" "R \<le> MaxByteCount"
  shows "\<not> c \<and> (pos = start \<and> \<not> hasRep \<and> map_of (queue s) start = None
    \<or> pos = R \<and> hasRep \<and> aligned (queue s) start)"
proof -
  note q = fs_inv_parts(2) [OF inv]
  note f = replaceEntries_Some [OF r q] 
  have f: "start \<le> pos" "{start ..< pos} \<subseteq> held (queue s)" "hasRep = (start < pos)"
    "start < pos \<longrightarrow> aligned (queue s) start \<and> aligned (queue s) pos"
    "c \<longrightarrow> hasRep \<and> (\<exists>x. map_of (queue s) pos = Some x \<and> e < pos + entryLen x)" "\<not> c \<longrightarrow> map_of (queue s) pos = None"
    using f R by auto
  show ?thesis
  proof (cases "start < pos")
    case False
    with f show ?thesis by auto
  next
    case True
    have le: "pos \<le> R"
    proof (rule ccontr)
      assume "\<not> pos \<le> R"
      with R(1) f(1) have "R \<in> {start ..< pos}" by simp
      with f(2) R(3) show False by blast
    qed
    have "start \<in> held (queue s)" using True f(2) by auto
    then have rp: "readPos s \<le> start" using fs_held [OF inv] by simp
    have reg: "p \<in> held (queue s)" if "start \<le> p" "p < R" for p
      using that R(4,5) rp unfolding fs_held [OF inv] by auto
    have fit: "p + entryLen x \<le> R" if "map_of (queue s) p = Some x" "start \<le> p" "p < R" for p x
    proof (rule ccontr)
      assume "\<not> ?thesis"
      with that have "R \<in> {p ..< p + entryLen x}" by simp
      with lookup_held [OF that(1)] R(3) show False by blast
    qed
    have nc: "\<not> c"
    proof
      assume "c"
      with f(5) obtain x where x: "map_of (queue s) pos = Some x" "e < pos + entryLen x" by blast
      show False
      proof (cases "pos = R")
        case True
        with key_held [OF q map_of_SomeD [OF x(1)]] R(3) show False by simp
      next
        case False
        with fit [OF x(1)] f(1) le x(2) R(2) show False by simp
      qed
    qed
    have "pos = R"
    proof (rule ccontr)
      assume "pos \<noteq> R"
      with le f(1) reg [of pos] have "pos \<in> held (queue s)" by simp
      with aligned_held [OF q] f(4,6) True nc show False by fastforce
    qed
    with nc f True show ?thesis by simp
  qed
qed

lemma gaps_End_le:
  assumes "gaps_ok gs" "g \<in> set gs"
  shows "bi_End g \<le> MaxByteCount"
proof -
  obtain hs l where gs: "gs = hs @ [l]" using assms by (cases gs rule: rev_cases) auto
  have l: "bi_End l = MaxByteCount" "bi_Start l < bi_End l" using assms(1) gs by (auto simp: gaps_ok_def)
  show ?thesis using assms gs l gaps_okD(1) [of hs l "[]"] by fastforce
qed

lemma gap_free:
  assumes "fs_inv s" "g \<in> set (gaps s)" "bi_Start g \<le> x" "y \<le> bi_End g"
  shows "{x ..< y} \<inter> held (queue s) = {}"
  using assms in_gap [of g "gaps s"] by (auto simp: fs_held)

lemma push_start:
  assumes inv: "fs_inv s" and gs: "gaps s = pre @ g # post" and pre: "\<forall>p \<in> set pre. bi_End p < start"
    and g: "start < bi_End g" "bi_Start g < e" and e: "start < e"
    and r: "replaceEntries (queue s) e start False = Some (q1, pos, hasRep, c, calls)"
  defines "a \<equiv> if bi_Start g \<le> start \<or> hasRep then start else bi_Start g"
  shows "\<not> c" "q1 = outside a (bi_End g) (queue s)" "aligned (queue s) a" "start \<le> a" "a < bi_End g" "a < e"
    "readPos s \<le> a" "{start ..< a} \<inter> gapset (gaps s) = {}" "bi_Start g < a \<Longrightarrow> \<not> hasRep"
    "mset calls + callbacks q1 = callbacks (queue s)"
proof -
  have gm: "g \<in> set (gaps s)" using gs by simp
  note q = fs_inv_parts(2) [OF inv] and ok = gaps_okD [OF fs_inv_parts(1) [OF inv, unfolded gs]]
  note f = replaceEntries_Some [OF r q less_imp_le [OF e]]
  have sh: "outside x y (queue s) = outside x (bi_End g) (queue s)" if "bi_Start g \<le> y" "y \<le> bi_End g" for x y
    using outside_shift(2) [OF q gap_free [OF inv gm that(1) order_refl]] that by auto
  have se: "outside x (bi_End g) (queue s) = queue s" if "bi_Start g \<le> x" "x \<le> bi_End g" for x
    using outside_shift(1) [OF q gap_free [OF inv gm that(1) order_refl]] that by auto
  have al: "aligned (queue s) x" if "bi_Start g \<le> x" "x < bi_End g" for x
    using gap_free [OF inv gm that(1), of "x + 1"] that by (fastforce simp: aligned_def held_iff)
  have *: "\<not> c \<and> q1 = outside a (bi_End g) (queue s) \<and> aligned (queue s) a \<and> start \<le> a \<and> a < bi_End g \<and> a < e
    \<and> readPos s \<le> a \<and> {start ..< a} \<inter> gapset (gaps s) = {} \<and> (bi_Start g < a \<longrightarrow> \<not> hasRep)"
  proof (cases "bi_Start g \<le> start")
    case True
    then have n: "start \<notin> held (queue s)" using gap_free [OF inv gm True order_refl] g by auto
    then have "pos = start" using f by (cases "start < pos") auto
    then have "\<not> hasRep" "\<not> c" "q1 = queue s" using f by auto
    then show ?thesis
      using True se [of start] al [of start] g e gap_start_ge [OF inv gm] by (simp add: a_def)
  next
    case False
    have R: "bi_Start g \<notin> held (queue s)" using gap_free [OF inv gm order_refl order_refl] ok(4) by auto
    have free: "x \<notin> gapset (gaps s)" if "start \<le> x" "x < bi_Start g" for x
      using that pre ok(2,4) unfolding gs by (intro not_in_gap) (use fs_inv_parts(1) [OF inv] gs in force)+
    have mx: "bi_Start g \<le> MaxByteCount" using gaps_End_le [OF fs_inv_parts(1) [OF inv] gm] ok(4) by simp
    from replace_region [OF inv r _ _ R _ mx] False g free
    consider "\<not> c" "pos = start" "\<not> hasRep" | "\<not> c" "pos = bi_Start g" "hasRep" "aligned (queue s) start" by force
    then show ?thesis
    proof cases
      case 1
      then show ?thesis using f False se [of "bi_Start g"] al [of "bi_Start g"] ok(4) g gap_start_ge [OF inv gm] free
        by (auto simp: a_def)
    next
      case 2
      have "start \<in> held (queue s)" using f 2 False by auto
      then have "readPos s \<le> start" by (simp add: fs_held [OF inv])
      then show ?thesis using f 2 False sh [of "bi_Start g" start] ok(4) g by (auto simp: a_def)
    qed
  qed
  then show "\<not> c" "q1 = outside a (bi_End g) (queue s)" "aligned (queue s) a" "start \<le> a" "a < bi_End g" "a < e"
    "readPos s \<le> a" "{start ..< a} \<inter> gapset (gaps s) = {}" "bi_Start g < a \<Longrightarrow> \<not> hasRep" by auto
  show "mset calls + callbacks q1 = callbacks (queue s)" using f by blast
qed

lemma pushCut_steps:
  assumes "gaps s ! i = g" "gaps s ! j = h" "cutStart g b1 hasRep st = Inr st1" "adjustStartGap i g hasRep st1 = (st2, adj)"
    "removeBetween i j g h st2 = Inr st3" "cutEnd h b2 st3 = Inr st4" "adjustEndGap i j g h adj st4 = st5"
    "List.map_filter id (p_gaps st5) = gs"
  shows "\<exists>cb calls. pushCut s i b1 j b2 hasRep st = finishPush s gs (p_queue st5) (p_start st5) (p_data st5) cb calls
    \<and> mset calls + mset (callDone cb) = mset (p_calls st5) + mset (callDone (p_doneCb st5))"
proof -
  have "p_gaps (releaseSmall st5) = p_gaps st5" "p_queue (releaseSmall st5) = p_queue st5"
    "p_start (releaseSmall st5) = p_start st5" "p_data (releaseSmall st5) = p_data st5"
    "mset (p_calls (releaseSmall st5)) + mset (callDone (p_doneCb (releaseSmall st5)))
       = mset (p_calls st5) + mset (callDone (p_doneCb st5))"
    by (simp_all add: releaseSmall_def callDone_def)
  with assms show ?thesis
    by (intro exI [of _ "p_doneCb (releaseSmall st5)"] exI [of _ "p_calls (releaseSmall st5)"])
      (simp add: pushCut_def Let_def finishPush_def)
qed

lemma cutStart_eq:
  assumes "start < e" "bi_Start g < e" "e = start + int (length data)" "p_data st = data" "p_start st = start"
    and "a = (if bi_Start g \<le> start \<or> hasRep then start else bi_Start g)"
  shows "\<exists>w. cutStart g (bi_Start g \<le> start) hasRep st = Inr (st\<lparr>p_data := drop (nat (a - start)) data, p_start := a, wasCut := w\<rparr>)"
proof (cases "bi_Start g \<le> start \<or> hasRep")
  case True
  then show ?thesis using assms by (intro exI [of _ "wasCut st"]) (cases st; auto simp: cutStart_def)
next
  case False
  then show ?thesis using assms
    by (intro exI [of _ True]) (cases st; auto simp: cutStart_def slice_def)
qed

lemma cutEnd_eq:
  assumes "a < e" "bi_Start h \<le> e" "a \<noteq> bi_End h" "a < bi_End h" "p_data st = d" "p_start st = a" "p_end st = e" "int (length d) = e - a"
    and "b = min e (bi_End h)"
  shows "\<exists>w. cutEnd h (e < bi_End h) st = Inr (st\<lparr>p_data := take (nat (b - a)) d, p_end := b, wasCut := w\<rparr>)"
proof (cases "e > bi_End h")
  case True
  then show ?thesis using assms by (intro exI [of _ True]) (cases st; auto simp: cutEnd_def slice_def)
next
  case False
  then show ?thesis using assms by (intro exI [of _ "wasCut st"]) (cases st; auto simp: cutEnd_def)
qed

lemma map_filter_Some [simp]: "List.map_filter id (map Some xs @ ys) = xs @ List.map_filter id ys"
  "List.map_filter id (map Some xs) = xs"
  by (induction xs) (simp_all add: List.map_filter_simps)

lemma gap_End_upd: "bi_End g = a \<Longrightarrow> g\<lparr>bi_End := a\<rparr> = (g :: byteInterval)"
  by (cases g) simp

lemma push_one:
  assumes inv: "fs_inv s" and gs: "gaps s = pre @ g # post" and pre: "\<forall>p \<in> set pre. bi_End p < start"
    and g: "start < bi_End g" "bi_Start g < e" and e: "start < e" "e = start + int (length data)" "e < MaxByteCount"
    and post: "\<forall>p \<in> set post. e < bi_Start p"
    and r: "replaceEntries (queue s) e start False = Some (q1, pos, hasRep, c, calls)"
  shows "\<not> c \<and> pushEffect s data start cb (pushCut s (length pre) (bi_Start g \<le> start) (length pre) (e < bi_End g) hasRep
    \<lparr>p_data = data, p_start = start, p_end = e, p_doneCb = cb, wasCut = c, p_gaps = map Some (gaps s), p_queue = q1, p_calls = calls\<rparr>)"
proof -
  define a where "a = (if bi_Start g \<le> start \<or> hasRep then start else bi_Start g)"
  define b where "b = min e (bi_End g)"
  note S = push_start [OF inv gs pre g e(1) r, folded a_def]
  have gm: "g \<in> set (gaps s)" using gs by simp
  note q = fs_inv_parts(2) [OF inv] and ok = gaps_okD [OF fs_inv_parts(1) [OF inv, unfolded gs]]
  have ab: "a < b" "b \<le> e" "b \<le> bi_End g" "bi_Start g < b" using S(5,6) ok(4) g by (auto simp: b_def)
  let ?st0 = "\<lparr>p_data = data, p_start = start, p_end = e, p_doneCb = cb, wasCut = c, p_gaps = map Some (gaps s), p_queue = q1, p_calls = calls\<rparr>"
  obtain w1 where st1: "cutStart g (bi_Start g \<le> start) hasRep ?st0
    = Inr (?st0\<lparr>p_data := drop (nat (a - start)) data, p_start := a, wasCut := w1\<rparr>)" (is "_ = Inr ?st1")
    using cutStart_eq [OF e(1) g(2) e(2), of ?st0 a hasRep] a_def by auto
  define X where "X = (if bi_Start g < a then Some (g\<lparr>bi_End := a\<rparr>) else if e \<ge> bi_End g then None else Some (g\<lparr>bi_Start := e\<rparr>))"
  define st2 where "st2 = ?st1\<lparr>p_gaps := map Some pre @ X # map Some post\<rparr>"
  have st2: "adjustStartGap (length pre) g hasRep ?st1 = (st2, bi_Start g < a)"
    using S(9) by (simp add: adjustStartGap_def st2_def X_def gs list_update_append)
  have st3: "removeBetween (length pre) (length pre) g g st2 = Inr st2" by (simp add: removeBetween_def)
  have len: "int (length (drop (nat (a - start)) data)) = e - a" using S(4,6) e by simp
  obtain w2 where st4: "cutEnd g (e < bi_End g) st2
    = Inr (st2\<lparr>p_data := take (nat (b - a)) (drop (nat (a - start)) data), p_end := b, wasCut := w2\<rparr>)" (is "_ = Inr ?st4")
    using cutEnd_eq [OF S(6), of g st2 "drop (nat (a - start)) data" b] g S(5) len by (auto simp: st2_def b_def)
  define st5 where "st5 = adjustEndGap (length pre) (length pre) g g (bi_Start g < a) ?st4"
  have f5: "p_queue st5 = q1" "p_start st5 = a" "p_data st5 = take (nat (b - a)) (drop (nat (a - start)) data)"
    "p_calls st5 = calls" "p_doneCb st5 = cb"
    by (simp_all add: st5_def adjustEndGap_def st2_def)
  have g5: "List.map_filter id (p_gaps st5) = pre @ fillGaps g g a b @ post"
    by (auto simp: st5_def adjustEndGap_def st2_def X_def fillGaps_def b_def List.map_filter_simps min_def gs)
  obtain cb' calls' where res: "pushCut s (length pre) (bi_Start g \<le> start) (length pre) (e < bi_End g) hasRep ?st0
      = finishPush s (pre @ fillGaps g g a b @ post) q1 a (take (nat (b - a)) (drop (nat (a - start)) data)) cb' calls'"
    "mset calls' + mset (callDone cb') = mset calls + mset (callDone cb)"
    using pushCut_steps [OF _ _ st1 st2 st3 st4 st5_def [symmetric] g5, of s] f5 gs by auto
  have q1: "q1 = outside a b (queue s)"
  proof -
    have "{b ..< bi_End g} \<inter> held (queue s) = {}" using gap_free [OF inv gm, of b] ab(4) by auto
    from outside_shift(2) [OF q this ab(3)] show ?thesis using S(2) by simp
  qed
  have alb: "aligned (queue s) b" using in_gap [OF gm, of "b - 1"] ab by (intro aligned_free) (simp add: fs_held [OF inv])
  have "\<forall>p \<in> set pre. bi_End p < a" using pre S(4) by auto
  note fill = fillGaps_one [OF fs_inv_parts(1) [OF inv, unfolded gs] this less_imp_le [OF S(5)] ab(1) less_imp_le [OF ab(4)] ab(3)]
  have sub: "{start ..< e} \<inter> gapset (gaps s) \<subseteq> {a ..< b}"
  proof
    fix p assume p: "p \<in> {start ..< e} \<inter> gapset (gaps s)"
    have "a \<le> p" using p S(8) by (auto simp: disjoint_iff not_le [symmetric])
    moreover have "p < b"
    proof (rule ccontr)
      assume "\<not> p < b"
      with p have "bi_End g \<le> p" by (auto simp: b_def)
      then have "p \<notin> gapset ((pre @ [g]) @ post)" using ok(1,4) post p fs_inv_parts(1) [OF inv] gs
        by (intro not_in_gap) force+
      with p gs show False by simp
    qed
    ultimately show "p \<in> {a ..< b}" by simp
  qed
  have cbs: "mset calls' + callbacks q1 + mset (callDone cb') = callbacks (queue s) + mset (callDone cb)"
    using res(2) S(10) by (metis add.assoc add.commute)
  show ?thesis
    unfolding pushEffect_def
    using S(1) res(1) fill ab e S(3,4,7) sub alb cbs gs
    by (intro conjI exI [of _ "pre @ fillGaps g g a b @ post"] exI [of _ a] exI [of _ b] exI [of _ cb'] exI [of _ calls'])
      (auto simp: q1)
qed

lemma hd_gap:
  assumes "gaps_ok (pre @ g # mid @ h # post)"
  defines "n \<equiv> hd (mid @ [h])"
  shows "n \<in> set (mid @ [h])" "bi_End g < bi_Start n" "bi_Start n \<le> bi_Start h"
    "\<forall>m \<in> set (mid @ h # post). bi_Start n \<le> bi_Start m"
proof -
  note o = gaps_okD [OF assms(1)]
  show n: "n \<in> set (mid @ [h])" by (cases mid) (auto simp: n_def)
  then show "bi_End g < bi_Start n" using o(2) by auto
  show le: "\<forall>m \<in> set (mid @ h # post). bi_Start n \<le> bi_Start m"
    using o(6,8) by (cases mid) (force simp: n_def)+
  then show "bi_Start n \<le> bi_Start h" by simp
qed

lemma region_after:
  assumes inv: "fs_inv s" and gs: "gaps s = pre @ g # mid @ h # post" and n: "n = hd (mid @ [h])"
  shows "{bi_End g ..< bi_Start n} \<subseteq> held (queue s)" "bi_Start n \<notin> held (queue s)" "aligned (queue s) (bi_End g)"
    "aligned (queue s) (bi_Start n)" "{bi_End g ..< bi_Start n} \<inter> gapset (gaps s) = {}" "bi_Start n < MaxByteCount"
proof -
  have gok: "gaps_ok (pre @ g # mid @ h # post)" using inv gs by (simp add: fs_inv_def)
  note o = gaps_okD [OF gok] and hn = hd_gap [OF gok, folded n]
  have gm: "g \<in> set (gaps s)" "n \<in> set (gaps s)" using gs hn(1) by auto
  have nl: "bi_Start n < bi_End n" using o(6) hn(1) by auto
  have free: "p \<notin> gapset (gaps s)" if "p \<in> {bi_End g ..< bi_Start n}" for p
  proof -
    have "p \<notin> gapset ((pre @ [g]) @ mid @ h # post)"
      using that o(1,4) hn(4) gok by (intro not_in_gap) force+
    then show ?thesis using gs by simp
  qed
  show "bi_Start n < MaxByteCount" using gaps_End_le [OF fs_inv_parts(1) [OF inv] gm(2)] nl by simp
  then show "{bi_End g ..< bi_Start n} \<subseteq> held (queue s)"
    using free gap_start_ge [OF inv gm(1)] o(4) by (auto simp: fs_held [OF inv])
  show "bi_Start n \<notin> held (queue s)" using in_gap [OF gm(2) order_refl nl] by (simp add: fs_held [OF inv])
  then show "aligned (queue s) (bi_Start n)" by (force simp: aligned_def held_iff)
  show "aligned (queue s) (bi_End g)" using in_gap [OF gm(1), of "bi_End g - 1"] o(4)
    by (intro aligned_free) (simp add: fs_held [OF inv])
  show "{bi_End g ..< bi_Start n} \<inter> gapset (gaps s) = {}" using free by auto
qed

lemma push_start_two:
  assumes inv: "fs_inv s" and gs: "gaps s = pre @ g # mid @ h # post" and pre: "\<forall>p \<in> set pre. bi_End p < start"
    and g: "start \<le> bi_End g" "bi_Start h \<le> e"
    and r: "replaceEntries (queue s) e start False = Some (q1, pos, hasRep, c, calls)"
  defines "a \<equiv> if bi_Start g \<le> start \<or> hasRep then start else bi_Start g" and "n \<equiv> hd (mid @ [h])"
  shows "\<not> c" "aligned (queue s) a" "start \<le> a" "a \<le> bi_End g" "readPos s \<le> a" "{start ..< a} \<inter> gapset (gaps s) = {}"
    "bi_Start g < a \<Longrightarrow> \<not> hasRep \<or> a = bi_End g"
    "\<exists>calls'. deleteConsecutive q1 (bi_End g) = (outside a (bi_Start n) (queue s), calls')
      \<and> mset (calls @ calls') + callbacks (outside a (bi_Start n) (queue s)) = callbacks (queue s)"
proof -
  have gok: "gaps_ok (pre @ g # mid @ h # post)" using inv gs by (simp add: fs_inv_def)
  note o = gaps_okD [OF gok] and hn = hd_gap [OF gok, folded n_def] and ra = region_after [OF inv gs, folded n_def, OF refl]
  have gm: "g \<in> set (gaps s)" using gs by simp
  note q = fs_inv_parts(2) [OF inv]
  have e: "start < e" "bi_Start g < e" using g hn(2,3) o(4) by auto
  have "\<not> c \<and> aligned (queue s) a \<and> start \<le> a \<and> a \<le> bi_End g \<and> readPos s \<le> a \<and> {start ..< a} \<inter> gapset (gaps s) = {}
    \<and> (bi_Start g < a \<longrightarrow> \<not> hasRep \<or> a = bi_End g)
    \<and> (\<exists>calls'. deleteConsecutive q1 (bi_End g) = (outside a (bi_Start n) (queue s), calls')
      \<and> mset (calls @ calls') + callbacks (outside a (bi_Start n) (queue s)) = callbacks (queue s))"
  proof (cases "start < bi_End g")
    case True
    note S = push_start [OF inv gs pre True e(2,1) r, folded a_def]
    have ok1: "entries_ok q1" using S(2) q by simp
    have "aligned (queue s) (bi_End g)" by (rule ra(3))
    then have h1: "held q1 = held (queue s) - {a ..< bi_End g}" unfolding S(2) using S(3) q by (intro held_outside)
    have "{bi_End g ..< bi_Start n} \<subseteq> held q1" "bi_Start n \<notin> held q1" using ra(1,2) h1 by auto
    moreover have "aligned q1 (bi_End g)" unfolding S(2) using ra(3) by (rule aligned_outside)
    ultimately obtain calls' where d: "deleteConsecutive q1 (bi_End g) = (outside (bi_End g) (bi_Start n) q1, calls')"
      "mset calls' + callbacks (outside (bi_End g) (bi_Start n) q1) = callbacks q1"
      using deleteConsecutive_spec [OF ok1] hn(2) by (metis less_imp_le)
    have oo: "outside (bi_End g) (bi_Start n) q1 = outside a (bi_Start n) (queue s)" using S(2,5) hn(2) by simp
    have "mset (calls @ calls') + callbacks (outside a (bi_Start n) (queue s)) = callbacks (queue s)"
      using S(10) d(2) unfolding oo by (rule mset_chain)
    with S d(1) oo show ?thesis by auto
  next
    case False
    then have st: "start = bi_End g" using g by simp
    have mx: "bi_Start n \<le> MaxByteCount" using ra(6) by simp
    have "bi_End g \<in> {bi_End g ..< bi_Start n}" using hn(2) by simp
    then have held: "bi_End g \<in> held (queue s)" using ra(1) by blast
    then obtain x where x: "map_of (queue s) (bi_End g) = Some x" using aligned_held [OF q _ ra(3)] by blast
    have P: "\<not> c" "pos = bi_Start n" "hasRep"
      using replace_region [OF inv r, of "bi_Start n"] hn(2,3) g(2) ra(2,5) mx x unfolding st by auto
    note f = replaceEntries_Some [OF r q less_imp_le [OF e(1)]]
    have q1: "q1 = outside start (bi_Start n) (queue s)" using f P by simp
    have "(k, x) \<notin> set q1" if "k = bi_End g" for k x using that hn(2) unfolding q1 st by (simp add: set_outside)
    then have "map_of q1 (bi_End g) = None" by (metis map_of_SomeD not_None_eq)
    then have "deleteConsecutive q1 (bi_End g) = (q1, [])" by (simp add: deleteConsecutive.simps)
    moreover have "readPos s \<le> start" using held fs_held [OF inv] st by simp
    moreover have "mset (calls @ []) + callbacks q1 = callbacks (queue s)" unfolding append_Nil2 using f by blast
    ultimately show ?thesis using P q1 ra(3) by (auto simp: a_def st)
  qed
  then show "\<not> c" "aligned (queue s) a" "start \<le> a" "a \<le> bi_End g" "readPos s \<le> a" "{start ..< a} \<inter> gapset (gaps s) = {}"
    "bi_Start g < a \<Longrightarrow> \<not> hasRep \<or> a = bi_End g"
    "\<exists>calls'. deleteConsecutive q1 (bi_End g) = (outside a (bi_Start n) (queue s), calls')
      \<and> mset (calls @ calls') + callbacks (outside a (bi_Start n) (queue s)) = callbacks (queue s)" by blast+
qed

lemma push_two:
  assumes inv: "fs_inv s" and gs: "gaps s = pre @ g # mid @ h # post" and pre: "\<forall>p \<in> set pre. bi_End p < start"
    and g: "start \<le> bi_End g" "bi_Start h \<le> e" and e: "e = start + int (length data)" "e < MaxByteCount"
    and post: "\<forall>p \<in> set post. e < bi_Start p"
    and r: "replaceEntries (queue s) e start False = Some (q1, pos, hasRep, c, calls)"
  shows "\<not> c \<and> pushEffect s data start cb (pushCut s (length pre) (bi_Start g \<le> start) (length pre + 1 + length mid) (e < bi_End h) hasRep
    \<lparr>p_data = data, p_start = start, p_end = e, p_doneCb = cb, wasCut = c, p_gaps = map Some (gaps s), p_queue = q1, p_calls = calls\<rparr>)"
proof -
  define a where "a = (if bi_Start g \<le> start \<or> hasRep then start else bi_Start g)"
  define b where "b = min e (bi_End h)"
  define n where "n = hd (mid @ [h])"
  have gok: "gaps_ok (pre @ g # mid @ h # post)" using inv gs by (simp add: fs_inv_def)
  note o = gaps_okD [OF gok] and hn = hd_gap [OF gok, folded n_def] and ra = region_after [OF inv gs n_def]
  note o' = gaps_okD [of "pre @ g # mid" h post, simplified, OF gok]
  note S = push_start_two [OF inv gs pre g r, folded a_def n_def]
  have gm: "g \<in> set (gaps s)" "h \<in> set (gaps s)" using gs by auto
  note q = fs_inv_parts(2) [OF inv]
  have ab: "a < bi_Start h" "a < e" "b \<le> e" "b \<le> bi_End h" "bi_Start h \<le> b" using S(4) hn(2,3) o'(4) g by (auto simp: b_def)
  have se: "start < e" "bi_Start g < e" using g hn(2,3) o(4) by auto
  let ?st0 = "\<lparr>p_data = data, p_start = start, p_end = e, p_doneCb = cb, wasCut = c, p_gaps = map Some (gaps s), p_queue = q1, p_calls = calls\<rparr>"
  obtain w1 where st1: "cutStart g (bi_Start g \<le> start) hasRep ?st0
    = Inr (?st0\<lparr>p_data := drop (nat (a - start)) data, p_start := a, wasCut := w1\<rparr>)" (is "_ = Inr ?st1")
    using cutStart_eq [OF se e(1), of ?st0 a hasRep] a_def by auto
  define X where "X = (if bi_Start g < a then Some (g\<lparr>bi_End := a\<rparr>) else None)"
  define st2 where "st2 = ?st1\<lparr>p_gaps := (map Some pre @ [X]) @ map Some mid @ Some h # map Some post\<rparr>"
  define adj where "adj = (bi_Start g < a \<and> \<not> hasRep)"
  have ge: "bi_End g \<le> e" using hn(2,3) g by simp
  have st2: "adjustStartGap (length pre) g hasRep ?st1 = (st2, adj)"
    using S(7) ge by (auto simp: adjustStartGap_def st2_def X_def adj_def gs list_update_append gap_End_upd)
  obtain calls1 where d: "deleteConsecutive q1 (bi_End g) = (outside a (bi_Start n) (queue s), calls1)"
    "mset (calls @ calls1) + callbacks (outside a (bi_Start n) (queue s)) = callbacks (queue s)" using S(8) by blast
  define q2 where "q2 = outside a (bi_Start n) (queue s)"
  have h2: "held q2 = held (queue s) - {a ..< bi_Start n}" unfolding q2_def using S(2) ra(4) q by (intro held_outside)
  have mg: "gapset (mid @ [h]) \<subseteq> gapset (gaps s)" by (auto simp: gs)
  have "held (queue s) \<inter> gapset (gaps s) = {}" using fs_held [OF inv] by auto
  then have dis: "held q2 \<inter> gapset (mid @ [h]) = {}" using h2 mg by blast
  have reg: "{bi_Start n ..< bi_Start h} \<subseteq> held q2 \<union> gapset mid"
  proof
    fix p assume p: "p \<in> {bi_Start n ..< bi_Start h}"
    have "p \<notin> gapset ((pre @ [g]) @ h # post)" using p o(1,4) hn(2) o'(2,4) by (fastforce simp: gapset_def)
    moreover have "readPos s \<le> p" using gap_start_ge [OF inv gm(1)] o(4) hn(2) p by auto
    moreover have "p < MaxByteCount" using p g e by auto
    ultimately show "p \<in> held q2 \<union> gapset mid" using p by (auto simp: h2 fs_held [OF inv] gs)
  qed
  have "entries_ok q2" using q by (simp add: q2_def)
  from removeGaps_spec [OF this dis reg [unfolded n_def], of "map Some pre @ [X]" "map Some post"] o(6,8)
  obtain calls2 where rg: "removeGaps ((map Some pre @ [X]) @ map Some mid @ Some h # map Some post) q2 (length pre + 1) (bi_Start h)
      = Inr ((map Some pre @ [X]) @ replicate (length mid) None @ Some h # map Some post, outside (bi_Start n) (bi_Start h) q2, calls2)"
    "mset calls2 + callbacks (outside (bi_Start n) (bi_Start h) q2) = callbacks q2"
    by (auto simp: n_def [symmetric] sorted_wrt_append)
  have qb: "outside (bi_Start n) (bi_Start h) q2 = outside a b (queue s)"
  proof -
    have "{bi_Start h ..< b} \<inter> held (queue s) = {}" using gap_free [OF inv gm(2) order_refl ab(4)] .
    from outside_shift(2) [OF q this ab(5)] show ?thesis using S(4) hn(2,3) by (simp add: q2_def)
  qed
  define st3 where "st3 = st2\<lparr>p_gaps := (map Some pre @ [X]) @ replicate (length mid) None @ Some h # map Some post,
    p_queue := outside a b (queue s), p_calls := calls @ calls1 @ calls2\<rparr>"
  have st3: "removeBetween (length pre) (length pre + 1 + length mid) g h st2 = Inr st3"
    using d(1) rg(1) qb by (simp add: removeBetween_def st2_def st3_def q2_def)
  have len: "int (length (drop (nat (a - start)) data)) = e - a" using S(3) ab(2) e by simp
  obtain w2 where st4: "cutEnd h (e < bi_End h) st3
    = Inr (st3\<lparr>p_data := take (nat (b - a)) (drop (nat (a - start)) data), p_end := b, wasCut := w2\<rparr>)" (is "_ = Inr ?st4")
    using cutEnd_eq [OF ab(2) g(2), of st3 "drop (nat (a - start)) data" b] ab(1) o'(4) len
    by (auto simp: st3_def st2_def b_def)
  define st5 where "st5 = adjustEndGap (length pre) (length pre + 1 + length mid) g h adj ?st4"
  have f5: "p_queue st5 = outside a b (queue s)" "p_start st5 = a" "p_data st5 = take (nat (b - a)) (drop (nat (a - start)) data)"
    "p_calls st5 = calls @ calls1 @ calls2" "p_doneCb st5 = cb"
    by (simp_all add: st5_def adjustEndGap_def st3_def st2_def)
  have none: "List.map_filter id (replicate k None @ ys) = List.map_filter id ys" for k and ys :: "byteInterval option list"
    by (induction k) (simp_all add: List.map_filter_simps)
  have g5: "List.map_filter id (p_gaps st5) = pre @ fillGaps g h a b @ post"
    by (auto simp: st5_def adjustEndGap_def st3_def st2_def X_def fillGaps_def b_def List.map_filter_simps min_def
        nth_append list_update_append none)
  obtain cb' calls' where res: "pushCut s (length pre) (bi_Start g \<le> start) (length pre + 1 + length mid) (e < bi_End h) hasRep ?st0
      = finishPush s (pre @ fillGaps g h a b @ post) (outside a b (queue s)) a (take (nat (b - a)) (drop (nat (a - start)) data)) cb' calls'"
    "mset calls' + mset (callDone cb') = mset (calls @ calls1 @ calls2) + mset (callDone cb)"
    using pushCut_steps [OF _ _ st1 st2 st3 st4 st5_def [symmetric] g5, of s] f5 gs by (auto simp: nth_append)
  have alb: "aligned (queue s) b"
  proof (cases "b < bi_End h")
    case True
    then have "b \<notin> held (queue s)" using in_gap [OF gm(2), of b] ab(5) by (simp add: fs_held [OF inv])
    then show ?thesis by (force simp: aligned_def held_iff)
  next
    case False
    then show ?thesis using in_gap [OF gm(2), of "b - 1"] ab(4) o'(4) by (intro aligned_free) (simp add: fs_held [OF inv])
  qed
  have "\<forall>p \<in> set pre. bi_End p < a" using pre S(3) by auto
  note fill = fillGaps_two [OF gok this S(4) ab(5,4)]
  have sub: "{start ..< e} \<inter> gapset (gaps s) \<subseteq> {a ..< b}"
  proof
    fix p assume p: "p \<in> {start ..< e} \<inter> gapset (gaps s)"
    have "a \<le> p" using p S(6) by (auto simp: disjoint_iff not_le [symmetric])
    moreover have "p < b"
    proof (rule ccontr)
      assume "\<not> p < b"
      with p have "bi_End h \<le> p" by (auto simp: b_def)
      then have "p \<notin> gapset ((pre @ g # mid @ [h]) @ post)" using o'(1,4) post p
        by (intro not_in_gap) force+
      with p gs show False by simp
    qed
    ultimately show "p \<in> {a ..< b}" by simp
  qed
  have "mset (calls @ calls1 @ calls2) + callbacks (outside a b (queue s)) = callbacks (queue s)"
    using mset_chain [OF d(2) [folded q2_def] rg(2)] qb by simp
  then have cbs: "mset calls' + callbacks (outside a b (queue s)) + mset (callDone cb') = callbacks (queue s) + mset (callDone cb)"
    using res(2) by (metis add.assoc add.commute)
  show ?thesis
    unfolding pushEffect_def
    using S(1) res(1) fill ab e S(2,3,5) sub alb cbs gs
    by (intro conjI exI [of _ "pre @ fillGaps g h a b @ post"] exI [of _ a] exI [of _ b] exI [of _ cb'] exI [of _ calls']) auto
qed

lemma push_touch:
  assumes inv: "fs_inv s" and gs: "gaps s = pre @ g # post" and start: "start = bi_End g"
    and e: "start < e" "e = start + int (length data)" "e < MaxByteCount" and post: "\<forall>p \<in> set post. e < bi_Start p"
    and r: "replaceEntries (queue s) e start False = Some (q1, pos, hasRep, c, calls)"
  shows "c \<and> slice data 0 (pos - start) = Inr (take (nat (pos - start)) data)
    \<and> pushEffect s data start cb (pushCut s (length pre) (bi_Start g \<le> start) (length pre) (e < bi_End g) hasRep
      \<lparr>p_data = take (nat (pos - start)) data, p_start = start, p_end = pos, p_doneCb = cb, wasCut = c,
       p_gaps = map Some (gaps s), p_queue = q1, p_calls = calls\<rparr>)"
proof -
  have gok: "gaps_ok (pre @ g # post)" using inv gs by (simp add: fs_inv_def)
  note o = gaps_okD [OF gok] and q = fs_inv_parts(2) [OF inv]
  have gm: "g \<in> set (gaps s)" using gs by simp
  note f = replaceEntries_Some [OF r q less_imp_le [OF e(1)]]
  have free: "p \<notin> gapset (gaps s)" if "start \<le> p" "p \<le> e" for p
  proof -
    have "p \<notin> gapset ((pre @ [g]) @ post)" using that o(1,4) post start by (intro not_in_gap) force+
    then show ?thesis using gs by simp
  qed
  have reg: "p \<in> held (queue s)" if "start \<le> p" "p \<le> e" for p
    using that free gap_start_ge [OF inv gm] o(4) start e(3) by (auto simp: fs_held [OF inv])
  have als: "aligned (queue s) start" using in_gap [OF gm, of "start - 1"] o(4) start
    by (intro aligned_free) (simp add: fs_held [OF inv])
  then obtain x where x: "map_of (queue s) start = Some x" using aligned_held [OF q reg als] e(1) by auto
  have sp: "start < pos" using f x by (cases "start < pos"; cases c) auto
  have c: "c" using aligned_held [OF q reg [of pos]] f sp by (cases c) auto
  have len: "int (length (take (nat (pos - start)) data)) = pos - start" using f e sp by auto
  let ?st = "\<lparr>p_data = take (nat (pos - start)) data, p_start = start, p_end = pos, p_doneCb = cb, wasCut = c,
       p_gaps = map Some (gaps s), p_queue = q1, p_calls = calls\<rparr>"
  have st1: "cutStart g (bi_Start g \<le> start) hasRep ?st = Inr ?st" using o(4) start by (simp add: cutStart_def)
  have st2: "adjustStartGap (length pre) g hasRep ?st = (?st, False)" using o(4) start f sp by (simp add: adjustStartGap_def)
  have st3: "removeBetween (length pre) (length pre) g g ?st = Inr ?st" by (simp add: removeBetween_def)
  have st4: "cutEnd g (e < bi_End g) ?st = Inr ?st" using start by (simp add: cutEnd_def)
  have st5: "adjustEndGap (length pre) (length pre) g g False ?st = ?st" using sp start by (simp add: adjustEndGap_def)
  obtain cb' calls' where res: "pushCut s (length pre) (bi_Start g \<le> start) (length pre) (e < bi_End g) hasRep ?st
      = finishPush s (gaps s) q1 start (take (nat (pos - start)) data) cb' calls'"
    "mset calls' + mset (callDone cb') = mset calls + mset (callDone cb)"
    using pushCut_steps [OF _ _ st1 st2 st3 st4 st5, of s "gaps s"] gs by auto
  have q1: "q1 = outside start pos (queue s)" using f by blast
  have "mset calls + callbacks q1 = callbacks (queue s)" using f by blast
  then have cbs: "mset calls' + callbacks q1 + mset (callDone cb') = callbacks (queue s) + mset (callDone cb)"
    using res(2) by (metis add.assoc add.commute)
  have "gapset (gaps s) = gapset (gaps s) - {start ..< pos}" using free f by fastforce
  moreover have "{start ..< e} \<inter> gapset (gaps s) = {}" using free by fastforce
  moreover have "readPos s \<le> start" using reg [of start] e(1) by (simp add: fs_held [OF inv])
  ultimately have "pushEffect s data start cb (finishPush s (gaps s) q1 start (take (nat (pos - start)) data) cb' calls')"
    unfolding pushEffect_def q1
    using fs_inv_parts(1) [OF inv] f sp als e cbs [unfolded q1]
    by (intro exI [of _ "gaps s"] exI [of _ start] exI [of _ pos] exI [of _ cb'] exI [of _ calls']) auto
  with c res(1) f sp e show ?thesis by (simp add: slice_def)
qed

lemma push_unfold:
  assumes "data \<noteq> []" "gaps s \<noteq> []" "\<not> off + int (length data) \<le> bi_Start (hd (gaps s))"
    "findStartGap_loop 0 (gaps s) off = Inr (i, b1)"
    "findEndGap_loop i (drop i (gaps s)) (off + int (length data)) = Inr (Some j, b2)"
  shows "push s data off cb =
    (if (i = j \<and> off + int (length data) \<le> bi_Start (gaps s ! i))
       \<or> (i \<noteq> j \<and> bi_End (gaps s ! i) \<ge> bi_Start (gaps s ! j) \<and> off + int (length data) \<le> bi_Start (gaps s ! i))
     then Inr (s, [], Some errDuplicateStreamData)
     else case replaceEntries (queue s) (off + int (length data)) off False of
       None \<Rightarrow> Inr (s, [], Some errDuplicateStreamData)
     | Some (q, pos, hasReplaced, isCut, calls) \<Rightarrow>
         bindE (if isCut then slice data 0 (pos - off) else Inr data) (\<lambda>data'.
         pushCut s i b1 j b2 hasReplaced
           \<lparr>p_data = data', p_start = off, p_end = (if isCut then pos else off + int (length data)), p_doneCb = cb,
            wasCut = isCut, p_gaps = map Some (gaps s), p_queue = q, p_calls = calls\<rparr>))"
  using assms by (simp add: push_def findStartGap_def findEndGap_def Let_def)

lemma push_spec:
  assumes inv: "fs_inv s" and off: "0 \<le> off" "off + int (length data) < MaxByteCount"
  shows "push s data off cb = Inr (s, [], Some errDuplicateStreamData) \<and> {off ..< off + int (length data)} \<inter> gapset (gaps s) = {}
    \<or> pushEffect s data off cb (push s data off cb)"
proof -
  define e where "e = off + int (length data)"
  have gok: "gaps_ok (gaps s)" using inv by (simp add: fs_inv_def)
  then have ne: "gaps s \<noteq> []" by (simp add: gaps_ok_def)
  have low: "p \<notin> gapset (gaps s)" if "p < bi_Start (hd (gaps s))" for p
  proof -
    obtain h hs where h: "gaps s = h # hs" using ne by (cases "gaps s") auto
    have "p \<notin> gapset ([] @ (h # hs))" using that gaps_okD(2,4) [of "[]" h hs] gok h by (intro not_in_gap) force+
    then show ?thesis using h by simp
  qed
  show ?thesis
  proof (cases "data = [] \<or> e \<le> bi_Start (hd (gaps s))")
    case True
    then show ?thesis using ne low by (auto simp: push_def e_def Let_def)
  next
    case False
    then have lt: "off < e" "bi_Start (hd (gaps s)) < e" "e < MaxByteCount" using off by (auto simp: e_def)
    have dup: ?thesis if "push s data off cb = Inr (s, [], Some errDuplicateStreamData)" "gaps s = pre @ g # post"
      "\<forall>p \<in> set pre. bi_End p < off" "e \<le> bi_Start g" for pre g post
    proof -
      have "p \<notin> gapset (gaps s)" if "p \<in> {off ..< e}" for p
        using that \<open>gaps s = pre @ g # post\<close> \<open>\<forall>p \<in> set pre. bi_End p < off\<close> \<open>e \<le> bi_Start g\<close> gaps_okD(2,4) [of pre g post] gok
        by (simp only:, intro not_in_gap) force+
      with that(1) show ?thesis by (auto simp: e_def)
    qed
    have dup_entry: ?thesis if n: "replaceEntries (queue s) e off False = None"
      and p: "push s data off cb = Inr (s, [], Some errDuplicateStreamData)"
    proof -
      obtain x where "map_of (queue s) off = Some x" "e - off \<le> entryLen x" using replaceEntries_None [OF n] by blast
      then have "{off ..< e} \<subseteq> held (queue s)" using lookup_held [of "queue s" off x] by fastforce
      then have "{off ..< e} \<inter> gapset (gaps s) = {}" by (auto simp: fs_held [OF inv])
      with p show ?thesis by (simp add: e_def)
    qed
    show ?thesis using gok lt
    proof (cases rule: findGaps)
      case (inside pre g post)
      obtain ps k where ps: "pre = ps @ [k]" using inside(5) by (cases pre rule: rev_cases) auto
      have k: "gaps s ! (length pre - 1) = k" "gaps s ! length pre = g" "bi_Start k < bi_End k" "bi_End k < bi_Start g"
        "bi_Start g < bi_End g"
        using inside(1) ps gaps_okD(1,4,6) [of pre g post] gok by (auto simp: nth_append)
      have "push s data off cb = Inr (s, [], Some errDuplicateStreamData)"
        using push_unfold [of data s off "length pre" False "length pre - 1" False cb] inside k False ne
        by (simp add: e_def)
      then show ?thesis using dup inside by auto
    next
      case (one pre g post)
      have g: "gaps s ! length pre = g" using one(1) by simp
      note unf = push_unfold [of data s off "length pre" "bi_Start g \<le> off" "length pre" "e < bi_End g" cb]
      show ?thesis
      proof (cases "e \<le> bi_Start g")
        case True
        then show ?thesis using dup [OF _ one(1,2)] unf one False ne g by (simp add: e_def)
      next
        case gt: False
        show ?thesis
        proof (cases "replaceEntries (queue s) e off False")
          case None
          then show ?thesis using dup_entry unf one False ne g gt by (simp add: e_def)
        next
          case (Some x)
          obtain q1 pos hasRep c calls where x: "x = (q1, pos, hasRep, c, calls)" by (cases x)
          note r = Some [unfolded x]
          show ?thesis
          proof (cases "off < bi_End g")
            case True
            from push_one [OF inv one(1,2) True _ lt(1) e_def lt(3) one(5) r, of cb] gt
            show ?thesis using unf one False ne g gt r by (cases c) (simp_all add: e_def)
          next
            case False': False
            then have "off = bi_End g" using one(3) by simp
            from push_touch [OF inv one(1) this lt(1) e_def lt(3) one(5) r, of cb]
            show ?thesis using unf one False ne g gt r by (cases c) (simp_all add: e_def)
          qed
        qed
      qed
    next
      case (two pre g mid h post)
      have g: "gaps s ! length pre = g" "gaps s ! (length pre + 1 + length mid) = h" using two(1) by (simp_all add: nth_append)
      note unf = push_unfold [of data s off "length pre" "bi_Start g \<le> off" "length pre + 1 + length mid" "e < bi_End h" cb]
      have nd: "\<not> bi_End g \<ge> bi_Start h" using two(6) by simp
      show ?thesis
      proof (cases "replaceEntries (queue s) e off False")
        case None
        then show ?thesis using dup_entry unf two False ne g nd by (simp add: e_def)
      next
        case (Some x)
        obtain q1 pos hasRep c calls where x: "x = (q1, pos, hasRep, c, calls)" by (cases x)
        from push_two [OF inv two(1,2,3,4) e_def lt(3) two(5) Some [unfolded x], of cb]
        show ?thesis using unf two False ne g nd Some x by (cases c) (simp_all add: e_def)
      qed
    qed
  qed
qed

subsection \<open>Runs\<close>

lemma update_new:
  "k \<notin> fst ` set q \<Longrightarrow> AList.update k e q = q @ [(k, e)]"
  by (induction q) auto

lemma outside_key: "a < b \<Longrightarrow> a \<notin> fst ` set (outside a b q)"
  by (auto simp: set_outside)

lemma entries_ok_insert:
  assumes q: "entries_ok q" and al: "aligned q a" "aligned q b" and d: "int (length d) = b - a" "a < b"
  shows "entries_ok (outside a b q @ [(a, \<lparr>fse_Data = d, fse_DoneCb = cb\<rparr>)])"
proof -
  let ?e = "\<lparr>fse_Data = d, fse_DoneCb = cb\<rparr>"
  have o: "entries_ok (outside a b q)" using q by simp
  have sep: "k + entryLen e \<le> a \<or> b \<le> k" if "(k, e) \<in> set (outside a b q)" for k e
    using that al entryLen_pos [OF q] by (fastforce simp: set_outside aligned_def)
  have "a \<notin> fst ` set (outside a b q)" using d(2) by (rule outside_key)
  then have "distinct (map fst (outside a b q @ [(a, ?e)]))" using o by (auto simp: entries_ok_def)
  moreover have "\<forall>(k, e) \<in> set (outside a b q @ [(a, ?e)]). fse_Data e \<noteq> []"
    using o d by (auto simp: entries_ok_def)
  moreover have "k1 + entryLen e1 \<le> k2" if "(k1, e1) \<in> set (outside a b q @ [(a, ?e)])"
    "(k2, e2) \<in> set (outside a b q @ [(a, ?e)])" "k1 < k2" for k1 e1 k2 e2
    using that sep d entries_okD(1) [OF o] entryLen_pos [OF o] by fastforce
  ultimately show ?thesis unfolding entries_ok_def by blast
qed

lemma held_append [simp]: "held (q @ r) = held q \<union> held r"
  by (auto simp: held_def)

lemma pushEffect_inv:
  assumes inv: "fs_inv s" and e: "pushEffect s data off cb (Inr (s', calls, None))" "off + int (length data) < MaxByteCount"
  shows "fs_inv s' \<and> gapset (gaps s') = gapset (gaps s) - {off ..< off + int (length data)} \<and> readPos s' = readPos s
    \<and> mset calls + callbacks (queue s') = callbacks (queue s) + mset (callDone cb)
    \<and> (carries S (queue s) \<and> (\<forall>n < length data. data ! n = S (off + int n)) \<longrightarrow> carries S (queue s'))"
proof -
  from e(1) obtain gs a b cb' calls' where
    f: "Inr (s', calls, None) = finishPush s gs (outside a b (queue s)) a (take (nat (b - a)) (drop (nat (a - off)) data)) cb' calls'"
    and gs: "gaps_ok gs" "gapset gs = gapset (gaps s) - {a ..< b}" and ab: "off \<le> a" "a < b" "b \<le> off + int (length data)" "readPos s \<le> a"
    and sub: "{off ..< off + int (length data)} \<inter> gapset (gaps s) \<subseteq> {a ..< b}"
    and al: "aligned (queue s) a" "aligned (queue s) b"
    and cbs: "mset calls' + callbacks (outside a b (queue s)) + mset (callDone cb') = callbacks (queue s) + mset (callDone cb)"
    unfolding pushEffect_def by blast
  let ?d = "take (nat (b - a)) (drop (nat (a - off)) data)"
  note q = fs_inv_parts(2) [OF inv]
  have s': "calls' = calls" "gaps s' = gs" "readPos s' = readPos s"
    "queue s' = outside a b (queue s) @ [(a, \<lparr>fse_Data = ?d, fse_DoneCb = cb'\<rparr>)]"
    using f update_new [OF outside_key [OF ab(2)]] by (auto simp: finishPush_def split: if_splits)
  have len: "int (length ?d) = b - a" using ab by simp
  have "gapset gs = gapset (gaps s) - {off ..< off + int (length data)}" using gs(2) sub ab by auto
  moreover have "entries_ok (queue s')" unfolding s' using entries_ok_insert [OF q al len ab(2)] .
  moreover have "held (queue s') = {readPos s ..< MaxByteCount} - gapset gs"
  proof -
    have "held [(a, \<lparr>fse_Data = ?d, fse_DoneCb = cb'\<rparr>)] = {a ..< b}" using len by (auto simp: held_def)
    then have "held (queue s') = held (queue s) \<union> {a ..< b}" unfolding s' using held_outside [OF al q] by auto
    then show ?thesis using gs(2) ab e(2) fs_held [OF inv] by auto
  qed
  moreover have "readPos s \<le> bi_Start (hd gs)"
  proof -
    have "hd gs \<in> set gs" "bi_Start (hd gs) < bi_End (hd gs)" using gs(1) by (auto simp: gaps_ok_def)
    then have "bi_Start (hd gs) \<in> gapset (gaps s)" using in_gap [of "hd gs" gs "bi_Start (hd gs)"] gs(2) by auto
    then obtain g where "g \<in> set (gaps s)" "bi_Start g \<le> bi_Start (hd gs)" by (auto simp: gapset_def)
    then show ?thesis using gap_start_ge [OF inv] by fastforce
  qed
  moreover have "callbacks (queue s') = callbacks (outside a b (queue s)) + mset (callDone cb')" by (simp add: s' callbacks_def)
  moreover have "carries S (queue s')" if c: "carries S (queue s)" "\<forall>n < length data. data ! n = S (off + int n)"
  proof -
    have "?d ! n = S (a + int n)" if "n < length ?d" for n
    proof -
      have "nat (a - off) + n < length data" using that ab by auto
      with c(2) have "data ! (nat (a - off) + n) = S (off + int (nat (a - off) + n))" by blast
      also have "off + int (nat (a - off) + n) = a + int n" using ab by simp
      finally show ?thesis using that \<open>nat (a - off) + n < length data\<close> by (simp add: nth_drop)
    qed
    with c(1) show ?thesis by (auto simp: carries_def s' set_outside)
  qed
  ultimately show ?thesis using inv gs(1) s' cbs by (auto simp: fs_inv_def ac_simps)
qed

lemma Push_spec:
  assumes inv: "fs_inv s" and off: "0 \<le> off" "off + int (length data) < MaxByteCount"
  shows "\<exists>s' calls err. Push s data off cb = Inr (s', calls, err)
    \<and> (err = None \<and> fs_inv s' \<and> gapset (gaps s') = gapset (gaps s) - {off ..< off + int (length data)} \<and> readPos s' = readPos s
        \<and> mset calls + callbacks (queue s') = callbacks (queue s) + mset (callDone cb)
        \<and> (carries S (queue s) \<and> (\<forall>n < length data. data ! n = S (off + int n)) \<longrightarrow> carries S (queue s'))
      \<or> err = Some (Err ''too many gaps in received data'') \<and> int (length (gaps s')) > MaxStreamFrameSorterGaps)"
  using push_spec [OF inv off, of cb]
proof
  assume d: "push s data off cb = Inr (s, [], Some errDuplicateStreamData) \<and> {off ..< off + int (length data)} \<inter> gapset (gaps s) = {}"
  then have "gapset (gaps s) = gapset (gaps s) - {off ..< off + int (length data)}" by blast
  with d inv show ?thesis by (simp add: Push_def)
next
  assume p: "pushEffect s data off cb (push s data off cb)"
  then obtain s' calls err where r: "push s data off cb = Inr (s', calls, err)"
    "err = None \<or> err = Some (Err ''too many gaps in received data'') \<and> int (length (gaps s')) > MaxStreamFrameSorterGaps"
    unfolding pushEffect_def by (auto simp: finishPush_def split: if_splits)
  then have P: "Push s data off cb = Inr (s', calls, err)" by (auto simp: Push_def errDuplicateStreamData_def)
  show ?thesis
  proof (cases err)
    case None
    with pushEffect_inv [OF inv, of data off cb s' calls S] p r off P show ?thesis by simp
  next
    case (Some x)
    with r P show ?thesis by simp
  qed
qed

lemma fs_Pop_spec:
  assumes inv: "fs_inv s"
  shows "\<exists>s' d cb. fs_Pop s = Inr (s', readPos s, d, cb) \<and> fs_inv s' \<and> readPos s' = readPos s + int (length d) \<and> gaps s' = gaps s
    \<and> (d = [] \<longleftrightarrow> readPos s \<notin> held (queue s))
    \<and> callbacks (queue s') + mset (callDone cb) = callbacks (queue s)
    \<and> (carries S (queue s) \<longrightarrow> carries S (queue s') \<and> (\<forall>n < length d. d ! n = S (readPos s + int n)))"
proof (cases "map_of (queue s) (readPos s)")
  case None
  have "aligned (queue s) (readPos s)"
    unfolding aligned_def using lookup_held fs_held [OF inv] entries_lookup [OF fs_inv_parts(2) [OF inv]] by fastforce
  then have "readPos s \<notin> held (queue s)" using None aligned_held [OF fs_inv_parts(2) [OF inv]] by fastforce
  with None inv show ?thesis by (auto simp: fs_Pop_def callDone_def)
next
  case (Some e)
  note q = fs_inv_parts(2) [OF inv]
  note al = lookup_aligned [OF q Some] and len = entryLen_pos [OF q map_of_SomeD [OF Some]]
  let ?rp = "readPos s + entryLen e" and ?q = "AList.delete (readPos s) (queue s)"
  obtain g gs where gs: "gaps s = g # gs" using fs_inv_parts(1) [OF inv] by (cases "gaps s") (auto simp: gaps_ok_def)
  have g: "readPos s \<le> bi_Start g" "bi_Start g < bi_End g" using gap_start_ge [OF inv, of g] gs fs_inv_parts(1) [OF inv] by (auto simp: gaps_ok_def)
  have "bi_Start g \<notin> held (queue s)" using in_gap [of g "gaps s" "bi_Start g"] g gs fs_held [OF inv] by simp
  then have rp: "?rp \<le> bi_Start g" using lookup_held [OF Some] g(1) by force
  have del: "?q = outside (readPos s) ?rp (queue s)" using delete_outside [OF q Some] .
  have "held ?q = {?rp ..< MaxByteCount} - gapset (gaps s)"
    unfolding del using held_outside [OF _ _ q] al fs_held [OF inv] len by auto
  moreover have "entries_ok ?q" unfolding del using q by simp
  ultimately have "fs_inv (s\<lparr>queue := ?q, readPos := ?rp\<rparr>)" using inv rp len gs by (simp add: fs_inv_def)
  moreover have "readPos s \<in> held (queue s)" using lookup_held [OF Some] len by auto
  moreover have "callbacks ?q + mset (callDone (fse_DoneCb e)) = callbacks (queue s)"
    using callbacks_delete [OF q Some] by (simp add: ac_simps)
  moreover have "carries S ?q" if "carries S (queue s)" using that unfolding del by (auto simp: carries_def set_outside)
  moreover have "\<forall>n < length (fse_Data e). fse_Data e ! n = S (readPos s + int n)" if "carries S (queue s)"
    using that map_of_SomeD [OF Some] by (auto simp: carries_def)
  ultimately show ?thesis using Some gs g rp len by (auto simp: fs_Pop_def Let_def)
qed

lemma MaxByteCount_pos: "0 < MaxByteCount"
  by (simp add: MaxByteCount_def)

lemma newFrameSorter_gapset: "gapset (gaps newFrameSorter) = {0 ..< MaxByteCount}"
  by (simp add: newFrameSorter_def gapset_def)

lemma newFrameSorter_parts:
  "gaps_ok (gaps newFrameSorter)" "entries_ok (queue newFrameSorter)" "held (queue newFrameSorter) = {}"
  "readPos newFrameSorter = 0" "bi_Start (hd (gaps newFrameSorter)) = 0"
  using MaxByteCount_pos
  by (simp_all add: newFrameSorter_def gaps_ok_def entries_ok_def held_def)

lemma newFrameSorter_inv: "fs_inv newFrameSorter"
  unfolding fs_inv_def newFrameSorter_gapset newFrameSorter_parts(3,4,5) using newFrameSorter_parts(1,2) by blast

lemma fs_run_spec:
  assumes "fs_run S s out recv given called"
  shows "fs_inv s \<and> carries S (queue s) \<and> gapset (gaps s) = {0 ..< MaxByteCount} - recv \<and> recv \<subseteq> {0 ..< MaxByteCount}
    \<and> readPos s = int (length out) \<and> (\<forall>n < length out. out ! n = S (int n)) \<and> given = called + callbacks (queue s)"
  using assms
proof induction
  case fs_new
  show ?case unfolding newFrameSorter_gapset newFrameSorter_parts(4)
    using newFrameSorter_inv by (simp add: newFrameSorter_def carries_def callbacks_def)
next
  case (fs_push s out recv given called off data cb s' calls)
  from Push_spec [of s off data cb S] fs_push
  have "fs_inv s'" "gapset (gaps s') = gapset (gaps s) - {off ..< off + int (length data)}" "readPos s' = readPos s"
    "mset calls + callbacks (queue s') = callbacks (queue s) + mset (callDone cb)" "carries S (queue s')" by auto
  with fs_push.IH fs_push.hyps(2,3) show ?case by (auto simp: ac_simps)
next
  case (fs_pop s out recv given called s' off data cb)
  from fs_Pop_spec [of s S] fs_pop
  have "fs_inv s'" "gaps s' = gaps s" "readPos s' = readPos s + int (length data)" "carries S (queue s')"
    "\<forall>n < length data. data ! n = S (readPos s + int n)" and c: "callbacks (queue s') + mset (callDone cb) = callbacks (queue s)" by auto
  moreover have "given = called + mset (callDone cb) + callbacks (queue s')" using fs_pop.IH unfolding c [symmetric] by (simp add: ac_simps)
  ultimately show ?case using fs_pop.IH by (auto simp: nth_append)
qed

lemma fs_run_drain:
  assumes "fs_run S s out recv given called" "{0 ..< int n} \<subseteq> recv"
  shows "\<exists>s' out' called'. fs_pops s out' s' \<and> fs_run S s' (out @ out') recv given called' \<and> n \<le> length (out @ out')"
  using assms
proof (induction "n - length out" arbitrary: s out called rule: less_induct)
  case less
  show ?case
  proof (cases "n \<le> length out")
    case True
    then show ?thesis using less.prems fs_pops.pops_refl by (metis append_Nil2)
  next
    case False
    note r = fs_run_spec [OF less.prems(1)]
    have "int (length out) \<in> recv" using False less.prems(2) by auto
    then have h: "readPos s \<in> held (queue s)" using r fs_held [of s] by auto
    obtain s' d cb where p: "fs_Pop s = Inr (s', readPos s, d, cb)" "d \<noteq> []" using fs_Pop_spec [of s S] r h by auto
    have "n - length (out @ d) < n - length out" using p(2) False by (cases d) auto
    from less.hyps [OF this fs_run.fs_pop [OF less.prems(1) p(1)] less.prems(2)]
    obtain s'' out' called' where d: "fs_pops s' out' s''" "fs_run S s'' ((out @ d) @ out') recv given called'"
      "n \<le> length ((out @ d) @ out')" by blast
    have "fs_pops s (d @ out') s''" using fs_pops.pops_step [OF p(1) d(1)] .
    with d(2,3) show ?thesis by (metis append.assoc)
  qed
qed

text \<open>A Pop that yields data takes an entry from the queue.\<close>

lemma fs_Pop_shorter:
  assumes "fs_Pop s = Inr (s', off, data, cb)" "data \<noteq> []"
  shows "length (queue s') < length (queue s)"
proof (cases "map_of (queue s) (readPos s)")
  case None
  with assms show ?thesis by (simp add: fs_Pop_def)
next
  case (Some e)
  then have "length (AList.delete (readPos s) (queue s)) < length (queue s)"
    by (auto simp: AList.delete_eq dest!: map_of_SomeD intro!: length_filter_less)
  with Some assms show ?thesis by (auto simp: fs_Pop_def Let_def split: if_splits)
qed

lemma fs_run_received:
  assumes "fs_run S s out recv given called"
  shows "{0 ..< int (length out)} \<subseteq> recv"
proof
  fix p assume p: "p \<in> {0 ..< int (length out)}"
  note r = fs_run_spec [OF assms]
  then have inv: "fs_inv s" by blast
  obtain g gs where g: "gaps s = g # gs" using fs_inv_parts(1) [OF inv] by (cases "gaps s") (auto simp: gaps_ok_def)
  have "\<forall>g \<in> set (gaps s). p < bi_Start g" using gap_start_ge [OF inv] p r by fastforce
  then have "p \<notin> gapset (gaps s)" by (auto simp: gapset_def)
  moreover have "p < MaxByteCount"
    using gap_start_ge [OF inv, of g] gaps_End_le [OF fs_inv_parts(1) [OF inv], of g] fs_inv_parts(1) [OF inv] g p r
    by (auto simp: gaps_ok_def)
  ultimately show "p \<in> recv" using r p by auto
qed

text \<open>
  C6. The frame sorter reassembles the stream. Whatever pieces of a stream are pushed, in whatever order, with
  whatever overlaps and duplicates, and whenever data is popped: the popped data is the stream's prefix, all of
  it was received, the next Pop does not fail, is at the read position, and yields data exactly when
  the byte at the read position was received. Every callback that was passed in was either called (or handed
  out with its data) once, or is still held with an entry of the queue.
\<close>

theorem frame_sorter_correct:
  assumes "fs_run S s out recv given called"
  shows "out = map (\<lambda>n. S (int n)) [0 ..< length out] \<and> {0 ..< int (length out)} \<subseteq> recv
    \<and> given = called + callbacks (queue s)
    \<and> (\<exists>s' data cb. fs_Pop s = Inr (s', int (length out), data, cb) \<and> (data = [] \<longleftrightarrow> int (length out) \<notin> recv))"
proof -
  note r = fs_run_spec [OF assms]
  then have "out = map (\<lambda>n. S (int n)) [0 ..< length out]" by (intro nth_equalityI) auto
  moreover have "readPos s \<in> held (queue s) \<longleftrightarrow> int (length out) \<in> recv" using r fs_held [of s] by auto
  ultimately show ?thesis using r fs_run_received [OF assms] fs_Pop_spec [of s S] by fastforce
qed

lemma fs_run_example:
  "fs_run (\<lambda>n. of_int (n + 10)) \<lparr>queue = [(2, \<lparr>fse_Data = [12, 13], fse_DoneCb = Some ''b''\<rparr>)], readPos = 0,
     gaps = [\<lparr>bi_Start = 0, bi_End = 2\<rparr>, \<lparr>bi_Start = 4, bi_End = MaxByteCount\<rparr>]\<rparr> [] {2, 3} {# ''a'', ''b'' #} {# ''a'' #}"
proof -
  let ?S = "\<lambda>n :: int. of_int (n + 10) :: byte"
  have p1: "Push newFrameSorter [13] 3 (Some ''a'') = Inr (\<lparr>queue = [(3, \<lparr>fse_Data = [13], fse_DoneCb = Some ''a''\<rparr>)],
    readPos = 0, gaps = [\<lparr>bi_Start = 0, bi_End = 3\<rparr>, \<lparr>bi_Start = 4, bi_End = MaxByteCount\<rparr>]\<rparr>, [], None)"
    by code_simp
  have p2: "Push \<lparr>queue = [(3, \<lparr>fse_Data = [13], fse_DoneCb = Some ''a''\<rparr>)],
    readPos = 0, gaps = [\<lparr>bi_Start = 0, bi_End = 3\<rparr>, \<lparr>bi_Start = 4, bi_End = MaxByteCount\<rparr>]\<rparr> [12, 13] 2 (Some ''b'') =
    Inr (\<lparr>queue = [(2, \<lparr>fse_Data = [12, 13], fse_DoneCb = Some ''b''\<rparr>)], readPos = 0,
     gaps = [\<lparr>bi_Start = 0, bi_End = 2\<rparr>, \<lparr>bi_Start = 4, bi_End = MaxByteCount\<rparr>]\<rparr>, [''a''], None)"
    by code_simp
  have "\<forall>n < length [13 :: byte]. [13] ! n = ?S (3 + int n)" by (simp add: less_Suc_eq)
  note r1 = fs_run.fs_push [OF fs_run.fs_new _ _ this p1]
  have "\<forall>n < length [12 :: byte, 13]. [12, 13] ! n = ?S (2 + int n)" by (auto simp: less_Suc_eq numeral_2_eq_2)
  note r2 = fs_run.fs_push [OF r1 _ _ this p2]
  have "{} \<union> {3 ..< 3 + int (length [13 :: byte])} \<union> {2 ..< 2 + int (length [12 :: byte, 13])} = {2, 3}" by auto
  then show ?thesis using r2 by (simp add: MaxByteCount_def callDone_def add_mset_commute)
qed

theorem frame_sorter_correct_witness:
  "\<exists>s' data cb. fs_Pop \<lparr>queue = [(2, \<lparr>fse_Data = [12, 13], fse_DoneCb = Some ''b''\<rparr>)], readPos = 0,
     gaps = [\<lparr>bi_Start = 0, bi_End = 2\<rparr>, \<lparr>bi_Start = 4, bi_End = MaxByteCount\<rparr>]\<rparr> = Inr (s', 0, data, cb) \<and> data = []"
  using frame_sorter_correct [OF fs_run_example] by auto

text \<open>
  C25. The frame sorter makes progress: as soon as the first \<open>n\<close> bytes of the stream were received, in
  whatever pieces, finitely many calls of Pop from the present state hand out all of them, and what they hand
  out continues the stream where the last Pop left it.
\<close>

theorem frame_sorter_delivers:
  assumes "fs_run S s out recv given called" "{0 ..< int n} \<subseteq> recv"
  shows "\<exists>s' out'. fs_pops s out' s' \<and> n \<le> length (out @ out') \<and> out' = map (\<lambda>k. S (int k)) [length out ..< length (out @ out')]"
proof -
  from fs_run_drain [OF assms] obtain s' out' called' where d: "fs_pops s out' s'" "fs_run S s' (out @ out') recv given called'"
    "n \<le> length (out @ out')" by blast
  have "\<forall>k < length (out @ out'). (out @ out') ! k = S (int k)" using fs_run_spec [OF d(2)] by blast
  then have "out' ! k = S (int (length out + k))" if "k < length out'" for k
    using that by (metis length_append nat_add_left_cancel_less nth_append_length_plus)
  then have "out' = map (\<lambda>k. S (int k)) [length out ..< length (out @ out')]" by (intro nth_equalityI) auto
  with d(1,3) show ?thesis by blast
qed

theorem frame_sorter_delivers_witness:
  "\<exists>s' out'. fs_pops \<lparr>queue = [(0, \<lparr>fse_Data = [10], fse_DoneCb = Some ''a''\<rparr>)], readPos = 0, gaps = [\<lparr>bi_Start = 1, bi_End = MaxByteCount\<rparr>]\<rparr> out' s'
     \<and> 1 \<le> length ([] @ out') \<and> out' = map (\<lambda>k. of_int (int k + 10)) [length ([] :: byte list) ..< length ([] @ out')]"
proof -
  have p: "Push newFrameSorter [10] 0 (Some ''a'') = Inr (\<lparr>queue = [(0, \<lparr>fse_Data = [10], fse_DoneCb = Some ''a''\<rparr>)],
    readPos = 0, gaps = [\<lparr>bi_Start = 1, bi_End = MaxByteCount\<rparr>]\<rparr>, [], None)"
    by code_simp
  have "fs_run (\<lambda>n. of_int (n + 10)) \<lparr>queue = [(0, \<lparr>fse_Data = [10], fse_DoneCb = Some ''a''\<rparr>)],
    readPos = 0, gaps = [\<lparr>bi_Start = 1, bi_End = MaxByteCount\<rparr>]\<rparr> [] {0} {# ''a'' #} {#}"
    using fs_run.fs_push [OF fs_run.fs_new _ _ _ p, where S = "\<lambda>n. of_int (n + 10)"]
    by (simp add: MaxByteCount_def callDone_def atLeastLessThanPlusOne_atLeastAtMost_int [of 0 0, simplified])
  moreover have "{0 ..< int 1} \<subseteq> {0}" by auto
  ultimately show ?thesis by (rule frame_sorter_delivers)
qed

text \<open>
  C26. Pushing a frame whose end is below the maximum offset never panics, whatever was pushed and popped
  before. It fails only when the received data has more than MaxStreamFrameSorterGaps gaps.
\<close>

theorem frame_sorter_Push_total:
  assumes "fs_run S s out recv given called" "0 \<le> off" "off + int (length data) < MaxByteCount"
  shows "\<exists>s' calls err. Push s data off cb = Inr (s', calls, err) \<and> (err = None \<or>
    err = Some (Err ''too many gaps in received data'') \<and> int (length (gaps s')) > MaxStreamFrameSorterGaps)"
  using Push_spec [of s off data cb S] fs_run_spec [OF assms(1)] assms(2,3) by blast

theorem frame_sorter_Push_total_witness:
  "\<exists>s' calls err. Push \<lparr>queue = [(2, \<lparr>fse_Data = [12, 13], fse_DoneCb = Some ''b''\<rparr>)], readPos = 0,
     gaps = [\<lparr>bi_Start = 0, bi_End = 2\<rparr>, \<lparr>bi_Start = 4, bi_End = MaxByteCount\<rparr>]\<rparr> [11, 12, 13, 14] 1 None = Inr (s', calls, err)
     \<and> (err = None \<or> err = Some (Err ''too many gaps in received data'') \<and> int (length (gaps s')) > MaxStreamFrameSorterGaps)"
  by (rule frame_sorter_Push_total [OF fs_run_example]) (simp_all add: MaxByteCount_def)

end
