(* ===== verification/Crypto_Stream.thy ===== *)
theory Crypto_Stream
  imports Frames Frame_Sorter
begin

text \<open>
  The streams of the TLS handshake: \<open>crypto_stream.go\<close>, one stream per encryption level over a frame sorter, and
  \<open>crypto_stream_manager.go\<close>, which selects the stream and feeds the handshake. The handshake is reached
  through the interface \<open>cryptoDataHandler\<close>; its \<open>HandleMessage\<close> is a parameter over the state behind it.
  A nil byte slice is the empty list: the frame sorter has no empty entries, and appending data never gives
  an empty buffer. The callbacks of the frame sorter are nil here.
\<close>

subsection \<open>A stream\<close>

record cryptoStream =
  cs_queue :: "unit frameSorter"
  msgBuf :: "byte list"
  highestOffset :: ByteCount
  finished :: bool
  writeOffset :: ByteCount
  writeBuf :: "byte list"

definition newCryptoStream :: cryptoStream where
  "newCryptoStream =
     \<lparr>cs_queue = newFrameSorter, msgBuf = [], highestOffset = 0, finished = False, writeOffset = 0, writeBuf = []\<rparr>"

text \<open>The loop that moves what the frame sorter can deliver to the message buffer.\<close>

function popLoop :: "'c frameSorter \<Rightarrow> byte list \<Rightarrow> ('c frameSorter \<times> byte list) result" where
  "popLoop s buf =
     (case fs_Pop s of
        Inl e \<Rightarrow> Inl e
      | Inr (s', offset, data, cb) \<Rightarrow> if data = [] then Inr (s', buf) else popLoop s' (buf @ data))"
  by pat_completeness auto
termination
  by (relation "measure (\<lambda>(s, buf). length (queue s))") (auto dest: fs_Pop_shorter)

definition cs_HandleCryptoFrame :: "cryptoStream \<Rightarrow> CryptoFrame \<Rightarrow> (cryptoStream \<times> error option) result" where
  "cs_HandleCryptoFrame s f =
     (let highest = crypto_Offset f + int (length (crypto_Data f)) in
      if highest > MaxCryptoStreamOffset then Inr (s, Some (TransportError CryptoBufferExceeded 0))
      else if finished s then
        if highest > highestOffset s then Inr (s, Some (TransportError ProtocolViolation 0))
        else Inr (s, None)
      else
        let s = s\<lparr>highestOffset := max (highestOffset s) highest\<rparr> in
        bindE (Push (cs_queue s) (crypto_Data f) (crypto_Offset f) None) (\<lambda>(q, calls, err).
        case err of
          Some e \<Rightarrow> Inr (s\<lparr>cs_queue := q\<rparr>, Some e)
        | None \<Rightarrow>
            bindE (popLoop q (msgBuf s)) (\<lambda>(q, buf).
            Inr (s\<lparr>cs_queue := q, msgBuf := buf\<rparr>, None))))"

definition GetCryptoData :: "cryptoStream \<Rightarrow> cryptoStream \<times> byte list" where
  "GetCryptoData s = (s\<lparr>msgBuf := []\<rparr>, msgBuf s)"

definition Finish :: "cryptoStream \<Rightarrow> cryptoStream \<times> error option" where
  "Finish s =
     (if HasMoreData (cs_queue s) then (s, Some (TransportError ProtocolViolation 0))
      else (s\<lparr>finished := True\<rparr>, None))"

definition cs_Write :: "cryptoStream \<Rightarrow> byte list \<Rightarrow> cryptoStream" where
  "cs_Write s p = s\<lparr>writeBuf := writeBuf s @ p\<rparr>"

definition HasData :: "cryptoStream \<Rightarrow> bool" where
  "HasData s \<longleftrightarrow> length (writeBuf s) > 0"

definition PopCryptoFrame :: "cryptoStream \<Rightarrow> ByteCount \<Rightarrow> (cryptoStream \<times> CryptoFrame) result" where
  "PopCryptoFrame s maxLen =
     (let f = \<lparr>crypto_Offset = writeOffset s, crypto_Data = []\<rparr> in
      bindE (CryptoFrame_MaxDataLen f maxLen) (\<lambda>m.
      let n = min m (int (length (writeBuf s))) in
      bindE (slice (writeBuf s) 0 n) (\<lambda>d.
      bindE (slice (writeBuf s) n (int (length (writeBuf s)))) (\<lambda>rest.
      Inr (s\<lparr>writeBuf := rest, writeOffset := writeOffset s + n\<rparr>, f\<lparr>crypto_Data := d\<rparr>)))))"

subsection \<open>The streams of a connection\<close>

record cryptoStreamManager =
  initialStream :: cryptoStream
  handshakeStream :: cryptoStream
  oneRTTStream :: cryptoStream

text \<open>
  The loop that hands messages to the handshake. \<open>GetCryptoData\<close> empties the buffer, so a second round
  finds no data.
\<close>

function handleMessages ::
  "('h \<Rightarrow> byte list \<Rightarrow> EncryptionLevel \<Rightarrow> 'h \<times> error option) \<Rightarrow> 'h \<Rightarrow> EncryptionLevel \<Rightarrow> cryptoStream \<Rightarrow>
   'h \<times> cryptoStream \<times> error option" where
  "handleMessages HandleMessage h encLevel str =
     (case GetCryptoData str of (str', data) \<Rightarrow>
        if data = [] then (h, str', None)
        else
          case HandleMessage h data encLevel of
            (h, Some e) \<Rightarrow> (h, str', Some e)
          | (h, None) \<Rightarrow> handleMessages HandleMessage h encLevel str')"
  by pat_completeness auto
termination
  by (relation "measure (\<lambda>(hm, h, l, str). length (msgBuf str))") (auto simp: GetCryptoData_def)

definition csm_HandleCryptoFrame ::
  "('h \<Rightarrow> byte list \<Rightarrow> EncryptionLevel \<Rightarrow> 'h \<times> error option) \<Rightarrow> 'h \<Rightarrow> cryptoStreamManager \<Rightarrow> CryptoFrame \<Rightarrow> EncryptionLevel \<Rightarrow>
   ('h \<times> cryptoStreamManager \<times> error option) result" where
  "csm_HandleCryptoFrame HandleMessage h m frame encLevel =
     (let handle = (\<lambda>str put.
        bindE (cs_HandleCryptoFrame str frame) (\<lambda>(str, err).
        case err of
          Some e \<Rightarrow> Inr (h, put str, Some e)
        | None \<Rightarrow> (case handleMessages HandleMessage h encLevel str of (h, str, err) \<Rightarrow> Inr (h, put str, err)))) in
      case encLevel of
        EncryptionInitial \<Rightarrow> handle (initialStream m) (\<lambda>str. m\<lparr>initialStream := str\<rparr>)
      | EncryptionHandshake \<Rightarrow> handle (handshakeStream m) (\<lambda>str. m\<lparr>handshakeStream := str\<rparr>)
      | Encryption1RTT \<Rightarrow> handle (oneRTTStream m) (\<lambda>str. m\<lparr>oneRTTStream := str\<rparr>)
      | _ \<Rightarrow> Inr (h, m, Some (Err ''received CRYPTO frame with unexpected encryption level'')))"

definition GetPostHandshakeData ::
  "cryptoStreamManager \<Rightarrow> ByteCount \<Rightarrow> (cryptoStreamManager \<times> CryptoFrame option) result" where
  "GetPostHandshakeData m maxSize =
     (if \<not> HasData (oneRTTStream m) then Inr (m, None)
      else bindE (PopCryptoFrame (oneRTTStream m) maxSize) (\<lambda>(str, f). Inr (m\<lparr>oneRTTStream := str\<rparr>, Some f)))"

definition csm_Drop :: "cryptoStreamManager \<Rightarrow> EncryptionLevel \<Rightarrow> (cryptoStreamManager \<times> error option) result" where
  "csm_Drop m encLevel =
     (case encLevel of
        EncryptionInitial \<Rightarrow> (case Finish (initialStream m) of (str, err) \<Rightarrow> Inr (m\<lparr>initialStream := str\<rparr>, err))
      | EncryptionHandshake \<Rightarrow> (case Finish (handshakeStream m) of (str, err) \<Rightarrow> Inr (m\<lparr>handshakeStream := str\<rparr>, err))
      | _ \<Rightarrow> Inl (Panic ''dropped unexpected encryption level''))"

subsection \<open>Runs\<close>

text \<open>
  The receiving side: frames with pieces of the stream \<open>S\<close> are handled, data is taken, the stream is finished;
  the sending side may be used in between. \<open>recv\<close> are the positions received before the stream was
  finished, \<open>out\<close> is the data taken.
\<close>

definition piece :: "(ByteCount \<Rightarrow> byte) \<Rightarrow> CryptoFrame \<Rightarrow> bool" where
  "piece S f \<longleftrightarrow> 0 \<le> crypto_Offset f \<and> (\<forall>n < length (crypto_Data f). crypto_Data f ! n = S (crypto_Offset f + int n))"

definition positions :: "CryptoFrame \<Rightarrow> ByteCount set" where
  "positions f = {crypto_Offset f ..< crypto_Offset f + int (length (crypto_Data f))}"

inductive cs_run :: "(ByteCount \<Rightarrow> byte) \<Rightarrow> cryptoStream \<Rightarrow> ByteCount set \<Rightarrow> byte list \<Rightarrow> bool" for S where
  cs_new: "cs_run S newCryptoStream {} []"
| cs_frame: "cs_run S s recv out \<Longrightarrow> \<not> finished s \<Longrightarrow> piece S f \<Longrightarrow> cs_HandleCryptoFrame s f = Inr (s', None) \<Longrightarrow>
    cs_run S s' (recv \<union> positions f) out"
| cs_late: "cs_run S s recv out \<Longrightarrow> finished s \<Longrightarrow> cs_HandleCryptoFrame s f = Inr (s', None) \<Longrightarrow> cs_run S s' recv out"
| cs_get: "cs_run S s recv out \<Longrightarrow> GetCryptoData s = (s', d) \<Longrightarrow> cs_run S s' recv (out @ d)"
| cs_finish: "cs_run S s recv out \<Longrightarrow> Finish s = (s', err) \<Longrightarrow> cs_run S s' recv out"
| cs_write: "cs_run S s recv out \<Longrightarrow> cs_run S (cs_Write s p) recv out"
| cs_pop: "cs_run S s recv out \<Longrightarrow> PopCryptoFrame s maxLen = Inr (s', f) \<Longrightarrow> cs_run S s' recv out"

text \<open>The sending side: \<open>w\<close> is what was written, \<open>fs\<close> are the frames that were popped.\<close>

inductive cs_sent :: "cryptoStream \<Rightarrow> byte list \<Rightarrow> CryptoFrame list \<Rightarrow> bool" where
  sent_new: "cs_sent newCryptoStream [] []"
| sent_write: "cs_sent s w fs \<Longrightarrow> cs_sent (cs_Write s p) (w @ p) fs"
| sent_pop: "cs_sent s w fs \<Longrightarrow> PopCryptoFrame s maxLen = Inr (s', f) \<Longrightarrow> cs_sent s' w (fs @ [f])"

text \<open>A peer that has received the frames \<open>gs\<close>, in the order of the list, and took the data \<open>out\<close>.\<close>

inductive cs_received :: "cryptoStream \<Rightarrow> CryptoFrame list \<Rightarrow> byte list \<Rightarrow> bool" where
  rcv_new: "cs_received newCryptoStream [] []"
| rcv_frame: "cs_received r gs out \<Longrightarrow> cs_HandleCryptoFrame r f = Inr (r', None) \<Longrightarrow> cs_received r' (gs @ [f]) out"
| rcv_get: "cs_received r gs out \<Longrightarrow> GetCryptoData r = (r', d) \<Longrightarrow> cs_received r' gs (out @ d)"

definition sorter_run :: "(ByteCount \<Rightarrow> byte) \<Rightarrow> 'c frameSorter \<Rightarrow> byte list \<Rightarrow> ByteCount set \<Rightarrow> bool" where
  "sorter_run S s out recv \<longleftrightarrow> (\<exists>given called. fs_run S s out recv given called)"

definition sorter_pop :: "'c frameSorter \<Rightarrow> ('c frameSorter \<times> byte list) result" where
  "sorter_pop s = bindE (fs_Pop s) (\<lambda>(s', offset, data, cb). Inr (s', data))"

definition cs_inv :: "(ByteCount \<Rightarrow> byte) \<Rightarrow> cryptoStream \<Rightarrow> ByteCount set \<Rightarrow> byte list \<Rightarrow> bool" where
  "cs_inv S s recv out \<longleftrightarrow> sorter_run S (cs_queue s) (out @ msgBuf s) recv
     \<and> int (length (out @ msgBuf s)) \<notin> recv \<and> recv \<subseteq> {0 ..< MaxCryptoStreamOffset}"

definition sent_inv :: "cryptoStream \<Rightarrow> byte list \<Rightarrow> CryptoFrame list \<Rightarrow> bool" where
  "sent_inv s w fs \<longleftrightarrow> (\<exists>k. writeOffset s = int k \<and> k \<le> length w \<and> writeBuf s = drop k w
     \<and> (\<forall>f \<in> set fs. \<exists>j. crypto_Offset f = int j \<and> j + length (crypto_Data f) \<le> k \<and> crypto_Data f = take (length (crypto_Data f)) (drop j w))
     \<and> {0 ..< int k} = (\<Union>f \<in> set fs. positions f))"

definition levelStream :: "cryptoStreamManager \<Rightarrow> EncryptionLevel \<Rightarrow> cryptoStream" where
  "levelStream m l = (case l of EncryptionInitial \<Rightarrow> initialStream m | EncryptionHandshake \<Rightarrow> handshakeStream m | _ \<Rightarrow> oneRTTStream m)"

definition cryptoLevel :: "EncryptionLevel \<Rightarrow> bool" where
  "cryptoLevel l \<longleftrightarrow> l = EncryptionInitial \<or> l = EncryptionHandshake \<or> l = Encryption1RTT"

text \<open>The handshake with a record of the messages it was given.\<close>

definition logged ::
  "('h \<Rightarrow> byte list \<Rightarrow> EncryptionLevel \<Rightarrow> 'h \<times> error option) \<Rightarrow> 'h \<times> (EncryptionLevel \<Rightarrow> byte list) \<Rightarrow> byte list \<Rightarrow> EncryptionLevel \<Rightarrow>
   ('h \<times> (EncryptionLevel \<Rightarrow> byte list)) \<times> error option" where
  "logged HandleMessage h d l = (case HandleMessage (fst h) d l of (h', err) \<Rightarrow> ((h', (snd h)(l := snd h l @ d)), err))"

inductive csm_run ::
  "('h \<Rightarrow> byte list \<Rightarrow> EncryptionLevel \<Rightarrow> 'h \<times> error option) \<Rightarrow> (EncryptionLevel \<Rightarrow> ByteCount \<Rightarrow> byte) \<Rightarrow>
   'h \<Rightarrow> cryptoStreamManager \<Rightarrow> (EncryptionLevel \<Rightarrow> ByteCount set) \<Rightarrow> (EncryptionLevel \<Rightarrow> byte list) \<Rightarrow> bool" for HandleMessage S where
  csm_new: "csm_run HandleMessage S h
    \<lparr>initialStream = newCryptoStream, handshakeStream = newCryptoStream, oneRTTStream = newCryptoStream\<rparr> (\<lambda>_. {}) (\<lambda>_. [])"
| csm_frame: "csm_run HandleMessage S h m recv log \<Longrightarrow> \<not> finished (levelStream m l) \<Longrightarrow> piece (S l) f \<Longrightarrow>
    csm_HandleCryptoFrame (logged HandleMessage) (h, log) m f l = Inr ((h', log'), m', None) \<Longrightarrow>
    csm_run HandleMessage S h' m' (recv(l := recv l \<union> positions f)) log'"
| csm_drop: "csm_run HandleMessage S h m recv log \<Longrightarrow> csm_Drop m l = Inr (m', err) \<Longrightarrow> csm_run HandleMessage S h m' recv log"

declare popLoop.simps [simp del] handleMessages.simps [simp del]

subsection \<open>The interface to the frame sorter\<close>

text \<open>
  What a stream relies on: taking data from the buffer does not fail and continues the stream where it
  was left; there is data as long as the next position was received. A loop that takes data
  until there is none then delivers all that is contiguous.
\<close>

locale stream_buffer =
  fixes run :: "(ByteCount \<Rightarrow> byte) \<Rightarrow> 's \<Rightarrow> byte list \<Rightarrow> ByteCount set \<Rightarrow> bool"
    and pop :: "'s \<Rightarrow> ('s \<times> byte list) result"
    and drain :: "'s \<Rightarrow> byte list \<Rightarrow> ('s \<times> byte list) result"
  assumes run_prefix: "run S s out recv \<Longrightarrow> out = map (\<lambda>n. S (int n)) [0 ..< length out]"
    and run_received: "run S s out recv \<Longrightarrow> {0 ..< int (length out)} \<subseteq> recv \<and> recv \<subseteq> {0 ..< MaxByteCount}"
    and run_pop: "run S s out recv \<Longrightarrow>
      \<exists>s' d. pop s = Inr (s', d) \<and> run S s' (out @ d) recv \<and> (d = [] \<longleftrightarrow> int (length out) \<notin> recv)"
    and drain_step: "drain s buf = bindE (pop s) (\<lambda>(s', d). if d = [] then Inr (s', buf) else drain s' (buf @ d))"
begin

lemma drain_delivers:
  assumes "run S s out recv"
  shows "\<exists>s' d. drain s buf = Inr (s', buf @ d) \<and> run S s' (out @ d) recv \<and> int (length (out @ d)) \<notin> recv"
  using assms
proof (induction "nat MaxByteCount - length out" arbitrary: s out buf rule: less_induct)
  case less
  from run_pop [OF less.prems] obtain s' d where p: "pop s = Inr (s', d)" "run S s' (out @ d) recv"
    "d = [] \<longleftrightarrow> int (length out) \<notin> recv" by blast
  show ?case
  proof (cases "d = []")
    case True
    with p have "drain s buf = Inr (s', buf @ [])" "run S s' (out @ []) recv" "int (length (out @ [])) \<notin> recv"
      by (simp_all add: drain_step [of s])
    then show ?thesis by blast
  next
    case False
    with p(3) run_received [OF less.prems] have "int (length out) < MaxByteCount" by auto
    moreover have "length (out @ d) > length out" using False by simp
    ultimately have "nat MaxByteCount - length (out @ d) < nat MaxByteCount - length out" by linarith
    from less.hyps [OF this p(2), of "buf @ d"] obtain s'' d' where
      r: "drain s' (buf @ d) = Inr (s'', (buf @ d) @ d')" "run S s'' ((out @ d) @ d') recv" "int (length ((out @ d) @ d')) \<notin> recv" by blast
    have "drain s buf = Inr (s'', buf @ (d @ d'))" using p(1) False r(1) by (simp add: drain_step [of s])
    moreover have "run S s'' (out @ (d @ d')) recv" "int (length (out @ (d @ d'))) \<notin> recv" using r(2,3) by simp_all
    ultimately show ?thesis by blast
  qed
qed

end

lemma sorter_run_pop:
  assumes "sorter_run S s out recv"
  shows "\<exists>s' d. sorter_pop s = Inr (s', d) \<and> sorter_run S s' (out @ d) recv \<and> (d = [] \<longleftrightarrow> int (length out) \<notin> recv)"
proof -
  from assms obtain given called where r: "fs_run S s out recv given called" by (auto simp: sorter_run_def)
  note i = fs_run_spec [OF r]
  then obtain s' d cb where p: "fs_Pop s = Inr (s', readPos s, d, cb)" "d = [] \<longleftrightarrow> readPos s \<notin> held (queue s)"
    using fs_Pop_spec [of s S] by blast
  have "sorter_run S s' (out @ d) recv" using fs_run.fs_pop [OF r p(1)] by (auto simp: sorter_run_def)
  moreover have "readPos s \<in> held (queue s) \<longleftrightarrow> int (length out) \<in> recv" using i fs_held [of s] by auto
  ultimately show ?thesis using p by (simp add: sorter_pop_def)
qed

interpretation sorter: stream_buffer sorter_run sorter_pop popLoop
proof
  show "out = map (\<lambda>n. S (int n)) [0 ..< length out]" if "sorter_run S s out recv" for S s out recv
    using that by (intro nth_equalityI) (auto simp: sorter_run_def dest!: fs_run_spec)
  show "{0 ..< int (length out)} \<subseteq> recv \<and> recv \<subseteq> {0 ..< MaxByteCount}" if "sorter_run S s out recv" for S s out recv
    using that fs_run_spec fs_run_received unfolding sorter_run_def by metis
  show "popLoop s buf = bindE (sorter_pop s) (\<lambda>(s', d). if d = [] then Inr (s', buf) else popLoop s' (buf @ d))" for s :: "'c frameSorter" and buf
    by (subst popLoop.simps) (auto simp: sorter_pop_def split: sum.splits)
qed (rule sorter_run_pop)

subsection \<open>Receiving\<close>

text \<open>
  Handling a frame fails only for data beyond the limit, data after the end, or with too many gaps;
  otherwise the buffer gets all that is contiguous.
\<close>

lemma Push_run:
  assumes "sorter_run S q out recv" "0 \<le> off" "off + int (length d) < MaxByteCount" "\<forall>n < length d. d ! n = S (off + int n)"
  shows "\<exists>q' calls err. Push q d off cb = Inr (q', calls, err)
    \<and> (err = None \<and> sorter_run S q' out (recv \<union> {off ..< off + int (length d)})
       \<or> err = Some (Err ''too many gaps in received data''))"
proof -
  from assms(1) obtain given called where r: "fs_run S q out recv given called" by (auto simp: sorter_run_def)
  have "fs_inv q" using fs_run_spec [OF r] by blast
  from Push_spec [OF this assms(2,3), of cb S] obtain q' calls err where p: "Push q d off cb = Inr (q', calls, err)" "err = None \<or> err = Some (Err ''too many gaps in received data'')"
    by blast
  moreover have "sorter_run S q' out (recv \<union> {off ..< off + int (length d)})" if "err = None"
    using fs_run.fs_push [OF r assms(2,3,4), of cb q' calls] p(1) that unfolding sorter_run_def by blast
  ultimately show ?thesis by blast
qed

lemma cs_HandleCryptoFrame_open:
  assumes s: "\<not> finished s" "sorter_run S (cs_queue s) out recv" and f: "piece S f"
    and len: "crypto_Offset f + int (length (crypto_Data f)) \<le> MaxCryptoStreamOffset"
  shows "\<exists>s' err. cs_HandleCryptoFrame s f = Inr (s', err)
    \<and> (err = Some (Err ''too many gaps in received data'')
       \<or> err = None \<and> (\<exists>d. msgBuf s' = msgBuf s @ d \<and> sorter_run S (cs_queue s') (out @ d) (recv \<union> positions f)
            \<and> int (length (out @ d)) \<notin> recv \<union> positions f) \<and> finished s' = finished s)"
proof -
  let ?e = "crypto_Offset f + int (length (crypto_Data f))"
  have "?e < MaxByteCount" using len by (simp add: MaxCryptoStreamOffset_def MaxByteCount_def)
  from Push_run [OF s(2) _ this, of None] f obtain q calls err where
    p: "Push (cs_queue s) (crypto_Data f) (crypto_Offset f) None = Inr (q, calls, err)"
      "err = None \<and> sorter_run S q out (recv \<union> positions f) \<or> err = Some (Err ''too many gaps in received data'')"
    by (auto simp: piece_def positions_def)
  show ?thesis
  proof (cases "err = None")
    case True
    with p have "sorter_run S q out (recv \<union> positions f)" by auto
    from sorter.drain_delivers [OF this, of "msgBuf s"] obtain q' d where
      d: "popLoop q (msgBuf s) = Inr (q', msgBuf s @ d)" "sorter_run S q' (out @ d) (recv \<union> positions f)"
        "int (length (out @ d)) \<notin> recv \<union> positions f" by blast
    have "cs_HandleCryptoFrame s f =
      Inr (s\<lparr>highestOffset := max (highestOffset s) ?e, cs_queue := q', msgBuf := msgBuf s @ d\<rparr>, None)"
      using s(1) len p(1) d(1) True by (simp add: cs_HandleCryptoFrame_def)
    with d(2,3) show ?thesis by auto
  next
    case False
    with p have e: "err = Some (Err ''too many gaps in received data'')" by auto
    have "cs_HandleCryptoFrame s f = Inr (s\<lparr>highestOffset := max (highestOffset s) ?e, cs_queue := q\<rparr>, err)"
      using s(1) len p(1) e by (simp add: cs_HandleCryptoFrame_def)
    with e show ?thesis by blast
  qed
qed

lemma cs_HandleCryptoFrame_len:
  "cs_HandleCryptoFrame s f = Inr (s', None) \<Longrightarrow> crypto_Offset f + int (length (crypto_Data f)) \<le> MaxCryptoStreamOffset"
  by (rule ccontr) (simp add: cs_HandleCryptoFrame_def)

lemma cs_inv_new: "cs_inv S newCryptoStream {} []"
  by (auto simp: cs_inv_def newCryptoStream_def sorter_run_def intro: fs_run.fs_new)

lemma cs_inv_frame:
  assumes i: "cs_inv S s recv out" and s: "\<not> finished s" "piece S f" "cs_HandleCryptoFrame s f = Inr (s', None)"
  shows "cs_inv S s' (recv \<union> positions f) out \<and> \<not> finished s'"
proof -
  note len = cs_HandleCryptoFrame_len [OF s(3)]
  have "sorter_run S (cs_queue s) (out @ msgBuf s) recv" using i by (simp add: cs_inv_def)
  from cs_HandleCryptoFrame_open [OF s(1) this s(2) len] s obtain d where
    "msgBuf s' = msgBuf s @ d" "sorter_run S (cs_queue s') ((out @ msgBuf s) @ d) (recv \<union> positions f)"
    "int (length ((out @ msgBuf s) @ d)) \<notin> recv \<union> positions f" "finished s' = finished s" by auto
  moreover have "positions f \<subseteq> {0 ..< MaxCryptoStreamOffset}" using s(2) len by (auto simp: positions_def piece_def)
  ultimately show ?thesis using i s(1) by (auto simp: cs_inv_def)
qed

lemma cs_inv_get: "cs_inv S s recv out \<Longrightarrow> GetCryptoData s = (s', d) \<Longrightarrow> cs_inv S s' recv (out @ d) \<and> finished s' = finished s"
  by (auto simp: cs_inv_def GetCryptoData_def)

lemma PopCryptoFrame_fields:
  assumes "PopCryptoFrame s maxLen = Inr (s', f)"
  shows "cs_queue s' = cs_queue s \<and> msgBuf s' = msgBuf s \<and> finished s' = finished s
    \<and> crypto_Offset f = writeOffset s \<and> writeBuf s = crypto_Data f @ writeBuf s'
    \<and> writeOffset s' = writeOffset s + int (length (crypto_Data f))"
  using assms
  by (auto simp: PopCryptoFrame_def Let_def slice_def bindE_def split: sum.splits if_splits)

lemma cs_inv_same:
  "cs_inv S s recv out \<Longrightarrow> cs_queue s' = cs_queue s \<Longrightarrow> msgBuf s' = msgBuf s \<Longrightarrow> cs_inv S s' recv out"
  by (simp add: cs_inv_def)

lemma cs_run_inv: "cs_run S s recv out \<Longrightarrow> cs_inv S s recv out"
proof (induction rule: cs_run.induct)
  case cs_new
  show ?case by (rule cs_inv_new)
next
  case (cs_frame s recv out f s')
  then show ?case using cs_inv_frame by blast
next
  case (cs_late s recv out f s')
  then have "s' = s" by (auto simp: cs_HandleCryptoFrame_def Let_def split: if_splits)
  with cs_late show ?case by simp
next
  case (cs_get s recv out s' d)
  then show ?case using cs_inv_get by blast
next
  case (cs_finish s recv out s' err)
  then show ?case by (elim cs_inv_same) (auto simp: Finish_def split: if_splits)
next
  case (cs_write s recv out p)
  then show ?case by (elim cs_inv_same) (simp_all add: cs_Write_def)
next
  case (cs_pop s recv out maxLen s' f)
  then show ?case using PopCryptoFrame_fields [OF cs_pop.hyps(2)] by (elim cs_inv_same) simp_all
qed

text \<open>Data is left in the frame sorter exactly when something was received beyond a gap.\<close>

lemma HasMoreData_iff:
  assumes "sorter_run S q out recv" "int (length out) \<notin> recv"
  shows "HasMoreData q \<longleftrightarrow> recv \<noteq> {0 ..< int (length out)}"
proof -
  from assms(1) obtain given called where r: "fs_run S q out recv given called" by (auto simp: sorter_run_def)
  note i = fs_run_spec [OF r]
  then have h: "held (queue q) = recv - {0 ..< int (length out)}" using fs_held [of q] by auto
  have "held (queue q) = {} \<longleftrightarrow> queue q = []"
  proof
    assume e: "held (queue q) = {}"
    show "queue q = []"
    proof (cases "queue q")
      case (Cons x xs)
      then have "(fst x, snd x) \<in> set (queue q)" by simp
      with entryLen_pos i have "fst x \<in> held (queue q)" unfolding held_iff by (metis fs_inv_parts(2) less_add_same_cancel1 order_refl)
      with e show ?thesis by simp
    qed simp
  qed (simp add: held_def)
  with h fs_run_received [OF r] show ?thesis by (auto simp: HasMoreData_def)
qed

subsection \<open>Sending\<close>

lemma cs_sent_inv: "cs_sent s w fs \<Longrightarrow> sent_inv s w fs"
proof (induction rule: cs_sent.induct)
  case sent_new
  show ?case by (simp add: sent_inv_def newCryptoStream_def)
next
  case (sent_write s w fs p)
  then obtain k where k: "writeOffset s = int k" "k \<le> length w" "writeBuf s = drop k w"
    "\<forall>f \<in> set fs. \<exists>j. crypto_Offset f = int j \<and> j + length (crypto_Data f) \<le> k \<and> crypto_Data f = take (length (crypto_Data f)) (drop j w)"
    "{0 ..< int k} = (\<Union>f \<in> set fs. positions f)" unfolding sent_inv_def by blast
  have "\<exists>j. crypto_Offset f = int j \<and> j + length (crypto_Data f) \<le> k \<and> crypto_Data f = take (length (crypto_Data f)) (drop j (w @ p))"
    if "f \<in> set fs" for f
  proof -
    from k(4) that obtain j where j: "crypto_Offset f = int j" "j + length (crypto_Data f) \<le> k"
      "crypto_Data f = take (length (crypto_Data f)) (drop j w)" by blast
    have "take (length (crypto_Data f)) (drop j (w @ p)) = take (length (crypto_Data f)) (drop j w)" using j(2) k(2) by simp
    with j show ?thesis by metis
  qed
  with k show ?case unfolding sent_inv_def cs_Write_def by (intro exI [of _ k]) simp
next
  case (sent_pop s w fs maxLen s' f)
  then obtain k where k: "writeOffset s = int k" "k \<le> length w" "writeBuf s = drop k w"
    "\<forall>f \<in> set fs. \<exists>j. crypto_Offset f = int j \<and> j + length (crypto_Data f) \<le> k \<and> crypto_Data f = take (length (crypto_Data f)) (drop j w)"
    "{0 ..< int k} = (\<Union>f \<in> set fs. positions f)" unfolding sent_inv_def by blast
  note p = PopCryptoFrame_fields [OF sent_pop.hyps(2)]
  let ?l = "length (crypto_Data f)"
  have b: "drop k w = crypto_Data f @ writeBuf s'" using p k(3) by simp
  then have l: "k + ?l \<le> length w" using k(2) by (metis add_le_cancel_left diff_add_inverse le_add_diff_inverse length_append length_drop trans_le_add1 order_refl add.commute le_add1)
  have "writeBuf s' = drop (k + ?l) w" using arg_cong [OF b, of "drop ?l"] by (simp add: add.commute)
  moreover have "crypto_Data f = take ?l (drop k w)" using b by simp
  moreover have "positions f = {int k ..< int (k + ?l)}" using p k(1) by (simp add: positions_def)
  then have "(\<Union>f \<in> set (fs @ [f]). positions f) = {0 ..< int k} \<union> {int k ..< int (k + ?l)}" unfolding k(5) by auto
  then have "{0 ..< int (k + ?l)} = (\<Union>f \<in> set (fs @ [f]). positions f)" by auto
  moreover have "\<exists>j. crypto_Offset g = int j \<and> j + length (crypto_Data g) \<le> k + ?l \<and> crypto_Data g = take (length (crypto_Data g)) (drop j w)"
    if "g \<in> set fs" for g using k(4) that by (meson trans_le_add1)
  ultimately show ?case using p k(1) l unfolding sent_inv_def by (intro exI [of _ "k + ?l"]) auto
qed

lemma sent_piece:
  assumes "sent_inv s w fs" "f \<in> set fs"
  shows "piece (\<lambda>p. w ! nat p) f"
proof -
  from assms obtain k j where j: "crypto_Offset f = int j" "j + length (crypto_Data f) \<le> k" "k \<le> length w"
    "crypto_Data f = take (length (crypto_Data f)) (drop j w)" unfolding sent_inv_def by blast
  have "crypto_Data f ! n = w ! (j + n)" if "n < length (crypto_Data f)" for n
  proof -
    have "crypto_Data f ! n = take (length (crypto_Data f)) (drop j w) ! n" using j(4) by simp
    also have "\<dots> = w ! (j + n)" using that j(2,3) by simp
    finally show ?thesis .
  qed
  with j show ?thesis by (simp add: piece_def nat_add_distrib)
qed

lemma received_inv:
  assumes "cs_received r gs out" "\<forall>g \<in> set gs. piece S g"
  shows "cs_inv S r (\<Union>g \<in> set gs. positions g) out \<and> \<not> finished r"
  using assms
proof (induction rule: cs_received.induct)
  case rcv_new
  show ?case using cs_inv_new [of S] by (simp add: newCryptoStream_def)
next
  case (rcv_frame r gs out f r')
  then have "cs_inv S r' ((\<Union>g \<in> set gs. positions g) \<union> positions f) out \<and> \<not> finished r'" by (intro cs_inv_frame) auto
  moreover have "(\<Union>g \<in> set (gs @ [f]). positions g) = (\<Union>g \<in> set gs. positions g) \<union> positions f" by auto
  ultimately show ?case by simp
next
  case (rcv_get r gs out r' d)
  then show ?case using cs_inv_get by blast
qed

text \<open>
  C27. A crypto stream delivers the handshake in order. Whatever frames with pieces of the stream are handled
  and whenever data is taken: the data taken and the data waiting is the prefix of the stream that ends at the
  first byte not received, nothing contiguous is held back, at most MaxCryptoStreamOffset bytes
  are buffered, and the stream can be finished exactly when no data beyond a gap was received.
\<close>

theorem crypto_stream_correct:
  assumes "cs_run S s recv out"
  shows "\<exists>n. out @ msgBuf s = map (\<lambda>i. S (int i)) [0 ..< n] \<and> {0 ..< int n} \<subseteq> recv \<and> int n \<notin> recv
    \<and> recv \<subseteq> {0 ..< MaxCryptoStreamOffset} \<and> (snd (Finish s) = None \<longleftrightarrow> recv = {0 ..< int n})"
proof -
  from cs_run_inv [OF assms] have i: "sorter_run S (cs_queue s) (out @ msgBuf s) recv" "int (length (out @ msgBuf s)) \<notin> recv"
    "recv \<subseteq> {0 ..< MaxCryptoStreamOffset}" by (simp_all add: cs_inv_def)
  have "snd (Finish s) = None \<longleftrightarrow> recv = {0 ..< int (length (out @ msgBuf s))}"
    using HasMoreData_iff [OF i(1,2)] by (simp add: Finish_def)
  with i sorter.run_prefix [OF i(1)] sorter.run_received [OF i(1)] show ?thesis by (intro exI [of _ "length (out @ msgBuf s)"]) blast
qed

lemma handle_example:
  "cs_HandleCryptoFrame newCryptoStream \<lparr>crypto_Offset = 0, crypto_Data = [7, 8]\<rparr> =
    Inr (newCryptoStream\<lparr>cs_queue := \<lparr>queue = [], readPos = 2, gaps = [\<lparr>bi_Start = 2, bi_End = MaxByteCount\<rparr>]\<rparr>,
      msgBuf := [7, 8], highestOffset := 2\<rparr>, None)"
  by code_simp

theorem crypto_stream_correct_witness:
  "\<exists>s. cs_run (\<lambda>n. of_int (n + 7)) s {0, 1} [] \<and> msgBuf s = [7, 8] \<and>
    (\<exists>n. [] @ msgBuf s = map (\<lambda>i. of_int (int i + 7)) [0 ..< n] \<and> {0 ..< int n} \<subseteq> {0, 1} \<and> int n \<notin> {0, 1}
      \<and> {0, 1} \<subseteq> {0 ..< MaxCryptoStreamOffset} \<and> (snd (Finish s) = None \<longleftrightarrow> {0, 1} = {0 ..< int n}))"
proof -
  let ?f = "\<lparr>crypto_Offset = 0, crypto_Data = [7, 8 :: byte]\<rparr>" and ?S = "\<lambda>n :: int. of_int (n + 7) :: byte"
  let ?s = "newCryptoStream\<lparr>cs_queue := \<lparr>queue = [], readPos = 2, gaps = [\<lparr>bi_Start = 2, bi_End = MaxByteCount\<rparr>]\<rparr>,
      msgBuf := [7, 8], highestOffset := 2\<rparr>"
  have "piece ?S ?f" by (auto simp: piece_def less_Suc_eq numeral_2_eq_2)
  then have "cs_run ?S ?s ({} \<union> positions ?f) []"
    by (intro cs_run.cs_frame [OF cs_run.cs_new _ _ handle_example]) (simp_all add: newCryptoStream_def)
  moreover have "{} \<union> positions ?f = {0, 1}" by (auto simp: positions_def)
  ultimately have r: "cs_run ?S ?s {0, 1} []" by simp
  from crypto_stream_correct [OF r] r show ?thesis by (intro exI [of _ ?s]) simp
qed

text \<open>
  C9. The handshake messages arrive as they were written. One side writes data and sends it in frames of whatever
  sizes; the other receives frames among these in whatever order, some perhaps several times. What it has taken
  and what waits to be taken is always a prefix of what was written, and once every frame
  has arrived and nothing is left to send, it is all of it.
\<close>

theorem crypto_stream_transfer:
  assumes "cs_sent s w fs" "cs_received r gs out" "set gs \<subseteq> set fs"
  shows "(\<exists>rest. w = (out @ msgBuf r) @ rest) \<and> (set gs = set fs \<and> \<not> HasData s \<longrightarrow> out @ msgBuf r = w)"
proof -
  let ?S = "\<lambda>p. w ! nat p" and ?recv = "\<Union>g \<in> set gs. positions g" and ?got = "out @ msgBuf r"
  note si = cs_sent_inv [OF assms(1)]
  then obtain k where k: "k \<le> length w" "writeBuf s = drop k w" "{0 ..< int k} = (\<Union>f \<in> set fs. positions f)"
    unfolding sent_inv_def by blast
  have "\<forall>g \<in> set gs. piece ?S g" using sent_piece [OF si] assms(3) by blast
  from received_inv [OF assms(2) this] have i: "sorter_run ?S (cs_queue r) ?got ?recv" "int (length ?got) \<notin> ?recv"
    by (simp_all add: cs_inv_def)
  note p = sorter.run_prefix [OF i(1)] and rc = sorter.run_received [OF i(1)]
  have "{0 ..< int (length ?got)} \<subseteq> {0 ..< int k}" using rc assms(3) k(3) by blast
  then have l: "length ?got \<le> k" by (cases "length ?got") auto
  have "?got = take (length ?got) w" using l k(1) by (subst p) (auto intro!: nth_equalityI)
  then have "w = ?got @ drop (length ?got) w" by (metis append_take_drop_id)
  moreover have "?got = w" if "set gs = set fs" "\<not> HasData s"
  proof -
    have "k = length w" using that(2) k(1,2) by (simp add: HasData_def)
    moreover have "\<not> length ?got < k" using i(2) that(1) k(3) by auto
    ultimately show ?thesis using l \<open>?got = take (length ?got) w\<close> by simp
  qed
  ultimately show ?thesis by blast
qed

theorem crypto_stream_transfer_witness:
  "\<exists>s fs r. cs_sent s [7, 8] fs \<and> cs_received r fs [] \<and> \<not> HasData s \<and>
    (\<exists>rest. [7, 8] = ([] @ msgBuf r) @ rest) \<and> (set fs = set fs \<and> \<not> HasData s \<longrightarrow> [] @ msgBuf r = [7, 8])"
proof -
  let ?f = "\<lparr>crypto_Offset = 0, crypto_Data = [7, 8 :: byte]\<rparr>"
  let ?s = "newCryptoStream\<lparr>writeBuf := [], writeOffset := 2\<rparr>"
  have "PopCryptoFrame (cs_Write newCryptoStream [7, 8]) 100 = Inr (?s, ?f)" by code_simp
  from cs_sent.sent_pop [OF cs_sent.sent_write [OF cs_sent.sent_new] this]
  have s: "cs_sent ?s [7, 8] [?f]" by simp
  from cs_received.rcv_frame [OF cs_received.rcv_new handle_example]
  obtain r where r: "cs_received r [?f] []" by auto
  have "\<not> HasData ?s" by (simp add: HasData_def)
  with s r crypto_stream_transfer [OF s r order_refl] show ?thesis by blast
qed

subsection \<open>Feeding the handshake\<close>

lemma handleMessages_once:
  "handleMessages HandleMessage h l str =
    (if msgBuf str = [] then (h, str, None)
     else case HandleMessage h (msgBuf str) l of (h', err) \<Rightarrow> (h', str\<lparr>msgBuf := []\<rparr>, err))"
proof -
  have e: "handleMessages HandleMessage h' l (str\<lparr>msgBuf := []\<rparr>) = (h', str\<lparr>msgBuf := []\<rparr>, None)" for h'
    by (subst handleMessages.simps) (simp add: GetCryptoData_def)
  have "str\<lparr>msgBuf := []\<rparr> = str" if "msgBuf str = []" using that by simp
  then show ?thesis
    by (subst handleMessages.simps) (auto simp: GetCryptoData_def e split: prod.splits option.splits)
qed

text \<open>A frame changes the stream of its level only; all its contiguous data goes to the handshake.\<close>

lemma csm_HandleCryptoFrame_level:
  assumes "csm_HandleCryptoFrame (logged HandleMessage) (h, log) m f l = Inr ((h', log'), m', None)"
  shows "cryptoLevel l \<and> (\<exists>str. cs_HandleCryptoFrame (levelStream m l) f = Inr (str, None)
    \<and> levelStream m' l = str\<lparr>msgBuf := []\<rparr> \<and> log' = log(l := log l @ msgBuf str)
    \<and> (\<forall>l'. cryptoLevel l' \<and> l' \<noteq> l \<longrightarrow> levelStream m' l' = levelStream m l'))"
proof -
  have c: "cryptoLevel l" using assms by (cases l) (auto simp: csm_HandleCryptoFrame_def cryptoLevel_def)
  then obtain str err where s: "cs_HandleCryptoFrame (levelStream m l) f = Inr (str, err)"
    using assms by (auto simp: csm_HandleCryptoFrame_def cryptoLevel_def levelStream_def bindE_def split: sum.splits)
  have e: "err = None" using assms c s
    by (auto simp: csm_HandleCryptoFrame_def cryptoLevel_def levelStream_def split: option.splits)
  have m: "(h', log') = fst (handleMessages (logged HandleMessage) (h, log) l str) \<and>
    (\<exists>str'. fst (snd (handleMessages (logged HandleMessage) (h, log) l str)) = str' \<and> levelStream m' l = str'
      \<and> (\<forall>l'. cryptoLevel l' \<and> l' \<noteq> l \<longrightarrow> levelStream m' l' = levelStream m l'))"
    using assms c s e
    by (auto simp: csm_HandleCryptoFrame_def cryptoLevel_def levelStream_def split: prod.splits)
  moreover have "fst (snd (handleMessages (logged HandleMessage) (h, log) l str)) = str\<lparr>msgBuf := []\<rparr>"
    "snd (fst (handleMessages (logged HandleMessage) (h, log) l str)) = log(l := log l @ msgBuf str)"
    by (auto simp: handleMessages_once logged_def split: prod.splits)
  ultimately show ?thesis using c s e by (metis snd_conv)
qed

lemma csm_run_inv:
  assumes "csm_run HandleMessage S h m recv log" "cryptoLevel l"
  shows "cs_inv (S l) (levelStream m l) (recv l) (log l) \<and> msgBuf (levelStream m l) = []"
  using assms
proof (induction rule: csm_run.induct)
  case (csm_new h)
  have "levelStream \<lparr>initialStream = newCryptoStream, handshakeStream = newCryptoStream, oneRTTStream = newCryptoStream\<rparr> l = newCryptoStream"
    by (cases l) (simp_all add: levelStream_def)
  then show ?case using cs_inv_new [of "S l"] by (simp add: newCryptoStream_def)
next
  case (csm_frame h m recv log l' f h' log' m')
  from csm_HandleCryptoFrame_level [OF csm_frame.hyps(4)] obtain str where
    s: "cs_HandleCryptoFrame (levelStream m l') f = Inr (str, None)" "levelStream m' l' = str\<lparr>msgBuf := []\<rparr>"
      "log' = log(l' := log l' @ msgBuf str)" "\<forall>l. cryptoLevel l \<and> l \<noteq> l' \<longrightarrow> levelStream m' l = levelStream m l" by blast
  show ?case
  proof (cases "l = l'")
    case True
    from csm_frame.IH csm_frame.prems True have "cs_inv (S l') (levelStream m l') (recv l') (log l')" by simp
    from cs_inv_frame [OF this csm_frame.hyps(2,3) s(1)]
    have "cs_inv (S l') str (recv l' \<union> positions f) (log l')" by simp
    from cs_inv_get [OF this, of "str\<lparr>msgBuf := []\<rparr>" "msgBuf str"] show ?thesis using True s by (simp add: GetCryptoData_def)
  next
    case False
    then show ?thesis using s csm_frame.IH csm_frame.prems by simp
  qed
next
  case (csm_drop h m recv log l' m' err)
  then have "cs_queue (levelStream m' l) = cs_queue (levelStream m l)" "msgBuf (levelStream m' l) = msgBuf (levelStream m l)"
    by (auto simp: csm_Drop_def Finish_def levelStream_def split: EncryptionLevel.splits prod.splits if_splits)
  with csm_drop show ?case by (auto intro: cs_inv_same)
qed

text \<open>
  C28. The handshake is fed in order at every encryption level: whatever frames arrive at whatever level, the
  messages given to the handshake at a level are together the stream of that level up to the first byte that
  was not received, and nothing that could be given is left in a buffer.
\<close>

theorem crypto_manager_feeds_handshake:
  assumes "csm_run HandleMessage S h m recv log" "l = EncryptionInitial \<or> l = EncryptionHandshake \<or> l = Encryption1RTT"
  shows "\<exists>n. log l = map (\<lambda>i. S l (int i)) [0 ..< n] \<and> {0 ..< int n} \<subseteq> recv l \<and> int n \<notin> recv l"
proof -
  from csm_run_inv [OF assms(1), of l] assms(2) have i: "sorter_run (S l) (cs_queue (levelStream m l)) (log l) (recv l)"
    "int (length (log l)) \<notin> recv l" by (auto simp: cs_inv_def cryptoLevel_def)
  from sorter.run_prefix [OF i(1)] sorter.run_received [OF i(1)] i(2) show ?thesis by blast
qed

theorem crypto_manager_feeds_handshake_witness:
  "\<exists>m log. csm_run (\<lambda>h d l. (h + length d, None)) (\<lambda>l n. of_int (n + 7)) 2 m ((\<lambda>_. {})(EncryptionInitial := {0, 1})) log \<and>
    (\<exists>n. log EncryptionInitial = map (\<lambda>i. of_int (int i + 7)) [0 ..< n] \<and> {0 ..< int n} \<subseteq> {0, 1} \<and> int n \<notin> {0, 1})"
proof -
  let ?f = "\<lparr>crypto_Offset = 0, crypto_Data = [7, 8 :: byte]\<rparr>" and ?S = "\<lambda>(l :: EncryptionLevel) n :: int. of_int (n + 7) :: byte"
  let ?hm = "\<lambda>(h :: nat) (d :: byte list) (l :: EncryptionLevel). (h + length d, None :: error option)"
  let ?new = "\<lparr>initialStream = newCryptoStream, handshakeStream = newCryptoStream, oneRTTStream = newCryptoStream\<rparr>"
  have p: "piece (?S EncryptionInitial) ?f" by (auto simp: piece_def less_Suc_eq numeral_2_eq_2)
  have nf: "\<not> finished (levelStream ?new EncryptionInitial)" by (simp add: levelStream_def newCryptoStream_def)
  obtain m log where "csm_HandleCryptoFrame (logged ?hm) (0, \<lambda>_. []) ?new ?f EncryptionInitial = Inr ((2, log), m, None)"
    by (auto simp: csm_HandleCryptoFrame_def handle_example handleMessages_once logged_def)
  from csm_run.csm_frame [where S = ?S, OF csm_run.csm_new nf p this]
  have r: "csm_run ?hm ?S 2 m ((\<lambda>_. {})(EncryptionInitial := {} \<union> positions ?f)) log" .
  have "{} \<union> positions ?f = {0, 1}" by (auto simp: positions_def)
  with r have r: "csm_run ?hm ?S 2 m ((\<lambda>_. {})(EncryptionInitial := {0, 1})) log" by simp
  from crypto_manager_feeds_handshake [OF r, of EncryptionInitial] r show ?thesis by auto
qed

end
