(* ===== verification/Instant_Ack.thy ===== *)
theory Instant_Ack
  imports Received_Handler Sent_Handler_Runs Packet_Payload Crypto_Stream
begin

text \<open>
  How a connection processes an unpacked packet, from \<open>connection.go\<close>: \<open>handleUnpackedLongHeaderPacket\<close> with the
  instant ACK of this fork, \<open>handleUnpackedShortHeaderPacket\<close> and \<open>dropEncryptionLevel\<close>. The state holds the
  components modelled elsewhere; \<open>c_rest\<close> is the remaining state. The record \<open>connEnv\<close> has the methods that
  are called here and belong to other parts of the connection: the theorems hold for any of them. The
  frame parser stands beside the connection, as \<open>handleFrames\<close> has it. Tracing is reduced to whether
  the frames are logged. The busy waits that delay the first packet and the handshake after the instant
  ACK change no state; the clock is an argument.
\<close>

subsection \<open>State\<close>

record ('f, 'r) connection =
  c_perspective :: Perspective
  EnableInstantACK :: bool
  receivedFirstPacket :: bool
  handshakeDestConnID :: "byte list"
  c_sentPacketHandler :: "'f sentPacketHandler"
  c_receivedPacketHandler :: receivedPacketHandler
  c_cryptoStreamManager :: cryptoStreamManager
  lastPacketReceivedTime :: "time"
  firstAckElicitingPacketAfterIdleSentTime :: "time"
  keepAlivePingSent :: bool
  c_rest :: 'r

record unpackedPacket =
  up_SrcConnectionID :: "byte list"
  up_PacketNumber :: PacketNumber
  up_encryptionLevel :: EncryptionLevel
  up_data :: "byte list"

record ('f, 'r) connEnv =
  ChangeInitialConnID :: "'r \<Rightarrow> byte list \<Rightarrow> 'r"
  DiscardInitialKeys :: "'r \<Rightarrow> 'r"
  rejected0RTT :: "'r \<Rightarrow> 'r \<times> error option"
  triggerSending :: "('f, 'r) connection \<Rightarrow> ('f, 'r) connection result"
  handleFrame :: "('f, 'r) connection frameHandler"
  handshakeComplete :: "frameParser \<times> ('f, 'r) connection \<Rightarrow> bool"
  handleHandshakeComplete :: "frameParser \<times> ('f, 'r) connection \<Rightarrow> (frameParser \<times> ('f, 'r) connection) \<times> error option"

subsection \<open>Registering packets and dropping keys\<close>

text \<open>The sent packet handler as the received packet handler sees it.\<close>

definition sentTracker :: "time \<Rightarrow> 'f sentPacketHandler sentPacketTracker" where
  "sentTracker now =
     \<lparr>sp_GetLowestPacketNotConfirmedAcked = GetLowestPacketNotConfirmedAcked,
      sp_ReceivedPacket = (\<lambda>s l. Inr (sph_ReceivedPacket s l now))\<rparr>"

text \<open>The call of \<open>receivedPacketHandler.ReceivedPacket\<close>; a panic ends the connection, an error is a value.\<close>

definition registerPacket ::
  "('f, 'r) connection \<Rightarrow> PacketNumber \<Rightarrow> ECN \<Rightarrow> EncryptionLevel \<Rightarrow> time \<Rightarrow> bool \<Rightarrow> time \<Rightarrow>
   (('f, 'r) connection \<times> error option) result" where
  "registerPacket c pn ecn encLevel rcvTime ackEliciting now =
     (case handler_ReceivedPacket (sentTracker now) (c_receivedPacketHandler c) (c_sentPacketHandler c) pn ecn encLevel rcvTime ackEliciting of
        (rph, sph, r) \<Rightarrow>
          let c = c\<lparr>c_receivedPacketHandler := rph, c_sentPacketHandler := sph\<rparr> in
          case r of
            Inl (Panic m) \<Rightarrow> Inl (Panic m)
          | Inl e \<Rightarrow> Inr (c, Some e)
          | Inr _ \<Rightarrow> Inr (c, None))"

definition dropEncryptionLevel ::
  "('f, 'r) connEnv \<Rightarrow> ('f, 'r) connection \<Rightarrow> EncryptionLevel \<Rightarrow> time \<Rightarrow> (('f, 'r) connection \<times> error option) result" where
  "dropEncryptionLevel env c encLevel now =
     bindE (sph_DropPackets (c_sentPacketHandler c) encLevel now) (\<lambda>sph.
     bindE (handler_DropPackets (c_receivedPacketHandler c) encLevel) (\<lambda>rph.
     let c = c\<lparr>c_sentPacketHandler := sph, c_receivedPacketHandler := rph\<rparr> in
     if encLevel = Encryption0RTT then
       (case rejected0RTT env (c_rest c) of (r, err) \<Rightarrow> Inr (c\<lparr>c_rest := r\<rparr>, err))
     else
       let c = (if encLevel = EncryptionInitial then c\<lparr>c_rest := DiscardInitialKeys env (c_rest c)\<rparr> else c) in
       bindE (csm_Drop (c_cryptoStreamManager c) encLevel) (\<lambda>(m, err).
       Inr (c\<lparr>c_cryptoStreamManager := m\<rparr>, err))))"

subsection \<open>Packets with a long header\<close>

definition switchConnID :: "('f, 'r) connEnv \<Rightarrow> ('f, 'r) connection \<Rightarrow> byte list \<Rightarrow> ('f, 'r) connection" where
  "switchConnID env c cid =
     (if cid \<noteq> handshakeDestConnID c
      then c\<lparr>handshakeDestConnID := cid, c_rest := ChangeInitialConnID env (c_rest c) cid\<rparr> else c)"

text \<open>
  The first packet of a connection: the peer may have changed its connection ID, and a server with the
  option acknowledges at once. The result says whether it did. The errors of both calls are ignored.
\<close>

definition firstPacket ::
  "('f, 'r) connEnv \<Rightarrow> ('f, 'r) connection \<Rightarrow> unpackedPacket \<Rightarrow> ECN \<Rightarrow> time \<Rightarrow> time \<Rightarrow> (('f, 'r) connection \<times> bool) result" where
  "firstPacket env c packet ecn rcvTime now =
     (if receivedFirstPacket c then Inr (c, False)
      else
        let c = c\<lparr>receivedFirstPacket := True\<rparr>;
            c = (if c_perspective c = PerspectiveClient then switchConnID env c (up_SrcConnectionID packet) else c) in
        if c_perspective c = PerspectiveServer then
          let c = switchConnID env c (up_SrcConnectionID packet) in
          if EnableInstantACK c then
            bindE (registerPacket c (up_PacketNumber packet) ecn (up_encryptionLevel packet) rcvTime True now) (\<lambda>(c, _).
            bindE (triggerSending env c) (\<lambda>c.
            Inr (c, True)))
          else Inr (c, False)
        else Inr (c, False))"


subsection \<open>Packets with a short header\<close>

definition handleUnpackedShortHeaderPacket ::
  "('f, 'r) connEnv \<Rightarrow> bool \<Rightarrow> frameParser \<times> ('f, 'r) connection \<Rightarrow> PacketNumber \<Rightarrow> byte list \<Rightarrow> ECN \<Rightarrow> time \<Rightarrow> time \<Rightarrow>
   ((frameParser \<times> ('f, 'r) connection) \<times> error option) result" where
  "handleUnpackedShortHeaderPacket env log s pn data ecn rcvTime now =
     (let (p, c) = s;
          c = c\<lparr>lastPacketReceivedTime := rcvTime, firstAckElicitingPacketAfterIdleSentTime := 0, keepAlivePingSent := False\<rparr> in
      case handleFrames (handleFrame env) (handshakeComplete env) (handleHandshakeComplete env) log Encryption1RTT (p, c) data of
        (s, _, Inl e) \<Rightarrow> Inr (s, Some e)
      | ((p, c), _, Inr ackEliciting) \<Rightarrow>
          bindE (registerPacket c pn ecn Encryption1RTT rcvTime ackEliciting now) (\<lambda>(c, err).
          Inr ((p, c), err)))"

text \<open>The ACK frame that is due in the Initial space acknowledges exactly the packet.\<close>

definition acksOnly :: "receivedPacketHandler \<Rightarrow> PacketNumber \<Rightarrow> bool" where
  "acksOnly h pn \<longleftrightarrow> (\<forall>t. \<exists>h' ack. handler_GetAckFrame h t EncryptionInitial True = (h', Some ack)
     \<and> AckRanges ack = [\<lparr>Smallest = pn, Largest = pn\<rparr>] \<and> DelayTime ack = 0)"

text \<open>The connection at the arrival of the first Initial packet of a client.\<close>

definition freshServer :: "('f, 'r) connection \<Rightarrow> bool" where
  "freshServer c \<longleftrightarrow> c_perspective c = PerspectiveServer \<and> \<not> receivedFirstPacket c
     \<and> initialPackets (c_receivedPacketHandler c) = Some newReceivedPacketTracker"


text \<open>A concrete server for the witnesses; its other parts are idle.\<close>

definition idleEnv :: "('f, unit) connEnv" where
  "idleEnv =
     \<lparr>ChangeInitialConnID = (\<lambda>r cid. r), DiscardInitialKeys = (\<lambda>r. r), rejected0RTT = (\<lambda>r. (r, None)), triggerSending = Inr,
      handleFrame = (\<lambda>s f. (s, None)), handshakeComplete = (\<lambda>s. False), handleHandshakeComplete = (\<lambda>s. (s, None))\<rparr>"

definition serverConn :: "bool \<Rightarrow> (nat, unit) connection" where
  "serverConn instant =
     \<lparr>c_perspective = PerspectiveServer, EnableInstantACK = instant, receivedFirstPacket = False, handshakeDestConnID = [1],
      c_sentPacketHandler = newSentPacketHandler (\<lambda>n. 0) 0 1252 NewRTTStats False False PerspectiveServer, c_receivedPacketHandler = newReceivedPacketHandler,
      c_cryptoStreamManager = \<lparr>initialStream = newCryptoStream, handshakeStream = newCryptoStream, oneRTTStream = newCryptoStream\<rparr>,
      lastPacketReceivedTime = 0, firstAckElicitingPacketAfterIdleSentTime = 0, keepAlivePingSent = False, c_rest = ()\<rparr>"

subsection \<open>Lemmas\<close>

lemma tracker_first_packet:
  assumes "0 \<le> pn"
  shows "\<exists>t. tracker_ReceivedPacket newReceivedPacketTracker pn ecn rcvTime True = (t, Inr ())
    \<and> hasNewAck t \<and> ackQueued t \<and> lastAck t = None \<and> ranges (packetHistory t) = [\<lparr>Start = pn, End = pn\<rparr>]"
  using assms
  by (cases ecn)
    (auto simp: tracker_ReceivedPacket_def newReceivedPacketTracker_def newReceivedPacketHistory_def ReceivedPacket_def
      addToRanges_def maybeDeleteOldRanges_def MaxNumAckRanges_def isMissing_def maybeQueueACK_def countECN_def)

lemma acksOnly_tracker:
  assumes "initialPackets h = Some t" "hasNewAck t" "ackQueued t" "lastAck t = None"
    "ranges (packetHistory t) = [\<lparr>Start = pn, End = pn\<rparr>]"
  shows "acksOnly h pn"
  using assms
  by (auto simp: acksOnly_def handler_GetAckFrame_def tracker_GetAckFrame_def zeroDelay_def Let_def AppendAckRanges_def
      emptyAckFrame_def AckFrame_Reset_def)

lemma registerPacket_first:
  assumes "initialPackets (c_receivedPacketHandler c) = Some newReceivedPacketTracker" "0 \<le> pn"
  shows "\<exists>rph. registerPacket c pn ecn EncryptionInitial rcvTime True now = Inr (c\<lparr>c_receivedPacketHandler := rph\<rparr>, None)
    \<and> acksOnly rph pn"
proof -
  from tracker_first_packet [OF assms(2), of ecn rcvTime] obtain t where
    t: "tracker_ReceivedPacket newReceivedPacketTracker pn ecn rcvTime True = (t, Inr ())" "hasNewAck t" "ackQueued t" "lastAck t = None"
      "ranges (packetHistory t) = [\<lparr>Start = pn, End = pn\<rparr>]" by blast
  have "registerPacket c pn ecn EncryptionInitial rcvTime True now =
    Inr (c\<lparr>c_receivedPacketHandler := (c_receivedPacketHandler c)\<lparr>initialPackets := Some t\<rparr>\<rparr>, None)"
    using assms(1) t(1) by (simp add: registerPacket_def handler_ReceivedPacket_def sentTracker_def sph_ReceivedPacket_def)
  moreover have "acksOnly ((c_receivedPacketHandler c)\<lparr>initialPackets := Some t\<rparr>) pn"
    using t by (intro acksOnly_tracker [of _ t]) simp_all
  ultimately show ?thesis by blast
qed

lemma switchConnID_fields [simp]:
  "c_perspective (switchConnID env c cid) = c_perspective c"
  "EnableInstantACK (switchConnID env c cid) = EnableInstantACK c"
  "receivedFirstPacket (switchConnID env c cid) = receivedFirstPacket c"
  "c_receivedPacketHandler (switchConnID env c cid) = c_receivedPacketHandler c"
  by (simp_all add: switchConnID_def)

lemma firstPacket_instant:
  assumes "freshServer c" "EnableInstantACK c" "up_encryptionLevel packet = EncryptionInitial" "0 \<le> up_PacketNumber packet"
  shows "\<exists>c1. firstPacket env c packet ecn rcvTime now = bindE (triggerSending env c1) (\<lambda>c. Inr (c, True))
    \<and> acksOnly (c_receivedPacketHandler c1) (up_PacketNumber packet) \<and> c_perspective c1 = PerspectiveServer"
proof -
  let ?c = "switchConnID env (c\<lparr>receivedFirstPacket := True\<rparr>) (up_SrcConnectionID packet)"
  have "initialPackets (c_receivedPacketHandler ?c) = Some newReceivedPacketTracker" using assms(1) by (simp add: freshServer_def)
  from registerPacket_first [OF this assms(4), of ecn rcvTime now] obtain rph where
    r: "registerPacket ?c (up_PacketNumber packet) ecn EncryptionInitial rcvTime True now = Inr (?c\<lparr>c_receivedPacketHandler := rph\<rparr>, None)"
      "acksOnly rph (up_PacketNumber packet)" by blast
  have "firstPacket env c packet ecn rcvTime now = bindE (triggerSending env (?c\<lparr>c_receivedPacketHandler := rph\<rparr>)) (\<lambda>c. Inr (c, True))"
    using assms r(1) by (simp add: firstPacket_def freshServer_def)
  with r(2) assms(1) show ?thesis by (intro exI [of _ "?c\<lparr>c_receivedPacketHandler := rph\<rparr>"]) (simp add: freshServer_def)
qed




lemma sph_DropPackets_Initial:
  assumes "sph_DropPackets h EncryptionInitial now = Inr h'"
  shows "sph_initialPackets h' = None"
  using assms by (auto simp: sph_DropPackets_def Let_def bindE_def setLossDetectionTimer_def split: option.splits sum.splits if_splits prod.splits)

text \<open>
  C7. The instant ACK. When the first Initial packet of a client reaches a server with the option, sending is
  triggered in a state in which an ACK frame is due at once that acknowledges exactly this packet, without
  delay. That state does not depend on the payload: the ACK leaves before any frame is looked at.
\<close>

theorem instant_ack_precedes_payload:
  assumes "freshServer c" "EnableInstantACK c" "up_encryptionLevel packet = EncryptionInitial" "0 \<le> up_PacketNumber packet"
  shows "\<exists>c1. acksOnly (c_receivedPacketHandler c1) (up_PacketNumber packet)
    \<and> (\<forall>data. firstPacket env c (packet\<lparr>up_data := data\<rparr>) ecn rcvTime now = bindE (triggerSending env c1) (\<lambda>c. Inr (c, True)))"
proof -
  have "firstPacket env c (packet\<lparr>up_data := data\<rparr>) ecn rcvTime now = firstPacket env c packet ecn rcvTime now" for data
    by (simp add: firstPacket_def Let_def)
  with firstPacket_instant [OF assms, of env ecn rcvTime now] show ?thesis by auto
qed


text \<open>
  Dropping the Initial keys never panics. Afterwards both packet handlers have forgotten the space, the
  other spaces of received packets are untouched, and the sent packet handler is in a state its own theorems cover; it
  is an error exactly when the Initial crypto stream holds data beyond a gap, else the stream is finished.
\<close>

theorem dropInitial_correct:
  assumes "sph_reachable (c_sentPacketHandler c)"
  shows "\<exists>c' err. dropEncryptionLevel env c EncryptionInitial now = Inr (c', err)
    \<and> sph_reachable (c_sentPacketHandler c') \<and> sph_initialPackets (c_sentPacketHandler c') = None
    \<and> c_receivedPacketHandler c' = (c_receivedPacketHandler c)\<lparr>initialPackets := None\<rparr>
    \<and> (err = None \<longleftrightarrow> \<not> HasMoreData (cs_queue (initialStream (c_cryptoStreamManager c))))
    \<and> (err = None \<longrightarrow> finished (initialStream (c_cryptoStreamManager c')))"
proof -
  have "Sent_Handler_Correct.handler_inv (c_sentPacketHandler c)" using sph_reachable_inv [OF assms] by (simp add: reach_inv_def)
  from DropPackets_ok [OF this, of EncryptionInitial now] obtain sph where
    d: "sph_DropPackets (c_sentPacketHandler c) EncryptionInitial now = Inr sph" by auto
  have "sph_reachable sph" using d by (intro sph_reachable.drop [OF assms _ d]) simp
  moreover note sph_DropPackets_Initial [OF d]
  ultimately show ?thesis using d
    by (auto simp: dropEncryptionLevel_def handler_DropPackets_def csm_Drop_def Finish_def Let_def)
qed

lemma serverConn_fresh: "freshServer (serverConn b)" "EnableInstantACK (serverConn b) = b"
  by (simp_all add: freshServer_def serverConn_def newReceivedPacketHandler_def)

theorem instant_ack_precedes_payload_witness:
  "\<exists>c1. acksOnly (c_receivedPacketHandler c1) 3
    \<and> (\<forall>data. firstPacket idleEnv (serverConn True)
          (\<lparr>up_SrcConnectionID = [2], up_PacketNumber = 3, up_encryptionLevel = EncryptionInitial, up_data = []\<rparr>\<lparr>up_data := data\<rparr>) ECNNon 7 8
        = bindE (triggerSending idleEnv c1) (\<lambda>c. Inr (c, True)))"
  using instant_ack_precedes_payload [OF serverConn_fresh(1), of True
      "\<lparr>up_SrcConnectionID = [2], up_PacketNumber = 3, up_encryptionLevel = EncryptionInitial, up_data = []\<rparr>" idleEnv ECNNon 7 8]
  by (simp add: serverConn_fresh)


theorem dropInitial_correct_witness:
  "\<exists>c'. dropEncryptionLevel idleEnv (serverConn False) EncryptionInitial 1 = Inr (c', None)
     \<and> sph_initialPackets (c_sentPacketHandler c') = None"
proof -
  have "sph_reachable (c_sentPacketHandler (serverConn False))"
    unfolding serverConn_def connection.simps by (rule sph_reachable.new) (simp_all add: fairRnd_def NewRTTStats_def rtt_inv_def)
  from dropInitial_correct [OF this, of idleEnv 1] show ?thesis
    by (auto simp: serverConn_def newCryptoStream_def newFrameSorter_def HasMoreData_def)
qed

end
