(* ===== verification/Spec2Isabelle.thy ===== *)
theory Spec2Isabelle
  imports Prelude Varint Protocol Floats Ack_Frame Received_History Received_Tracker Received_Handler Sent_History
    Rtt_Stats Congestion Cubic_Sender Ecn Sent_Handler Sent_Handler_Correct Sent_Handler_Runs Flow_Control Frames Frame_Parser
    Packet_Payload Frame_Sorter Amplification Crypto_Stream Instant_Ack
begin

text \<open>
  Verification of the QUIC transport core of the fork of quic-go in \<open>src/01-quic-go-instant-ack\<close>, which adds the
  instant ACK: a server acknowledges the first packet of a client before it processes it. All paths below are
  relative to that directory.

  \<^bold>\<open>The program.\<close> A datagram is decrypted into packets. \<open>connection.go\<close> parses the frames of a packet, hands each to
  its handler, and registers the packet number with the received packet handler, which decides when to
  acknowledge. STREAM and CRYPTO data goes through a frame sorter; flow controllers bound it. In the other
  direction frames are packed, the sent packet handler records the packet, and ACK frames or timers make it
  acknowledged or lost; it drives the RTT statistics, the congestion controller with its pacer, and the
  validation of ECN. The theories follow this structure.

  \<^bold>\<open>Shared theories.\<close>
  \<^item> \<open>Prelude\<close>: a Go result \<open>(value, error)\<close> is a sum with the error on the left; a panic is the error \<open>Panic\<close>, so
    that "never panics" is a statement about results. Where a function can both panic and fail, the panic is
    in the outer result and the error in the inner one. Packet numbers, byte counts, durations and times are
    integers; where the source can overflow, the wrap-around is written out (\<open>wrap64\<close>, \<open>int64_of\<close>). Bytes
    and wire values are words of 8 and 64 bits. The clock and random numbers are arguments.
  \<^item> \<open>Floats\<close>: the float32 and float64 operations used for RTT, pacing and windows, with rounding to nearest even.

  \<^bold>\<open>Encoding.\<close>
  \<^item> \<open>Varint\<close> (\<open>quicvarint/varint.go\<close>) and \<open>Protocol\<close> (\<open>internal/protocol\<close>): round trips of the integer codec, and
    truncated packet numbers decode to the original within the window of RFC 9000.
  \<^item> \<open>Ack_Frame\<close> (\<open>internal/wire/ack_frame.go\<close>, \<open>ack_range.go\<close>): the round trip of ACK frames, soundness of the
    parser, exact lengths, the binary search of \<open>AcksPacket\<close>.
  \<^item> \<open>Frames\<close> and \<open>Frame_Parser\<close> (the other files \<open>*_frame.go\<close>, \<open>pool.go\<close>, \<open>frame_parser.go\<close>, \<open>ack_eliciting.go\<close>): on
    every input the parser gives a well-formed frame allowed at its level, the end, or a FRAME_ENCODING_ERROR.
    Splitting a frame gives two consecutive ones. Types longer than a byte can be taken for STREAM frames.
    The parsers allocate only lengths they have compared with the input, so allocation does not fail.
  \<^item> \<open>Packet_Payload\<close> (\<open>appendPacketPayload\<close> of \<open>packet_packer.go\<close>, \<open>handleFrames\<close> of \<open>connection.go\<close>): what one side writes
    the other handles frame by frame; tracing changes nothing else.

  \<^bold>\<open>Receiving.\<close>
  \<^item> \<open>Received_History\<close>, \<open>Received_Tracker\<close>, \<open>Received_Handler\<close> (files \<open>received_packet_*.go\<close> of \<open>internal/ackhandler\<close>): the
    history refines a set of packet numbers; ACKs are queued in time; a frame is given exactly when it is due
    and acknowledges exactly what was received; packet number spaces are independent. Two flaws are proved
    in general: packets of a discarded range are new again, and a confirmation mark above everything
    received makes the next ACK frame empty, whose length panics.
  \<^item> \<open>Frame_Sorter\<close> (\<open>frame_sorter.go\<close>): over all runs of Push and Pop the data handed out is the prefix of the stream,
    it is handed out by finitely many calls of Pop, and callbacks are called once.
  \<^item> \<open>Crypto_Stream\<close> (\<open>crypto_stream.go\<close>, \<open>crypto_stream_manager.go\<close>): built on the contract of the frame sorter, the
    locale \<open>stream_buffer\<close>; what is written on one side arrives in order on the other, per encryption level.
  \<^item> \<open>Flow_Control\<close> (\<open>internal/flowcontrol\<close>): the connection accounts for exactly what its streams received, consumed
    and sent, violations are rejected exactly, window updates make progress. Sending is not limited in the
    model: whatever is sent, the credit reported is what is left, zero if nothing is.
  \<^item> \<open>Instant_Ack\<close> (\<open>handleUnpackedLongHeaderPacket\<close>, \<open>handleUnpackedShortHeaderPacket\<close>, \<open>dropEncryptionLevel\<close> of \<open>connection.go\<close>):
    the composition of these parts. The ACK of the first packet is due before its frames are looked
    at, so that a malformed packet is acknowledged too. Methods of parts that are not modelled are fields of
    the record \<open>connEnv\<close>; the theorems hold for all of them.

  \<^bold>\<open>Sending.\<close>
  \<^item> \<open>Sent_History\<close> (\<open>sent_packet_history.go\<close>, \<open>packet_number_generator.go\<close>): packet numbers are used in sequence, the
    history forgets exactly the packets it is told to.
  \<^item> \<open>Rtt_Stats\<close> (\<open>internal/utils/rtt_stats.go\<close>): below two seconds the float32 update is exact.
  \<^item> \<open>Congestion\<close> and \<open>Cubic_Sender\<close> (\<open>internal/congestion\<close>): the pacer conforms to a token bucket and wakes up in time
    for bandwidths below \<open>2^53\<close> bytes per second without overflow; with the infinite bandwidth before the
    first RTT sample the product overflows and it earns nothing. The window stays in its bounds and is cut
    back once per recovery. The theorems on the window are for Reno, which the sent packet handler selects; the
    cube root of the Cubic window is an integer one and no theorem depends on it.
  \<^item> \<open>Ecn\<close> (\<open>ecn.go\<close>): validation is sound; the last testing packet is treated as unmarked.
  \<^item> \<open>Sent_Handler\<close>, \<open>Sent_Handler_Correct\<close>, \<open>Sent_Handler_Runs\<close> (\<open>sent_packet_handler.go\<close>): the definitions, an invariant
    kept by every operation, and theorems over all runs. ACKs remove exactly the acknowledged and the lost
    packets, bytes in flight are exact, nothing panics, the timer is armed when it has to be, and the
    probe timeout backs off up to 60 seconds.
  \<^item> \<open>Amplification\<close>: over whole runs the limit of an unvalidated address is exceeded by less than one datagram.

  \<^bold>\<open>Bounds and termination.\<close> No definition uses fuel. Loops over lists are structural; the others (removal of gaps in
  the frame sorter, the parser, which consumes its input, bisection) have a termination proof. Integers in
  the round-trip and length theorems are bounded by the range of the wire format, \<open>2^62\<close>; the RTT theorem by two
  seconds, which is where float32 stops being exact on microseconds. Packet numbers and counters of bytes are
  mathematical integers: they stay below \<open>2^62\<close> as the protocol requires.

  \<^bold>\<open>Not modelled.\<close> Concurrency, timers, sockets and the run loop of the connection, server and client; the TLS
  handshake and packet protection, which are calls of libraries, and the packet headers that are parsed under
  header protection; the blocking API of streams and the stream maps; the choice of what the
  packer puts in a packet and the retransmission queues; connection IDs, path MTU discovery, transport
  parameters; tracing, qlog and HTTP/3; the measurement scripts in the other directories under \<open>src\<close>. Mutexes,
  logging and tracing callbacks in modelled functions are left out, since they do not change the state.
\<close>

end
